(* ===== verification/Upc_Prelude.thy ===== *)
theory Upc_Prelude
  imports Main "HOL-Library.Word"
begin

text \<open>
  Shared vocabulary of the development: the machine types of the Rust code, the part of
  the Rust standard library it uses (\<open>std::io::Error\<close>, \<open>Duration\<close>, little-endian
  conversions, \<open>usize::try_from\<close>), and the generic lemmas on lists, sums and runs of
  step functions that the components share.

  Lengths and sizes of type \<open>usize\<close> are \<open>nat\<close>; where the width of \<open>usize\<close> matters (a
  \<open>u64\<close> from the wire is converted to it) the largest \<open>usize\<close> is an argument, so that
  one model covers 64-bit hosts and 32-bit WebAssembly.
\<close>

named_theorems code_consts \<open>constants of the code, unfolded for evaluation\<close>
named_theorems codec \<open>encoding and decoding of bytes\<close>
named_theorems handlers \<open>definitions of event handlers\<close>

section \<open>Machine types\<close>

type_synonym u8 = "8 word"
type_synonym u16 = "16 word"
type_synonym u32 = "32 word"
type_synonym u64 = "64 word"
type_synonym bytes = "u8 list"

text \<open>The bytes of a text: \<open>String::into_bytes\<close>, \<open>as_bytes\<close> and byte literals.\<close>

definition into_bytes :: "string \<Rightarrow> bytes" where
  "into_bytes = map of_char"

lemma length_into_bytes [simp]: "length (into_bytes s) = length s"
  by (simp add: into_bytes_def)

section \<open>Errors of \<open>std::io\<close>\<close>

text \<open>The error kinds that the code constructs or inspects.\<close>

datatype error_kind =
    BrokenPipe | InvalidData | InvalidInput | OutOfMemory | TimedOut | ConnectionReset
  | ConnectionAborted | NotFound | ResourceBusy | PermissionDenied | Unsupported
  | WriteZero | UnexpectedEof | NetworkDown | OtherKind

text \<open>
  The errors of bulk and control transfers of the native USB library that the code tells
  apart, and all others.
\<close>

datatype transfer_error =
  TrDisconnected | TrCancelled | TrFault | TrInvalidArgument | TrStall | TrOther nat

text \<open>
  The payload of an error: a fixed text, a text with formatted numbers or bytes, an inner
  error of another library, or none (an error made from its kind alone).
\<close>

datatype message =
    Text string
  | SizeExceeds nat nat
  | OnlySent nat nat
  | WithBytes string bytes
  | Inner string
  | InnerTransfer transfer_error
  | NoText

datatype io_error = Error (kind: error_kind) (message: message)

section \<open>Durations\<close>

text \<open>\<open>std::time::Duration\<close> as its number of nanoseconds.\<close>

type_synonym duration = nat

definition from_millis :: "nat \<Rightarrow> duration" where
  "from_millis n = n * 1000000"

definition from_secs :: "nat \<Rightarrow> duration" where
  "from_secs n = n * 1000000000"

definition as_millis :: "duration \<Rightarrow> nat" where
  "as_millis d = d div 1000000"

lemma as_millis_from_millis [simp]: "as_millis (from_millis n) = n"
  by (simp add: as_millis_def from_millis_def)

lemma from_millis_as_millis_le: "from_millis (as_millis d) \<le> d"
  by (simp add: as_millis_def from_millis_def)

lemma from_millis_mono: "m \<le> n \<Longrightarrow> from_millis m \<le> from_millis n"
  by (simp add: from_millis_def)

lemma from_millis_0 [simp]: "from_millis 0 = 0"
  by (simp add: from_millis_def)

section \<open>Conversions between widths\<close>

text \<open>\<open>usize::try_from(x)\<close> for a \<open>u64\<close>, on a target whose largest \<open>usize\<close> is given.\<close>

definition usize_try_from :: "nat \<Rightarrow> u64 \<Rightarrow> nat option" where
  "usize_try_from usize_max x = (if unat x \<le> usize_max then Some (unat x) else None)"

definition usize_saturating :: "nat \<Rightarrow> u64 \<Rightarrow> nat" where
  "usize_saturating usize_max x =
     (case usize_try_from usize_max x of Some n \<Rightarrow> n | None \<Rightarrow> usize_max)"

lemma usize_saturating_min: "usize_saturating usize_max x = min (unat x) usize_max"
  by (simp add: usize_saturating_def usize_try_from_def)

section \<open>Little-endian bytes\<close>

text \<open>\<open>to_le_bytes\<close> and \<open>from_le_bytes\<close>, for a word of any width.\<close>

primrec to_le :: "nat \<Rightarrow> 'a::len word \<Rightarrow> bytes" where
  "to_le 0 w = []"
| "to_le (Suc n) w = ucast w # to_le n (drop_bit 8 w)"

primrec from_le :: "bytes \<Rightarrow> 'a::len word" where
  "from_le [] = 0"
| "from_le (b # bs) = or (ucast b) (push_bit 8 (from_le bs))"

lemma length_to_le [simp]: "length (to_le n w) = n"
  by (induction n arbitrary: w) auto

lemma from_le_to_le: "from_le (to_le n w) = take_bit (8 * n) w"
proof (induction n arbitrary: w)
  case 0
  then show ?case by simp
next
  case (Suc n)
  show ?case
    by (rule bit_word_eqI)
      (auto simp: Suc bit_simps bit_ucast_iff not_less intro: order.strict_trans1)
qed

lemma bit_from_le: "bit (from_le bs :: 'a::len word) n \<Longrightarrow> n < 8 * length bs"
proof (induction bs arbitrary: n)
  case Nil
  then show ?case by simp
next
  case (Cons b bs)
  from Cons.prems consider "bit b n" | "8 \<le> n" "bit (from_le bs :: 'a word) (n - 8)"
    by (auto simp: bit_simps)
  then show ?case
  proof cases
    case 1
    then have "n < 8" using bit_imp_le_length [of b n] by simp
    then show ?thesis by simp
  next
    case 2
    then show ?thesis using Cons.IH [of "n - 8"] by simp
  qed
qed

lemma drop_bit_from_le:
  assumes "8 * Suc (length bs) \<le> LENGTH('a::len)"
  shows "drop_bit 8 (from_le (b # bs) :: 'a word) = from_le bs"
proof (rule bit_word_eqI)
  fix n assume n: "n < LENGTH('a)"
  have "\<not> bit b (n + 8)"
    using bit_imp_le_length [of b "n + 8"] by auto
  moreover have "bit (from_le bs :: 'a word) n \<Longrightarrow> n + 8 < LENGTH('a)"
    using bit_from_le [of bs n] assms by fastforce
  ultimately show "bit (drop_bit 8 (from_le (b # bs) :: 'a word)) n = bit (from_le bs :: 'a word) n"
    by (auto simp: bit_simps add.commute)
qed

lemma to_le_from_le:
  assumes "8 * length bs \<le> LENGTH('a::len)"
  shows "to_le (length bs) (from_le bs :: 'a word) = bs"
  using assms
proof (induction bs)
  case Nil
  then show ?case by simp
next
  case (Cons b bs)
  have "ucast (from_le (b # bs) :: 'a word) = b"
    using Cons.prems by (intro bit_word_eqI) (auto simp: bit_simps)
  moreover have "drop_bit 8 (from_le (b # bs) :: 'a word) = from_le bs"
    using Cons.prems by (intro drop_bit_from_le) simp
  ultimately show ?case using Cons by simp
qed

text \<open>The widths that occur on the wire.\<close>

lemma from_le_to_le_u16 [codec, simp]: "from_le (to_le 2 w) = (w :: u16)"
  by (simp add: from_le_to_le take_bit_word_eq_self)

lemma from_le_to_le_u32 [codec, simp]: "from_le (to_le 4 w) = (w :: u32)"
  by (simp add: from_le_to_le take_bit_word_eq_self)

lemma from_le_to_le_u64 [codec, simp]: "from_le (to_le 8 w) = (w :: u64)"
  by (simp add: from_le_to_le take_bit_word_eq_self)

declare from_le.simps [simp del]

section \<open>Asynchronous results\<close>

text \<open>\<open>std::task::Poll\<close>: a future is still waiting, or it is done with a value.\<close>

datatype 'a poll = Pending | Ready 'a

section \<open>Packets cut into transfers\<close>

text \<open>
  How an application packet arrives when every IN transfer has room for \<open>n\<close> bytes: full
  transfers, then one that is shorter than \<open>n\<close>, possibly empty (PROTOCOL.md, section 3).
\<close>

function transfers :: "nat \<Rightarrow> 'a list \<Rightarrow> 'a list list" where
  "transfers n m =
     (if 0 < n \<and> n \<le> length m then take n m # transfers n (drop n m) else [m])"
  by pat_completeness auto
termination
  by (relation "measure (\<lambda>(n, m). length m)") auto

declare transfers.simps [simp del]

lemma transfers_short [simp]: "length m < n \<Longrightarrow> transfers n m = [m]"
  by (simp add: transfers.simps)

lemma transfers_full: "0 < n \<Longrightarrow> n \<le> length m \<Longrightarrow> transfers n m = take n m # transfers n (drop n m)"
  by (simp add: transfers.simps)

lemma transfers_not_Nil [simp]: "transfers n m \<noteq> []"
  by (simp add: transfers.simps)

text \<open>Induction on a packet that loses one full transfer at a time.\<close>

lemma transfers_induct [consumes 1, case_names short full]:
  assumes "0 < n"
    and "\<And>m. 0 < n \<Longrightarrow> length m < n \<Longrightarrow> P m"
    and "\<And>m. 0 < n \<Longrightarrow> n \<le> length m \<Longrightarrow> P (drop n m) \<Longrightarrow> P m"
  shows "P m"
proof (induction m rule: length_induct)
  case (1 m)
  then show ?case
    using assms by (cases "length m < n") (auto simp: not_less)
qed

lemma concat_transfers [simp]: "concat (transfers n m) = m"
proof (cases "0 < n")
  case True
  then show ?thesis
    by (induction m rule: transfers_induct) (simp_all add: transfers_full)
qed (simp add: transfers.simps)

lemma length_transfers: "0 < n \<Longrightarrow> length (transfers n m) = Suc (length m div n)"
proof (induction m rule: transfers_induct)
  case (full m)
  then show ?case by (simp add: transfers_full le_div_geq)
qed simp

text \<open>All transfers but the last are full; the last is short.\<close>

lemma transfers_shape:
  "0 < n \<Longrightarrow> list_all (\<lambda>t. length t = n) (butlast (transfers n m)) \<and> length (last (transfers n m)) < n"
proof (induction m rule: transfers_induct)
  case (full m)
  then show ?case by (simp add: transfers_full min_def)
qed simp

lemma dvd_length_drop:
  assumes "k dvd n" and "n \<le> length m"
  shows "k dvd length (drop n m) \<longleftrightarrow> k dvd length m"
proof -
  have "length m = n + length (drop n m)" using assms(2) by simp
  then show ?thesis using assms(1) by (metis dvd_add_right_iff)
qed

lemma last_transfers_Nil: "0 < n \<Longrightarrow> last (transfers n m) = [] \<longleftrightarrow> n dvd length m"
proof (induction m rule: transfers_induct)
  case (short m)
  then show ?case by (auto dest: nat_dvd_not_less)
next
  case (full m)
  then show ?case using dvd_length_drop [of n n m] by (simp add: transfers_full)
qed

lemma concat_all_transfers [simp]: "concat (concat (map (transfers n) ms)) = concat ms"
  by (induction ms) simp_all

text \<open>A list cut into parts of at most \<open>n\<close> elements, none of them empty (Rust's \<open>chunks\<close>).\<close>

fun parts :: "nat \<Rightarrow> 'a list \<Rightarrow> 'a list list" where
  "parts n m = (if n = 0 \<or> m = [] then [] else take n m # parts n (drop n m))"

declare parts.simps [simp del]

lemma parts_Nil [simp]: "parts n [] = []"
  by (simp add: parts.simps)

lemma concat_parts: "0 < n \<Longrightarrow> concat (parts n m) = m"
proof (induction m rule: length_induct)
  case (1 m)
  then show ?case by (cases "m = []") (simp_all add: parts.simps [of n m])
qed

section \<open>Runs of step functions\<close>

text \<open>
  A step function with an invariant that every step keeps; \<open>fold step\<close> is a run. The
  second locale adds a start state.
\<close>

locale invariant_step =
  fixes step :: "'e \<Rightarrow> 's \<Rightarrow> 's"
    and inv :: "'s \<Rightarrow> bool"
  assumes step_inv: "inv s \<Longrightarrow> inv (step e s)"
begin

lemma run_inv: "inv s \<Longrightarrow> inv (fold step es s)"
  by (induction es arbitrary: s) (auto intro: step_inv)

end

locale invariant_run = invariant_step +
  fixes init :: 's
  assumes init_inv: "inv init"
begin

lemma reachable_inv: "inv (fold step es init)"
  by (rule run_inv [OF init_inv])

end

text \<open>
  A system in which every step that changes the state decreases a measure. A schedule made of
  rounds in which every event occurs, as many as the measure says, leads to a state that no
  event changes.
\<close>

locale descending = invariant_step +
  fixes work :: "'s \<Rightarrow> nat"
  assumes descends: "inv s \<Longrightarrow> step e s \<noteq> s \<Longrightarrow> work (step e s) < work s"
begin

lemma run_descends: "inv s \<Longrightarrow> fold step es s = s \<and> (\<forall>e\<in>set es. step e s = s) \<or> work (fold step es s) < work s"
proof (induction es arbitrary: s)
  case (Cons e es)
  show ?case
  proof (cases "step e s = s")
    case True
    with Cons show ?thesis by simp
  next
    case False
    with Cons.prems have "work (step e s) < work s" by (rule descends)
    with Cons.IH [OF step_inv [OF Cons.prems], of e] show ?thesis by fastforce
  qed
qed simp

lemma rounds_settle:
  assumes "inv s" and "\<forall>es\<in>set rounds. \<forall>e. e \<in> set es" and "work s < length rounds"
  shows "step e (fold step (concat rounds) s) = fold step (concat rounds) s"
  using assms
proof (induction rounds arbitrary: s)
  case (Cons es rounds)
  from run_descends [OF Cons.prems(1), of es] show ?case
  proof
    assume "fold step es s = s \<and> (\<forall>e\<in>set es. step e s = s)"
    then have fixed: "step e s = s" for e using Cons.prems(2) by simp
    have "fold step fs s = s" for fs by (induction fs) (simp_all add: fixed)
    then show ?thesis by (simp add: fixed)
  next
    assume "work (fold step es s) < work s"
    then show ?thesis using Cons.IH [OF run_inv [OF Cons.prems(1)], of es] Cons.prems by simp
  qed
qed simp

end

section \<open>Counting in 64 bits\<close>

lemma of_nat_u64_eq_iff:
  "a < 2 ^ 64 \<Longrightarrow> b < 2 ^ 64 \<Longrightarrow> (of_nat a :: u64) = of_nat b \<longleftrightarrow> a = b"
  by (simp add: word_of_nat_eq_iff take_bit_nat_eq_self)

end
