(* ===== verification/Upc_Lib.thy ===== *)
theory Upc_Lib
  imports Upc_Prelude
begin

text \<open>
  The crate root \<open>src/lib.rs\<close> without the capability codecs: size limits, the USB
  interface class with its derived order, the codes of the vendor control requests, the
  status bytes and \<open>channel_error\<close>.
\<close>

section \<open>Limits\<close>

definition INFO_SIZE :: nat where [code_consts]: "INFO_SIZE = 4096"
definition MAX_SIZE :: nat where [code_consts]: "MAX_SIZE = 16777216"
definition TRANSFER_PACKETS :: nat where [code_consts]: "TRANSFER_PACKETS = 128"
definition QUEUE_LEN :: nat where [code_consts]: "QUEUE_LEN = 32"
definition FLUSH_TIMEOUT :: duration where [code_consts]: "FLUSH_TIMEOUT = from_millis 100"

lemma TRANSFER_PACKETS_pos [simp]: "0 < TRANSFER_PACKETS"
  by (simp add: TRANSFER_PACKETS_def)

section \<open>USB interface class\<close>

datatype usb_class = Class (class_code: u8) (sub_class: u8) (protocol: u8)

definition VENDOR_SPECIFIC :: u8 where [code_consts]: "VENDOR_SPECIFIC = 0xff"

definition class_new :: "u8 \<Rightarrow> u8 \<Rightarrow> u8 \<Rightarrow> usb_class" where
  "class_new c s p = Class c s p"

definition vendor_specific :: "u8 \<Rightarrow> u8 \<Rightarrow> usb_class" where
  "vendor_specific s p = class_new VENDOR_SPECIFIC s p"

text \<open>\<open>derive(PartialOrd, Ord)\<close>: the fields are compared in the order of declaration.\<close>

instantiation usb_class :: linorder
begin

definition less_usb_class :: "usb_class \<Rightarrow> usb_class \<Rightarrow> bool" where
  "a < b \<longleftrightarrow> class_code a < class_code b
     \<or> class_code a = class_code b \<and> (sub_class a < sub_class b
     \<or> sub_class a = sub_class b \<and> protocol a < protocol b)"

definition less_eq_usb_class :: "usb_class \<Rightarrow> usb_class \<Rightarrow> bool" where
  "(a :: usb_class) \<le> b \<longleftrightarrow> a < b \<or> a = b"

instance
  by standard
    (auto simp: less_usb_class_def less_eq_usb_class_def intro: usb_class.expand)

end

section \<open>Control requests and status bytes\<close>

definition PROBE :: u8 where [code_consts]: "PROBE = 0"
definition OPEN :: u8 where [code_consts]: "OPEN = 1"
definition CLOSE :: u8 where [code_consts]: "CLOSE = 2"
definition INFO :: u8 where [code_consts]: "INFO = 3"
definition CLOSE_SEND :: u8 where [code_consts]: "CLOSE_SEND = 4"
definition CLOSE_RECV :: u8 where [code_consts]: "CLOSE_RECV = 5"
definition STATUS :: u8 where [code_consts]: "STATUS = 6"
definition CAPABILITIES :: u8 where [code_consts]: "CAPABILITIES = 7"
definition ECHO :: u8 where [code_consts]: "ECHO = 8"

text \<open>The bytes of \<open>b"UPC"\<close>.\<close>

definition PROBE_RESPONSE :: bytes where [code_consts]: "PROBE_RESPONSE = [0x55, 0x50, 0x43]"

definition RECV_CLOSED :: u8 where [code_consts]: "RECV_CLOSED = 1"
definition STATUS_MAX_SIZE :: nat where [code_consts]: "STATUS_MAX_SIZE = 8"

section \<open>Channel errors\<close>

definition channel_error :: "error_kind \<Rightarrow> io_error" where
  "channel_error k =
     (if k = BrokenPipe then Error k (Text ''UPC channel closed'') else Error k NoText)"

lemma kind_channel_error [simp]: "kind (channel_error k) = k"
  by (simp add: channel_error_def)

end
