(* ===== verification/Upc_Tlv.thy ===== *)
theory Upc_Tlv
  imports Upc_Lib
begin

text \<open>
  The module \<open>tlv\<close> of \<open>src/lib.rs\<close>: the tag-length-value encoding of capabilities.
  The encoder appends an entry to a buffer and truncates the length of the value to 16
  bits; the decoder walks over the data with an index. The lemmas show that the decoder
  accepts exactly the concatenations of encoded entries and returns those entries, so
  that the encoding of a list of entries is unambiguous.

  The locale \<open>tlv_codec\<close> is the interface the capability codecs rely on.
\<close>

section \<open>Encoding and decoding\<close>

type_synonym tlv = "u8 \<times> bytes"

definition tlv_encode :: "bytes \<Rightarrow> u8 \<Rightarrow> bytes \<Rightarrow> bytes" where
  "tlv_encode buf tag val = ((buf @ [tag]) @ to_le 2 (of_nat (length val) :: u16)) @ val"

definition tlv_truncated :: io_error where
  "tlv_truncated = Error InvalidData (Text ''capabilities data truncated'')"

function tlv_decode_loop :: "bytes \<Rightarrow> nat \<Rightarrow> tlv list \<Rightarrow> io_error + tlv list" where
  "tlv_decode_loop data pos entries =
     (if pos < length data then
        if length data < pos + 3 then Inl tlv_truncated
        else
          let tag = data ! pos;
              len = unat (from_le [data ! (pos + 1), data ! (pos + 2)] :: u16);
              pos = pos + 3
          in if length data < pos + len then Inl tlv_truncated
             else tlv_decode_loop data (pos + len) (entries @ [(tag, take len (drop pos data))])
      else Inr entries)"
  by pat_completeness auto
termination
  by (relation "measure (\<lambda>(data, pos, entries). length data - pos)") auto

declare tlv_decode_loop.simps [simp del]

definition tlv_decode :: "bytes \<Rightarrow> io_error + tlv list" where
  "tlv_decode data = tlv_decode_loop data 0 []"

section \<open>The wire format\<close>

text \<open>Encoding a list of entries one after the other, as the capability encoders do.\<close>

definition tlv_encode_all :: "tlv list \<Rightarrow> bytes" where
  "tlv_encode_all es = fold (\<lambda>(tag, val) buf. tlv_encode buf tag val) es []"

text \<open>The length of a value fits into the 16-bit length field.\<close>

definition tlv_fits :: "tlv \<Rightarrow> bool" where
  "tlv_fits e \<longleftrightarrow> length (snd e) < 2 ^ 16"

lemma tlv_encode_append: "tlv_encode buf tag val = buf @ tlv_encode [] tag val"
  by (simp add: tlv_encode_def)

lemma length_tlv_encode [simp]: "length (tlv_encode buf tag val) = length buf + 3 + length val"
  by (simp add: tlv_encode_def)

lemma fold_tlv_encode:
  "fold (\<lambda>(tag, val) buf. tlv_encode buf tag val) es buf = buf @ tlv_encode_all es"
proof (induction es arbitrary: buf)
  case Nil
  then show ?case by (simp add: tlv_encode_all_def)
next
  case (Cons e es)
  obtain t v where e: "e = (t, v)" by (cases e)
  show ?case
    using Cons [of "tlv_encode buf t v"] Cons [of "tlv_encode [] t v"]
    by (simp add: e tlv_encode_all_def tlv_encode_append [of buf])
qed

lemma tlv_encode_all_Nil [simp, codec]: "tlv_encode_all [] = []"
  by (simp add: tlv_encode_all_def)

lemma tlv_encode_all_Cons [simp, codec]:
  "tlv_encode_all ((tag, val) # es) = tlv_encode [] tag val @ tlv_encode_all es"
  using fold_tlv_encode [of es "tlv_encode [] tag val"] by (simp add: tlv_encode_all_def)

lemma tlv_encode_all_append [simp]: "tlv_encode_all (es @ fs) = tlv_encode_all es @ tlv_encode_all fs"
  by (induction es) auto

text \<open>An encoded entry, read back at the position where it starts.\<close>

lemma unat_u16_length: "n < 2 ^ 16 \<Longrightarrow> unat (of_nat n :: u16) = n"
  by (simp add: unsigned_of_nat take_bit_nat_eq_self)

lemma tlv_entry_at:
  assumes "drop pos data = tlv_encode [] tag val @ rest" and "length val < 2 ^ 16"
  shows "pos + 3 + length val \<le> length data" and "data ! pos = tag"
    and "unat (from_le [data ! (pos + 1), data ! (pos + 2)] :: u16) = length val"
    and "take (length val) (drop (pos + 3) data) = val"
    and "drop (pos + 3 + length val) data = rest"
proof -
  obtain a b where ab: "to_le 2 (of_nat (length val) :: u16) = [a, b]"
    by (simp add: numeral_2_eq_2)
  have d: "drop pos data = tag # a # b # val @ rest"
    using assms(1) by (simp add: tlv_encode_def ab)
  have "length (drop pos data) = 3 + length val + length rest" by (simp add: d)
  then show len: "pos + 3 + length val \<le> length data" by simp
  have nth: "data ! (pos + i) = drop pos data ! i" if "i < 3" for i
    using that len by simp
  show "data ! pos = tag" using nth [of 0] d by simp
  have "[data ! (pos + 1), data ! (pos + 2)] = to_le 2 (of_nat (length val) :: u16)"
    using nth [of 1] nth [of 2] d by (simp add: ab)
  then show "unat (from_le [data ! (pos + 1), data ! (pos + 2)] :: u16) = length val"
    using assms(2) by (simp add: unat_u16_length)
  have "drop (pos + 3) data = drop 3 (drop pos data)" by (simp add: add.commute)
  then have d3: "drop (pos + 3) data = val @ rest" by (simp add: d)
  then show "take (length val) (drop (pos + 3) data) = val" by simp
  have "drop (pos + 3 + length val) data = drop (length val) (drop (pos + 3) data)"
    by (simp add: add.commute add.left_commute)
  then show "drop (pos + 3 + length val) data = rest" by (simp add: d3)
qed

section \<open>The decoder inverts the encoder\<close>

lemma tlv_decode_loop_complete:
  assumes "drop pos data = tlv_encode_all es" and "list_all tlv_fits es"
  shows "tlv_decode_loop data pos acc = Inr (acc @ es)"
  using assms
proof (induction es arbitrary: pos acc)
  case Nil
  then show ?case by (simp add: tlv_decode_loop.simps)
next
  case (Cons e es)
  obtain t v where e: "e = (t, v)" by (cases e)
  have fit: "length v < 2 ^ 16" using Cons.prems(2) by (simp add: e tlv_fits_def)
  note at = tlv_entry_at [OF Cons.prems(1) [unfolded e tlv_encode_all_Cons] fit]
  have "tlv_decode_loop data (pos + 3 + length v) (acc @ [(t, v)]) = Inr ((acc @ [(t, v)]) @ es)"
    using Cons.prems(2) at(5) by (intro Cons.IH) (simp_all add: e)
  then show ?case
    using at by (subst tlv_decode_loop.simps) (simp add: e Let_def)
qed

lemma tlv_entry_encoded:
  assumes "pos + 3 \<le> length data" and "len = unat (from_le [data ! (pos + 1), data ! (pos + 2)] :: u16)"
    and "pos + 3 + len \<le> length data"
  shows "tlv_fits (data ! pos, take len (drop (pos + 3) data))"
    and "drop pos data = tlv_encode [] (data ! pos) (take len (drop (pos + 3) data))
           @ drop (pos + 3 + len) data"
proof -
  define a b where "a = data ! (pos + 1)" and "b = data ! (pos + 2)"
  define w :: u16 where "w = from_le [a, b]"
  have len: "len = unat w" using assms(2) by (simp only: w_def a_def b_def)
  then have lenlt: "len < 2 ^ 16" using unsigned_less [of w] by simp
  have lv: "length (take len (drop (pos + 3) data)) = len" using assms(3) by simp
  show "tlv_fits (data ! pos, take len (drop (pos + 3) data))"
    using lenlt lv by (simp add: tlv_fits_def)
  have "to_le (length [a, b]) w = [a, b]"
    unfolding w_def by (rule to_le_from_le) simp
  then have ab: "to_le 2 (of_nat len :: u16) = [a, b]"
    by (simp add: len numeral_2_eq_2 del: to_le.simps)
  have "drop pos data = data ! pos # a # b # drop (pos + 3) data"
    using assms(1) by (simp add: a_def b_def Cons_nth_drop_Suc numeral_3_eq_3)
  also have "drop (pos + 3) data = take len (drop (pos + 3) data) @ drop (pos + 3 + len) data"
    by (simp add: add.commute add.left_commute flip: drop_drop)
  finally show "drop pos data = tlv_encode [] (data ! pos) (take len (drop (pos + 3) data))
           @ drop (pos + 3 + len) data"
    by (simp only: tlv_encode_def lv ab append.simps append_assoc)
qed

text \<open>One turn of the decoder's loop: it stops, fails, or moves past an entry.\<close>

lemma tlv_decode_loop_next:
  fixes data pos
  defines "len \<equiv> unat (from_le [data ! (pos + 1), data ! (pos + 2)] :: u16)"
  shows "tlv_decode_loop data pos acc =
    (if length data \<le> pos then Inr acc
     else if pos + 3 \<le> length data \<and> pos + 3 + len \<le> length data then
       tlv_decode_loop data (pos + 3 + len) (acc @ [(data ! pos, take len (drop (pos + 3) data))])
     else Inl tlv_truncated)"
  unfolding len_def by (subst tlv_decode_loop.simps) (simp add: Let_def)

lemma tlv_decode_loop_sound:
  "tlv_decode_loop data pos acc = Inr es \<Longrightarrow>
     \<exists>fs. es = acc @ fs \<and> list_all tlv_fits fs \<and> drop pos data = tlv_encode_all fs"
proof (induction "length data - pos" arbitrary: pos acc rule: less_induct)
  case less
  define len where "len = unat (from_le [data ! (pos + 1), data ! (pos + 2)] :: u16)"
  define v where "v = take len (drop (pos + 3) data)"
  note step = tlv_decode_loop_next [of data pos acc, folded len_def, folded v_def]
  show ?case
  proof (cases "length data \<le> pos")
    case True
    with less.prems show ?thesis by (simp add: step)
  next
    case False
    with less.prems have ok: "pos + 3 \<le> length data" "pos + 3 + len \<le> length data"
      and rec: "tlv_decode_loop data (pos + 3 + len) (acc @ [(data ! pos, v)]) = Inr es"
      by (simp_all add: step split: if_splits)
    obtain fs where "es = (acc @ [(data ! pos, v)]) @ fs" "list_all tlv_fits fs"
      "drop (pos + 3 + len) data = tlv_encode_all fs"
      using less.hyps [OF _ rec] False by (auto simp: diff_less_mono2)
    then show ?thesis
      using tlv_entry_encoded [OF ok(1) len_def ok(2), folded v_def]
      by (intro exI [of _ "(data ! pos, v) # fs"]) simp
  qed
qed

lemma tlv_decode_loop_error: "tlv_decode_loop data pos acc = Inl e \<Longrightarrow> e = tlv_truncated"
proof (induction "length data - pos" arbitrary: pos acc rule: less_induct)
  case less
  define len where "len = unat (from_le [data ! (pos + 1), data ! (pos + 2)] :: u16)"
  note step = tlv_decode_loop_next [of data pos acc, folded len_def]
  show ?case
  proof (cases "pos + 3 + len \<le> length data")
    case False
    with less.prems show ?thesis by (simp add: step split: if_splits)
  next
    case True
    define v where "v = take len (drop (pos + 3) data)"
    have rec: "tlv_decode_loop data (pos + 3 + len) (acc @ [(data ! pos, v)]) = Inl e"
      using less.prems True by (simp add: step v_def split: if_splits)
    show ?thesis
      by (rule less.hyps [OF _ rec]) (use True in linarith)
  qed
qed

section \<open>The interface of the codec\<close>

locale tlv_codec =
  fixes encode_all :: "tlv list \<Rightarrow> bytes"
    and decode :: "bytes \<Rightarrow> io_error + tlv list"
  assumes decode_encode: "list_all tlv_fits es \<Longrightarrow> decode (encode_all es) = Inr es"
    and decode_sound: "decode data = Inr es \<Longrightarrow> list_all tlv_fits es \<and> encode_all es = data"
    and decode_error: "decode data = Inl e \<Longrightarrow> e = tlv_truncated"
begin

lemma decode_iff: "decode data = Inr es \<longleftrightarrow> list_all tlv_fits es \<and> data = encode_all es"
  using decode_encode decode_sound by blast

lemma decode_error_iff:
  "decode data = Inl tlv_truncated \<longleftrightarrow> (\<nexists>es. list_all tlv_fits es \<and> data = encode_all es)"
proof (cases "decode data")
  case (Inl e)
  then have "decode data = Inl tlv_truncated" using decode_error by blast
  moreover from this have "\<nexists>es. list_all tlv_fits es \<and> data = encode_all es"
    using decode_iff [of data] by simp
  ultimately show ?thesis by simp
next
  case (Inr es)
  then show ?thesis using decode_iff [of data es] by auto
qed

lemma encode_all_inj:
  "list_all tlv_fits es \<Longrightarrow> list_all tlv_fits fs \<Longrightarrow> encode_all es = encode_all fs \<Longrightarrow> es = fs"
  by (metis decode_encode sum.inject(2))

text \<open>
  The clients fold a function over the decoded entries. An entry that the function ignores
  may be added anywhere without changing the outcome.
\<close>

lemma fold_decode:
  "list_all tlv_fits es \<Longrightarrow>
     (case decode (encode_all es) of Inl e \<Rightarrow> Inl e | Inr fs \<Rightarrow> Inr (fold f fs c)) = Inr (fold f es c)"
  by (simp add: decode_encode)

lemma fold_decode_skip:
  assumes "list_all tlv_fits (es @ x # fs)" and "\<And>c. f x c = c"
  shows "(case decode (encode_all (es @ x # fs)) of Inl e \<Rightarrow> Inl e | Inr gs \<Rightarrow> Inr (fold f gs c))
       = (case decode (encode_all (es @ fs)) of Inl e \<Rightarrow> Inl e | Inr gs \<Rightarrow> Inr (fold f gs c))"
  using assms fold_decode [of "es @ x # fs" f c] fold_decode [of "es @ fs" f c] by simp

end

interpretation tlv: tlv_codec tlv_encode_all tlv_decode
proof unfold_locales
  fix es data e
  show "list_all tlv_fits es \<Longrightarrow> tlv_decode (tlv_encode_all es) = Inr es"
    using tlv_decode_loop_complete [of 0 "tlv_encode_all es" es "[]"] by (simp add: tlv_decode_def)
  show "tlv_decode data = Inr es \<Longrightarrow> list_all tlv_fits es \<and> tlv_encode_all es = data"
    using tlv_decode_loop_sound [of data 0 "[]" es] by (auto simp: tlv_decode_def)
  show "tlv_decode data = Inl e \<Longrightarrow> e = tlv_truncated"
    by (auto simp: tlv_decode_def dest: tlv_decode_loop_error)
qed

text \<open>
  C30. The decoder accepts exactly the byte strings that are concatenations of encoded
  entries with values shorter than \<open>2 ^ 16\<close>, and returns those entries in order; every
  other input is refused with the error "capabilities data truncated".
\<close>

theorem tlv_decode_exact:
  "(tlv_decode data = Inr es) = (list_all tlv_fits es \<and> data = tlv_encode_all es)
   \<and> (tlv_decode data = Inl tlv_truncated) = (\<nexists>fs. list_all tlv_fits fs \<and> data = tlv_encode_all fs)"
  by (rule conjI [OF tlv.decode_iff tlv.decode_error_iff])

end
