(* ===== verification/Upc_Capabilities.thy ===== *)
theory Upc_Capabilities
  imports Upc_Tlv
begin

text \<open>
  \<open>DeviceCapabilities\<close> and \<open>HostCapabilities\<close> of \<open>src/lib.rs\<close>: the two capability
  records, their defaults, and their TLV encoders and decoders. The lemmas give the exact
  outcome of a transfer of capabilities (which information survives it), forward
  compatibility (unknown entries change nothing) and the size of the encodings.
\<close>

section \<open>Device capabilities\<close>

record device_caps =
  dc_ping_timeout :: "duration option"
  dc_status_supported :: bool
  dc_echo_supported :: bool
  dc_max_size :: u64

definition device_caps_default :: device_caps where
  "device_caps_default =
     \<lparr>dc_ping_timeout = None, dc_status_supported = False, dc_echo_supported = False,
      dc_max_size = of_nat MAX_SIZE\<rparr>"

definition CAPS_SIZE :: nat where [code_consts]: "CAPS_SIZE = 256"
definition TAG_PING_TIMEOUT :: u8 where [code_consts]: "TAG_PING_TIMEOUT = 0x01"
definition TAG_STATUS_SUPPORTED :: u8 where [code_consts]: "TAG_STATUS_SUPPORTED = 0x02"
definition TAG_MAX_PACKET_SIZE :: u8 where [code_consts]: "TAG_MAX_PACKET_SIZE = 0x03"
definition TAG_ECHO_SUPPORTED :: u8 where [code_consts]: "TAG_ECHO_SUPPORTED = 0x04"

lemmas tag_defs =
  TAG_PING_TIMEOUT_def TAG_STATUS_SUPPORTED_def TAG_MAX_PACKET_SIZE_def TAG_ECHO_SUPPORTED_def

text \<open>\<open>d.as_millis().try_into().unwrap_or(u32::MAX)\<close>, and 0 for no timeout.\<close>

definition ping_millis :: "duration option \<Rightarrow> u32" where
  "ping_millis t =
     (case t of None \<Rightarrow> 0
      | Some d \<Rightarrow> if as_millis d \<le> 2 ^ 32 - 1 then of_nat (as_millis d) else of_nat (2 ^ 32 - 1))"

definition device_caps_encode :: "device_caps \<Rightarrow> bytes" where
  "device_caps_encode c =
     (let buf = [];
          millis = ping_millis (dc_ping_timeout c);
          buf = tlv_encode buf TAG_PING_TIMEOUT (to_le 4 millis);
          buf = tlv_encode buf TAG_STATUS_SUPPORTED [of_bool (dc_status_supported c)];
          buf = tlv_encode buf TAG_MAX_PACKET_SIZE (to_le 8 (dc_max_size c));
          buf = tlv_encode buf TAG_ECHO_SUPPORTED [of_bool (dc_echo_supported c)]
      in buf)"

text \<open>The body of the decoder's loop over the entries.\<close>

fun device_caps_entry :: "tlv \<Rightarrow> device_caps \<Rightarrow> device_caps" where
  "device_caps_entry (tag, val) caps =
     (if tag = TAG_PING_TIMEOUT \<and> 4 \<le> length val then
        let millis = from_le [val ! 0, val ! 1, val ! 2, val ! 3] :: u32
        in caps\<lparr>dc_ping_timeout := (if millis = 0 then None else Some (from_millis (unat millis)))\<rparr>
      else if tag = TAG_STATUS_SUPPORTED \<and> val \<noteq> [] then
        caps\<lparr>dc_status_supported := val ! 0 \<noteq> 0\<rparr>
      else if tag = TAG_MAX_PACKET_SIZE \<and> 8 \<le> length val then
        caps\<lparr>dc_max_size := from_le [val ! 0, val ! 1, val ! 2, val ! 3, val ! 4, val ! 5, val ! 6, val ! 7]\<rparr>
      else if tag = TAG_ECHO_SUPPORTED \<and> val \<noteq> [] then
        caps\<lparr>dc_echo_supported := val ! 0 \<noteq> 0\<rparr>
      else caps)"

declare device_caps_entry.simps [simp del]

definition device_caps_decode :: "bytes \<Rightarrow> io_error + device_caps" where
  "device_caps_decode data =
     (case tlv_decode data of Inl e \<Rightarrow> Inl e
      | Inr es \<Rightarrow> Inr (fold device_caps_entry es device_caps_default))"

section \<open>Host capabilities\<close>

record host_caps =
  hc_max_size :: u64

definition host_caps_default :: host_caps where
  "host_caps_default = \<lparr>hc_max_size = of_nat MAX_SIZE\<rparr>"

definition host_caps_encode :: "host_caps \<Rightarrow> bytes" where
  "host_caps_encode c =
     (let buf = [];
          buf = tlv_encode buf TAG_MAX_PACKET_SIZE (to_le 8 (hc_max_size c))
      in buf)"

fun host_caps_entry :: "tlv \<Rightarrow> host_caps \<Rightarrow> host_caps" where
  "host_caps_entry (tag, val) caps =
     (if tag = TAG_MAX_PACKET_SIZE \<and> 8 \<le> length val then
        caps\<lparr>hc_max_size := from_le [val ! 0, val ! 1, val ! 2, val ! 3, val ! 4, val ! 5, val ! 6, val ! 7]\<rparr>
      else caps)"

declare host_caps_entry.simps [simp del]

definition host_caps_decode :: "bytes \<Rightarrow> io_error + host_caps" where
  "host_caps_decode data =
     (case tlv_decode data of Inl e \<Rightarrow> Inl e
      | Inr es \<Rightarrow> Inr (fold host_caps_entry es host_caps_default))"

section \<open>The encodings as lists of entries\<close>

definition device_caps_entries :: "device_caps \<Rightarrow> tlv list" where
  "device_caps_entries c =
     [(TAG_PING_TIMEOUT, to_le 4 (ping_millis (dc_ping_timeout c))),
      (TAG_STATUS_SUPPORTED, [of_bool (dc_status_supported c)]),
      (TAG_MAX_PACKET_SIZE, to_le 8 (dc_max_size c)),
      (TAG_ECHO_SUPPORTED, [of_bool (dc_echo_supported c)])]"

definition host_caps_entries :: "host_caps \<Rightarrow> tlv list" where
  "host_caps_entries c = [(TAG_MAX_PACKET_SIZE, to_le 8 (hc_max_size c))]"

lemma device_caps_encode_entries: "device_caps_encode c = tlv_encode_all (device_caps_entries c)"
  by (simp add: device_caps_encode_def device_caps_entries_def Let_def tlv_encode_all_def)

lemma host_caps_encode_entries: "host_caps_encode c = tlv_encode_all (host_caps_entries c)"
  by (simp add: host_caps_encode_def host_caps_entries_def Let_def tlv_encode_all_def)

lemma device_caps_entries_fit: "list_all tlv_fits (device_caps_entries c)"
  by (simp add: device_caps_entries_def tlv_fits_def)

lemma host_caps_entries_fit: "list_all tlv_fits (host_caps_entries c)"
  by (simp add: host_caps_entries_def tlv_fits_def)

lemma to_le_4_nth:
  "[to_le 4 w ! 0, to_le 4 w ! Suc 0, to_le 4 w ! 2, to_le 4 w ! 3] = to_le 4 w"
  by (simp add: eval_nat_numeral)

lemma to_le_8_nth:
  "[to_le 8 w ! 0, to_le 8 w ! Suc 0, to_le 8 w ! 2, to_le 8 w ! 3,
    to_le 8 w ! 4, to_le 8 w ! 5, to_le 8 w ! 6, to_le 8 w ! 7] = to_le 8 w"
  by (simp add: eval_nat_numeral)

lemmas entry_simps =
  device_caps_entry.simps host_caps_entry.simps tag_defs to_le_4_nth to_le_8_nth

lemma unat_ping_millis:
  "unat (ping_millis t) = (case t of None \<Rightarrow> 0 | Some d \<Rightarrow> min (as_millis d) (2 ^ 32 - 1))"
  by (cases t) (auto simp: ping_millis_def unsigned_of_nat take_bit_nat_eq_self min_def)

section \<open>What survives a transfer\<close>

text \<open>The ping timeout the host reads: whole milliseconds, at most \<open>u32::MAX\<close>, 0 is none.\<close>

definition advertised_ping :: "duration option \<Rightarrow> duration option" where
  "advertised_ping t =
     (case t of None \<Rightarrow> None
      | Some d \<Rightarrow> if as_millis d = 0 then None else Some (from_millis (min (as_millis d) (2 ^ 32 - 1))))"

lemma advertised_ping_decoded:
  "(if ping_millis t = 0 then None else Some (from_millis (unat (ping_millis t)))) = advertised_ping t"
  by (auto simp: advertised_ping_def unat_ping_millis min_def
      simp flip: unat_eq_0 split: option.splits)

lemma fold_device_caps_entries:
  "fold device_caps_entry (device_caps_entries c) device_caps_default
     = c\<lparr>dc_ping_timeout := advertised_ping (dc_ping_timeout c)\<rparr>"
  by (cases c)
    (simp add: device_caps_entries_def entry_simps Let_def device_caps_default_def
      flip: advertised_ping_decoded)

lemma fold_host_caps_entries:
  "fold host_caps_entry (host_caps_entries c) host_caps_default = c"
  by (cases c) (simp add: host_caps_entries_def entry_simps host_caps_default_def)

lemmas device_caps_transfer =
  tlv.fold_decode [OF device_caps_entries_fit, of device_caps_entry device_caps_default,
    folded device_caps_decode_def device_caps_encode_entries]

lemmas host_caps_transfer =
  tlv.fold_decode [OF host_caps_entries_fit, of host_caps_entry host_caps_default,
    folded host_caps_decode_def host_caps_encode_entries]

text \<open>The two facts the handshakes rest on.\<close>

lemma caps_received:
  "device_caps_decode (device_caps_encode c)
     = Inr (c\<lparr>dc_ping_timeout := advertised_ping (dc_ping_timeout c)\<rparr>)"
  "host_caps_decode (host_caps_encode h) = Inr h"
  by (simp_all add: device_caps_transfer fold_device_caps_entries host_caps_transfer fold_host_caps_entries)

text \<open>
  C33. The host decodes from the device's encoding the capabilities the device encoded,
  except that the ping timeout is cut down to whole milliseconds, saturates at
  \<open>u32::MAX\<close> milliseconds, and is read as "no timeout" when it is below one millisecond.
\<close>

theorem device_caps_roundtrip:
  "device_caps_decode (device_caps_encode c)
     = Inr (c\<lparr>dc_ping_timeout := advertised_ping (dc_ping_timeout c)\<rparr>)"
  by (rule caps_received)

text \<open>
  A ping timeout of whole milliseconds that fits into the 32-bit field is transferred
  exactly, so the capabilities come back unchanged.
\<close>

theorem device_caps_roundtrip_exact:
  assumes "dc_ping_timeout c = Some (from_millis ms)" and "0 < ms" and "ms < 2 ^ 32"
  shows "device_caps_decode (device_caps_encode c) = Inr c"
  using assms by (simp add: device_caps_transfer fold_device_caps_entries advertised_ping_def)

theorem device_caps_roundtrip_exact_witness:
  "device_caps_decode (device_caps_encode
     (device_caps_default\<lparr>dc_ping_timeout := Some (from_millis 10000)\<rparr>))
   = Inr (device_caps_default\<lparr>dc_ping_timeout := Some (from_millis 10000)\<rparr>)"
  by (rule device_caps_roundtrip_exact [where ms = 10000]) simp_all

text \<open>
  A ping timeout below one millisecond is advertised as 0, which the host reads as "no
  timeout": the device enforces a timeout of which the host does not learn.
\<close>

theorem short_ping_timeout_lost:
  assumes "dc_ping_timeout c = Some d" and "d < from_millis 1"
  shows "device_caps_decode (device_caps_encode c) = Inr (c\<lparr>dc_ping_timeout := None\<rparr>)"
  using assms
  by (simp add: device_caps_transfer fold_device_caps_entries advertised_ping_def
      as_millis_def from_millis_def)

theorem short_ping_timeout_lost_witness:
  "device_caps_decode (device_caps_encode (device_caps_default\<lparr>dc_ping_timeout := Some 500000\<rparr>))
     = Inr (device_caps_default\<lparr>dc_ping_timeout := None\<rparr>)"
  using short_ping_timeout_lost [of "device_caps_default\<lparr>dc_ping_timeout := Some 500000\<rparr>" 500000]
  by (simp add: from_millis_def)

text \<open>
  The capabilities of the host, a maximum packet size, are transferred exactly.
\<close>

theorem host_caps_roundtrip: "host_caps_decode (host_caps_encode c) = Inr c"
  by (rule caps_received)

section \<open>Forward compatibility\<close>

definition known_tag :: "u8 \<Rightarrow> bool" where
  "known_tag t \<longleftrightarrow> t \<in> {TAG_PING_TIMEOUT, TAG_STATUS_SUPPORTED, TAG_MAX_PACKET_SIZE, TAG_ECHO_SUPPORTED}"

lemma device_caps_entry_unknown: "\<not> known_tag t \<Longrightarrow> device_caps_entry (t, v) c = c"
  by (auto simp: known_tag_def device_caps_entry.simps)

lemma host_caps_entry_unknown: "\<not> known_tag t \<Longrightarrow> host_caps_entry (t, v) c = c"
  by (auto simp: known_tag_def host_caps_entry.simps)

text \<open>
  An entry with an unknown tag, inserted anywhere between the entries of an encoding,
  changes nothing of what either side decodes.
\<close>

theorem unknown_tag_skipped:
  assumes "\<not> known_tag t" and "list_all tlv_fits (es @ (t, v) # fs)"
  shows "device_caps_decode (tlv_encode_all (es @ (t, v) # fs)) = device_caps_decode (tlv_encode_all (es @ fs))
     \<and> host_caps_decode (tlv_encode_all (es @ (t, v) # fs)) = host_caps_decode (tlv_encode_all (es @ fs))"
  unfolding device_caps_decode_def host_caps_decode_def
  by (intro conjI tlv.fold_decode_skip assms(2) device_caps_entry_unknown host_caps_entry_unknown assms(1))

theorem unknown_tag_skipped_witness:
  "device_caps_decode (tlv_encode_all ([(TAG_STATUS_SUPPORTED, [1])] @ (0x7f, [1, 2]) # [(TAG_ECHO_SUPPORTED, [1])]))
     = device_caps_decode (tlv_encode_all ([(TAG_STATUS_SUPPORTED, [1])] @ [(TAG_ECHO_SUPPORTED, [1])]))"
  by (rule unknown_tag_skipped [THEN conjunct1]) (simp_all add: known_tag_def tag_defs tlv_fits_def)

text \<open>Missing entries keep their defaults: the empty encoding decodes to the defaults.\<close>

lemma caps_decode_Nil:
  "device_caps_decode [] = Inr device_caps_default" "host_caps_decode [] = Inr host_caps_default"
  using tlv.fold_decode [of "[]" device_caps_entry device_caps_default]
    tlv.fold_decode [of "[]" host_caps_entry host_caps_default]
  by (simp_all add: device_caps_decode_def host_caps_decode_def)

text \<open>A capability message is refused only when its TLV structure is cut off.\<close>

lemma caps_decode_error:
  "device_caps_decode data = Inl e \<Longrightarrow> e = tlv_truncated"
  "host_caps_decode data = Inl e \<Longrightarrow> e = tlv_truncated"
  by (auto simp: device_caps_decode_def host_caps_decode_def dest: tlv.decode_error split: sum.splits)

section \<open>Sizes\<close>

text \<open>
  The encodings have 26 and 11 bytes, so they fit into the 256 bytes that the control
  transfers reserve for them.
\<close>

theorem caps_encoded_size:
  "length (device_caps_encode c) = 26 \<and> length (host_caps_encode h) = 11
   \<and> length (device_caps_encode c) \<le> CAPS_SIZE \<and> length (host_caps_encode h) \<le> CAPS_SIZE"
  by (simp add: device_caps_encode_def host_caps_encode_def Let_def CAPS_SIZE_def)

end
