(* ===== verification/Packet_Interfaces.thy ===== *)
theory Packet_Interfaces
  imports Upc_Lib
begin

text \<open>
  The contracts by which the parts of a connection rely on each other, each a locale:

  \<^item> \<open>packet_receiver\<close>: a \<open>recv\<close> operation that turns the transfers of a queue back into
    application packets (\<open>UpcReceiver::recv\<close> of the device and of the host);
  \<^item> \<open>packet_sender\<close>: a function that cuts an application packet into OUT transfers
    (\<open>out_task\<close> of the device and of both host backends);
  \<^item> \<open>packet_link\<close>: a sender and a receiver joined by the wire.\<close>

section \<open>Receiving packets\<close>

text \<open>Repeated calls of a receive operation.\<close>

primrec recv_many :: "('r \<Rightarrow> 'q \<Rightarrow> 'a \<times> 'r \<times> 'q) \<Rightarrow> nat \<Rightarrow> 'r \<Rightarrow> 'q \<Rightarrow> 'a list \<times> 'r \<times> 'q" where
  "recv_many recv 0 r q = ([], r, q)"
| "recv_many recv (Suc n) r q =
     (case recv r q of (x, r', q') \<Rightarrow>
        (case recv_many recv n r' q' of (xs, r'', q'') \<Rightarrow> (x # xs, r'', q'')))"

text \<open>
  \<open>yields q\<close> is the list of transfers that the queue hands out from now on; \<open>ready r\<close> says
  that the receiver is between two packets.
\<close>

locale packet_receiver =
  fixes recv :: "'r \<Rightarrow> 'q \<Rightarrow> (io_error + bytes option) poll \<times> 'r \<times> 'q"
    and yields :: "'q \<Rightarrow> bytes list"
    and ready :: "'r \<Rightarrow> bool"
    and max_transfer :: nat
    and max_packet :: nat
  assumes recv_packet:
    "ready r \<Longrightarrow> length m \<le> max_packet \<Longrightarrow> yields q = transfers max_transfer m @ ts \<Longrightarrow>
       \<exists>r' q'. recv r q = (Ready (Inr (Some m)), r', q') \<and> ready r' \<and> yields q' = ts"
begin

lemma recv_many_packets:
  assumes "ready r" and "\<forall>m\<in>set ms. length m \<le> max_packet"
    and "yields q = concat (map (transfers max_transfer) ms) @ ts"
  shows "\<exists>r' q'. recv_many recv (length ms) r q = (map (\<lambda>m. Ready (Inr (Some m))) ms, r', q')
           \<and> ready r' \<and> yields q' = ts"
  using assms
proof (induction ms arbitrary: r q)
  case Nil
  then show ?case by simp
next
  case (Cons m ms)
  obtain r1 q1 where 1: "recv r q = (Ready (Inr (Some m)), r1, q1)" "ready r1"
    "yields q1 = concat (map (transfers max_transfer) ms) @ ts"
    using recv_packet [of r m q] Cons.prems by auto
  with Cons.IH [of r1 q1] Cons.prems show ?case by fastforce
qed

end

section \<open>Sending packets\<close>

text \<open>
  The USB packets into which a transfer is cut on the wire, as PROTOCOL.md, section 3,
  describes the controller: full packets of the maximum packet size and one rest, and a
  single empty packet for an empty transfer.
\<close>

definition out_split_law :: "nat \<Rightarrow> (bytes \<Rightarrow> bytes list) \<Rightarrow> bool" where
  "out_split_law mps split \<longleftrightarrow>
     split [] = [[]]
     \<and> (\<forall>d. 0 < length d \<and> length d \<le> mps \<longrightarrow> split d = [d])
     \<and> (\<forall>d. mps < length d \<longrightarrow> split d = take mps d # split (drop mps d))"

text \<open>
  The IN transfers as which packets arrive when every buffer has room for \<open>cap\<close> bytes: a
  transfer completes when a short packet arrives or the buffer is full.
\<close>

definition in_fill_law :: "nat \<Rightarrow> nat \<Rightarrow> (bytes list \<Rightarrow> bytes list) \<Rightarrow> bool" where
  "in_fill_law mps cap fill \<longleftrightarrow>
     fill [] = []
     \<and> (\<forall>ps p rest.
          list_all (\<lambda>q. length q = mps) ps \<and> length (concat ps) < cap
          \<and> (length p < mps \<or> length p = mps \<and> length (concat (ps @ [p])) = cap)
          \<longrightarrow> fill (ps @ p # rest) = concat (ps @ [p]) # fill rest)"

lemma out_split_aligned:
  assumes "out_split_law mps split" and "0 < mps" and "mps dvd length d" and "d \<noteq> []"
  shows "split d @ transfers mps m = transfers mps (d @ m)"
  using assms(2,3,4)
proof (induction d rule: transfers_induct)
  case (short d)
  then show ?case by (auto dest: dvd_imp_le)
next
  case (full d)
  show ?case
  proof (cases "length d = mps")
    case True
    with full assms(1) have "split d = [d]" by (simp add: out_split_law_def)
    with True full.hyps show ?thesis by (simp add: transfers_full)
  next
    case False
    with full.hyps have "mps < length d" by simp
    moreover from this assms(1) have "split d = take mps d # split (drop mps d)"
      by (simp add: out_split_law_def)
    ultimately show ?thesis
      using full by (simp add: transfers_full)
  qed
qed

lemma out_split_rest:
  assumes "out_split_law mps split" and "0 < mps" and "d = [] \<or> \<not> mps dvd length d"
  shows "split d = transfers mps d"
  using assms(2,3)
proof (induction d rule: transfers_induct)
  case (short d)
  with assms(1) show ?case by (cases d) (auto simp: out_split_law_def)
next
  case (full d)
  then have "mps < length d" "\<not> mps dvd length (drop mps d)"
    by (auto simp: le_less dvd_minus_self)
  with assms(1) full show ?case by (simp add: out_split_law_def transfers_full)
qed

lemma in_fill_short:
  assumes "in_fill_law mps cap fill" and "0 < mps" and "length (concat ps @ m) < cap"
    and "list_all (\<lambda>q. length q = mps) ps"
  shows "fill (ps @ transfers mps m @ rest) = (concat ps @ m) # fill rest"
  using assms(2,3,4)
proof (induction m arbitrary: ps rule: transfers_induct)
  case (short m)
  with assms(1) show ?case by (simp add: in_fill_law_def)
next
  case (full m)
  then have "fill ((ps @ [take mps m]) @ transfers mps (drop mps m) @ rest)
      = (concat (ps @ [take mps m]) @ drop mps m) # fill rest"
    by (intro full.IH) simp_all
  with full.hyps show ?case by (simp add: transfers_full)
qed

text \<open>A buffer of \<open>Suc k\<close> packets is filled by the first \<open>Suc k\<close> packets of a longer packet.\<close>

lemma in_fill_full:
  assumes "in_fill_law mps cap fill" and "0 < mps"
    and "cap = length (concat ps) + Suc k * mps" and "Suc k * mps \<le> length m"
    and "list_all (\<lambda>q. length q = mps) ps"
  shows "fill (ps @ transfers mps m @ rest)
       = (concat ps @ take (Suc k * mps) m) # fill (transfers mps (drop (Suc k * mps) m) @ rest)"
  using assms(3-5)
proof (induction k arbitrary: ps m)
  case 0
  then show ?case
    using assms(1,2) by (simp add: transfers_full in_fill_law_def)
next
  case (Suc k)
  have m: "mps \<le> length m" using Suc.prems(2) by simp
  have "fill ((ps @ [take mps m]) @ transfers mps (drop mps m) @ rest)
      = (concat (ps @ [take mps m]) @ take (Suc k * mps) (drop mps m))
        # fill (transfers mps (drop (Suc k * mps) (drop mps m)) @ rest)"
    using Suc.prems m by (intro Suc.IH) auto
  moreover have "take (Suc (Suc k) * mps) m = take mps m @ take (Suc k * mps) (drop mps m)"
    unfolding mult_Suc [of "Suc k"] by (rule take_add)
  moreover have "drop (Suc (Suc k) * mps) m = drop (Suc k * mps) (drop mps m)"
    unfolding mult_Suc [of "Suc k"] by (simp add: add.commute)
  ultimately show ?case
    using assms(2) m by (simp only: transfers_full) simp
qed

lemma in_fill_transfers:
  assumes "in_fill_law mps cap fill" and "0 < mps" and "cap = k * mps" and "0 < k"
  shows "fill (transfers mps m @ rest) = transfers cap m @ fill rest"
proof -
  from assms(2-4) have cap: "0 < cap" by simp
  then show ?thesis
  proof (induction m rule: transfers_induct)
    case (short m)
    with in_fill_short [OF assms(1,2), of "[]" m rest] show ?case by simp
  next
    case (full m)
    obtain k' where k: "k = Suc k'" using assms(4) gr0_implies_Suc by blast
    then show ?case
      using in_fill_full [OF assms(1,2), of "[]" k' m rest] full assms(3)
      by (simp add: transfers_full)
  qed
qed

text \<open>
  The packets of an application packet on the wire are the same for every sender: full
  ones and a short one at the end, which is the function \<open>transfers\<close> at the packet size.
\<close>

locale packet_sender =
  fixes out_transfers :: "bytes \<Rightarrow> bytes list"
    and mps :: nat
  assumes on_wire:
    "0 < mps \<Longrightarrow> out_split_law mps split \<Longrightarrow> concat (map split (out_transfers m)) = transfers mps m"
begin

lemma on_wire_many:
  "0 < mps \<Longrightarrow> out_split_law mps split \<Longrightarrow>
     concat (map split (concat (map out_transfers ms))) = concat (map (transfers mps) ms)"
  by (induction ms) (auto simp: on_wire)

end

section \<open>A link\<close>

text \<open>
  A sender and a receiver joined by the wire: what the application of one side sends is
  what the application of the other side receives.
\<close>

locale packet_link =
  sender: packet_sender out_transfers mps + receiver: packet_receiver recv yields ready max_transfer max_packet
  for out_transfers :: "bytes \<Rightarrow> bytes list" and mps :: nat
    and recv :: "'r \<Rightarrow> 'q \<Rightarrow> (io_error + bytes option) poll \<times> 'r \<times> 'q"
    and yields :: "'q \<Rightarrow> bytes list" and ready :: "'r \<Rightarrow> bool"
    and max_transfer :: nat and max_packet :: nat +
  assumes transfer_packets: "max_transfer = mps * TRANSFER_PACKETS"
begin

lemma wire_transfers:
  assumes "0 < mps" and "out_split_law mps split" and "in_fill_law mps max_transfer fill"
  shows "fill (concat (map split (concat (map out_transfers ms)))) = concat (map (transfers max_transfer) ms)"
proof -
  have "fill (concat (map (transfers mps) ms)) = concat (map (transfers max_transfer) ms)"
  proof (induction ms)
    case Nil
    with assms(3) show ?case by (simp add: in_fill_law_def)
  next
    case (Cons m ms)
    then show ?case
      using in_fill_transfers [OF assms(3,1) transfer_packets [unfolded mult.commute [of mps]]] by simp
  qed
  then show ?thesis by (simp add: sender.on_wire_many assms(1,2))
qed

lemma delivered:
  assumes "0 < mps" and "out_split_law mps split" and "in_fill_law mps max_transfer fill"
    and "ready r" and "\<forall>m\<in>set ms. length m \<le> max_packet"
    and "yields q = fill (concat (map split (concat (map out_transfers ms))))"
  shows "\<exists>r' q'. recv_many recv (length ms) r q = (map (\<lambda>m. Ready (Inr (Some m))) ms, r', q')
           \<and> ready r' \<and> yields q' = []"
  using receiver.recv_many_packets [OF assms(4,5), of q "[]"] wire_transfers [OF assms(1-3)] assms(6)
  by simp

end

section \<open>A controller that obeys both laws\<close>

text \<open>A concrete instance of the two laws, for evaluation on examples.\<close>

function usb_split :: "nat \<Rightarrow> bytes \<Rightarrow> bytes list" where
  "usb_split mps d = (if 0 < mps \<and> mps < length d then take mps d # usb_split mps (drop mps d) else [d])"
  by pat_completeness auto
termination
  by (relation "measure (\<lambda>(mps, d). length d)") auto

declare usb_split.simps [simp del]

lemma usb_split_law: "0 < mps \<Longrightarrow> out_split_law mps (usb_split mps)"
  by (auto simp: out_split_law_def usb_split.simps [of mps])

fun usb_fill :: "nat \<Rightarrow> nat \<Rightarrow> bytes \<Rightarrow> bytes list \<Rightarrow> bytes list" where
  "usb_fill mps cap acc [] = []"
| "usb_fill mps cap acc (p # ps) =
     (if length p < mps \<or> cap \<le> length (acc @ p) then (acc @ p) # usb_fill mps cap [] ps
      else usb_fill mps cap (acc @ p) ps)"

lemma usb_fill_full:
  assumes "list_all (\<lambda>q. length q = mps) ps" and "length (acc @ concat ps) < cap"
    and "length p < mps \<or> length p = mps \<and> length (acc @ concat (ps @ [p])) = cap"
  shows "usb_fill mps cap acc (ps @ p # rest) = (acc @ concat (ps @ [p])) # usb_fill mps cap [] rest"
  using assms by (induction ps arbitrary: acc) auto

lemma usb_fill_law: "in_fill_law mps cap (usb_fill mps cap [])"
  using usb_fill_full [of mps _ "[]" cap] by (simp add: in_fill_law_def)

end
