(* ===== verification/Device_Channel.thy ===== *)
theory Device_Channel
  imports Upc_Capabilities Packet_Interfaces
begin

text \<open>
  The application side of \<open>src/device.rs\<close>: the configuration of a \<open>UpcFunction\<close>, the
  interface identification, the packet sender and receiver of a connection, and the pool
  of receive buffers.

  The queues between the application and the tasks are channels of another library, so
  their behaviour enters as arguments: what a call of \<open>tx.send\<close> returned, and the
  transfers that \<open>rx.recv\<close> yields one after the other, followed by \<open>None\<close> when the
  channel is closed.
\<close>

section \<open>Configuration\<close>

record cfg =
  cfg_info :: bytes
  cfg_ping_timeout :: "duration option"
  cfg_max_size :: u64
  cfg_recv_pool_size :: nat

definition cfg_default :: cfg where
  "cfg_default =
     \<lparr>cfg_info = [], cfg_ping_timeout = Some (from_secs 10), cfg_max_size = of_nat MAX_SIZE,
      cfg_recv_pool_size = 5 * 1024 * 1024\<rparr>"

text \<open>The setters of \<open>UpcFunction\<close>; \<open>None\<close> is the panic of the assertion.\<close>

definition set_info :: "bytes \<Rightarrow> cfg \<Rightarrow> cfg option" where
  "set_info info c = (if length info \<le> INFO_SIZE then Some (c\<lparr>cfg_info := info\<rparr>) else None)"

definition set_ping_timeout :: "duration option \<Rightarrow> cfg \<Rightarrow> cfg" where
  "set_ping_timeout t c = c\<lparr>cfg_ping_timeout := t\<rparr>"

definition set_max_size :: "u64 \<Rightarrow> cfg \<Rightarrow> cfg" where
  "set_max_size n c = c\<lparr>cfg_max_size := n\<rparr>"

definition set_recv_pool_size :: "nat \<Rightarrow> cfg \<Rightarrow> cfg" where
  "set_recv_pool_size n c = c\<lparr>cfg_recv_pool_size := n\<rparr>"

lemmas cfg_setters [simp] =
  set_ping_timeout_def set_max_size_def set_recv_pool_size_def

text \<open>The information the host may read never exceeds the size of its request.\<close>

definition cfg_ok :: "cfg \<Rightarrow> bool" where
  "cfg_ok c \<longleftrightarrow> length (cfg_info c) \<le> INFO_SIZE"

lemma cfg_ok_setters:
  "cfg_ok cfg_default"
  "set_info i c = Some c' \<Longrightarrow> cfg_ok c'"
  "cfg_ok c \<Longrightarrow> cfg_ok (set_ping_timeout t c)"
  "cfg_ok c \<Longrightarrow> cfg_ok (set_max_size n c)"
  "cfg_ok c \<Longrightarrow> cfg_ok (set_recv_pool_size k c)"
  by (auto simp: cfg_ok_def cfg_default_def set_info_def split: if_splits)

section \<open>Interface identification\<close>

text \<open>The GUID is a value of another library, of type \<open>'g\<close>.\<close>

record 'g interface_id =
  id_class :: usb_class
  id_name :: string
  id_guid :: "'g option"

definition interface_id_new :: "usb_class \<Rightarrow> 'g interface_id" where
  "interface_id_new c = \<lparr>id_class = c, id_name = ''USB packet channel (UPC)'', id_guid = None\<rparr>"

definition with_name :: "string \<Rightarrow> 'g interface_id \<Rightarrow> 'g interface_id" where
  "with_name n i = i\<lparr>id_name := n\<rparr>"

definition with_guid :: "'g \<Rightarrow> 'g interface_id \<Rightarrow> 'g interface_id" where
  "with_guid g i = i\<lparr>id_guid := Some g\<rparr>"

definition interface_id_from_class :: "usb_class \<Rightarrow> 'g interface_id" where
  "interface_id_from_class c = interface_id_new c"

section \<open>Sender\<close>

record dev_sender =
  ds_max_size :: nat

text \<open>
  \<open>tx_send data\<close> is whether \<open>self.tx.send(data)\<close> put the packet into the queue; \<open>err\<close> is
  the value of the error watch at that moment.
\<close>

definition dev_send :: "(bytes \<Rightarrow> bool) \<Rightarrow> error_kind option \<Rightarrow> dev_sender \<Rightarrow> bytes \<Rightarrow> io_error + unit" where
  "dev_send tx_send err s data =
     (if ds_max_size s < length data then
        Inl (Error InvalidInput (SizeExceeds (length data) (ds_max_size s)))
      else if tx_send data then Inr ()
      else Inl (channel_error (case err of Some k \<Rightarrow> k | None \<Rightarrow> BrokenPipe)))"

section \<open>Receiver\<close>

record dev_receiver =
  dr_topic :: bytes
  dr_buffer :: bytes
  dr_max_size :: nat
  dr_max_transfer_size :: nat

definition dev_too_big :: io_error where
  "dev_too_big = Error InvalidData (Text ''incoming packet exceeds maximum receive packet size'')"

text \<open>
  \<open>dev_recv closed err r q\<close> is \<open>recv\<close> when the queue yields the transfers \<open>q\<close> and is then
  closed or still open. The result is the value returned, if any, with the new receiver
  and the transfers not taken.
\<close>

fun dev_recv ::
  "bool \<Rightarrow> error_kind option \<Rightarrow> dev_receiver \<Rightarrow> bytes list
     \<Rightarrow> (io_error + bytes option) poll \<times> dev_receiver \<times> bytes list" where
  "dev_recv closed err r [] =
     (if closed then Ready (case err of Some k \<Rightarrow> Inl (channel_error k) | None \<Rightarrow> Inr None) else Pending,
      r, [])"
| "dev_recv closed err r (packet # q) =
     (let packet_len = length packet;
          r = r\<lparr>dr_buffer := dr_buffer r @ packet\<rparr>
      in if dr_max_size r < length (dr_buffer r) then
           (Ready (Inl dev_too_big), r\<lparr>dr_buffer := []\<rparr>, q)
         else if packet_len < dr_max_transfer_size r then
           (Ready (Inr (Some (dr_buffer r))), r\<lparr>dr_buffer := []\<rparr>, q)
         else dev_recv closed err r q)"

lemma dev_recv_shrinks:
  "dev_recv closed err r q = (Ready (Inr (Some p)), r', q') \<Longrightarrow> length q' < length q"
proof (induction closed err r q rule: dev_recv.induct)
  case (2 closed err r packet q)
  then show ?case by (fastforce simp: Let_def split: if_splits)
qed (auto split: if_splits option.splits)

text \<open>
  \<open>into_stream\<close>: the packets of successive calls of \<open>recv\<close>, up to an error or the end of
  the stream; the flag tells whether the stream has ended.
\<close>

function dev_stream ::
  "bool \<Rightarrow> error_kind option \<Rightarrow> dev_receiver \<Rightarrow> bytes list \<Rightarrow> (io_error + bytes) list \<times> bool" where
  "dev_stream closed err r q =
     (case dev_recv closed err r q of
        (Pending, r', q') \<Rightarrow> ([], False)
      | (Ready (Inl e), r', q') \<Rightarrow> ([Inl e], True)
      | (Ready (Inr None), r', q') \<Rightarrow> ([], True)
      | (Ready (Inr (Some p)), r', q') \<Rightarrow>
          (case dev_stream closed err r' q' of (ps, end) \<Rightarrow> (Inr p # ps, end)))"
  by pat_completeness auto
termination
  by (relation "measure (\<lambda>(closed, err, r, q). length q)") (auto dest: dev_recv_shrinks [OF sym])

declare dev_stream.simps [simp del]

section \<open>A connection\<close>

text \<open>
  \<open>connection\<close>: the two application ends with their limits; the queues start empty and
  the error watch at \<open>None\<close>.
\<close>

definition connection :: "bytes \<Rightarrow> nat \<Rightarrow> nat \<Rightarrow> nat \<Rightarrow> dev_sender \<times> dev_receiver" where
  "connection topic max_transfer_size max_send_size max_recv_size =
     (\<lparr>ds_max_size = max_send_size\<rparr>,
      \<lparr>dr_topic = topic, dr_buffer = [], dr_max_size = max_recv_size,
       dr_max_transfer_size = max_transfer_size\<rparr>)"

text \<open>
  \<open>UpcFunction::accept\<close>: a waiting connection, or the reason why the task has ended. The
  argument \<open>joined\<close> is the outcome of \<open>task.join_next()\<close>: no task, a task that panicked or
  was cancelled, or a task that returned.
\<close>

datatype join_result = NoTask | JoinError io_error | TaskReturned "io_error + unit"

definition accept :: "'c option \<Rightarrow> join_result \<Rightarrow> io_error + 'c" where
  "accept conn joined =
     (case conn of Some c \<Rightarrow> Inr c
      | None \<Rightarrow>
         (case joined of
            TaskReturned (Inr _) \<Rightarrow> Inl (Error ConnectionReset (Text ''the USB device was unbound''))
          | TaskReturned (Inl e) \<Rightarrow> Inl e
          | JoinError e \<Rightarrow> Inl e
          | NoTask \<Rightarrow> Inl (Error BrokenPipe (Text ''the USB device has failed''))))"

section \<open>Pool of receive buffers\<close>

text \<open>
  Buffers are values of another library, of type \<open>'b\<close>, with three operations:
  \<open>with_capacity\<close>, \<open>capacity\<close> and \<open>split_off b n\<close>, which leaves the first \<open>n\<close> bytes of
  capacity in \<open>b\<close> and returns the rest, and panics (\<open>None\<close>) when \<open>n\<close> exceeds the capacity.
\<close>

record 'b bytes_pool =
  bp_buf :: 'b
  bp_pool_size :: nat

definition pool_new :: "(nat \<Rightarrow> 'b) \<Rightarrow> nat \<Rightarrow> 'b bytes_pool" where
  "pool_new with_capacity pool_size = \<lparr>bp_buf = with_capacity pool_size, bp_pool_size = pool_size\<rparr>"

definition pool_chunk ::
  "(nat \<Rightarrow> 'b) \<Rightarrow> ('b \<Rightarrow> nat) \<Rightarrow> ('b \<Rightarrow> nat \<Rightarrow> ('b \<times> 'b) option) \<Rightarrow> 'b bytes_pool \<Rightarrow> nat
     \<Rightarrow> ('b \<times> 'b bytes_pool) option" where
  "pool_chunk with_capacity capacity split_off p chunk_size =
     (let p = (if capacity (bp_buf p) < chunk_size
               then p\<lparr>bp_buf := with_capacity (max (bp_pool_size p) chunk_size)\<rparr> else p)
      in case split_off (bp_buf p) chunk_size of
           None \<Rightarrow> None
         | Some (front, remaining) \<Rightarrow> Some (front, p\<lparr>bp_buf := remaining\<rparr>))"

text \<open>What the buffer library documents of these operations.\<close>

definition bytes_mut_law :: "(nat \<Rightarrow> 'b) \<Rightarrow> ('b \<Rightarrow> nat) \<Rightarrow> ('b \<Rightarrow> nat \<Rightarrow> ('b \<times> 'b) option) \<Rightarrow> bool" where
  "bytes_mut_law with_capacity capacity split_off \<longleftrightarrow>
     (\<forall>n. n \<le> capacity (with_capacity n))
     \<and> (\<forall>b n. split_off b n = None \<longleftrightarrow> capacity b < n)
     \<and> (\<forall>b n x y. split_off b n = Some (x, y) \<longrightarrow> capacity x = n \<and> capacity y = capacity b - n)"

text \<open>
  Taking a chunk from the pool never panics, whatever the state of the pool, and the
  chunk has room for exactly the bytes asked for; the pool is reallocated only when it
  has fewer bytes left.
\<close>

theorem pool_chunk_total:
  assumes "bytes_mut_law with_capacity capacity split_off"
  shows "\<exists>front p'. pool_chunk with_capacity capacity split_off p n = Some (front, p')
           \<and> capacity front = n \<and> bp_pool_size p' = bp_pool_size p
           \<and> (n \<le> capacity (bp_buf p) \<longrightarrow> capacity (bp_buf p') = capacity (bp_buf p) - n)"
proof -
  define b where "b = (if capacity (bp_buf p) < n then with_capacity (max (bp_pool_size p) n) else bp_buf p)"
  have "n \<le> max (bp_pool_size p) n" by simp
  also have "\<dots> \<le> capacity (with_capacity (max (bp_pool_size p) n))"
    using assms by (simp only: bytes_mut_law_def)
  finally have n: "n \<le> capacity b" by (simp add: b_def)
  with assms have "split_off b n \<noteq> None" by (simp add: bytes_mut_law_def)
  then obtain x y where xy: "split_off b n = Some (x, y)" by auto
  with assms have "capacity x = n" "capacity y = capacity b - n"
    by (simp_all add: bytes_mut_law_def)
  with xy show ?thesis
    by (auto simp: pool_chunk_def Let_def b_def split: if_splits)
qed

theorem pool_chunk_total_witness:
  "\<exists>front p'. pool_chunk id id (\<lambda>b n. if n \<le> b then Some (n, b - n) else None)
       (pool_new id 100) (60::nat) = Some (front, p') \<and> front = 60 \<and> bp_buf p' = 40"
proof -
  have law: "bytes_mut_law id id (\<lambda>b n. if n \<le> b then Some (n, b - n) else None)"
    by (simp add: bytes_mut_law_def not_le)
  obtain front and p' :: "nat bytes_pool" where
    "pool_chunk id id (\<lambda>b n. if n \<le> b then Some (n, b - n) else None) (pool_new id 100) (60::nat)
       = Some (front, p')"
    and "id front = (60::nat)" and "id (bp_buf p') = id (bp_buf (pool_new id 100)) - (60::nat)"
    using pool_chunk_total [OF law, of "pool_new id 100" 60] by (auto simp: pool_new_def)
  then show ?thesis by (simp add: pool_new_def)
qed

section \<open>Correctness of the receiver\<close>

text \<open>A transfer that completes, continues or overflows a packet.\<close>

lemma dev_recv_continue:
  "dr_max_transfer_size r \<le> length packet \<Longrightarrow> length (dr_buffer r @ packet) \<le> dr_max_size r \<Longrightarrow>
     dev_recv closed err r (packet # q)
       = dev_recv closed err (r\<lparr>dr_buffer := dr_buffer r @ packet\<rparr>) q"
  by (simp add: Let_def)

lemma dev_recv_complete:
  "length packet < dr_max_transfer_size r \<Longrightarrow> length (dr_buffer r @ packet) \<le> dr_max_size r \<Longrightarrow>
     dev_recv closed err r (packet # q)
       = (Ready (Inr (Some (dr_buffer r @ packet))), r\<lparr>dr_buffer := []\<rparr>, q)"
  by (simp add: Let_def)

lemma dev_recv_overflow:
  "dr_max_size r < length (dr_buffer r @ packet) \<Longrightarrow>
     dev_recv closed err r (packet # q) = (Ready (Inl dev_too_big), r\<lparr>dr_buffer := []\<rparr>, q)"
  by (simp add: Let_def)

declare dev_recv.simps(2) [simp del]

lemma dev_recv_transfers:
  assumes "0 < n" and "dr_max_transfer_size r = n" and "length (dr_buffer r @ m) \<le> dr_max_size r"
  shows "dev_recv closed err r (transfers n m @ ts)
       = (Ready (Inr (Some (dr_buffer r @ m))), r\<lparr>dr_buffer := []\<rparr>, ts)"
  using assms
proof (induction m arbitrary: r rule: transfers_induct)
  case (short m)
  then show ?case by (simp add: dev_recv_complete)
next
  case (full m)
  then show ?case
    using full.IH [of "r\<lparr>dr_buffer := dr_buffer r @ take n m\<rparr>"]
    by (simp add: transfers_full dev_recv_continue)
qed

text \<open>The receiver between two packets.\<close>

definition dev_ready :: "nat \<Rightarrow> nat \<Rightarrow> dev_receiver \<Rightarrow> bool" where
  "dev_ready max_transfer max_packet r \<longleftrightarrow>
     0 < max_transfer \<and> dr_buffer r = [] \<and> dr_max_transfer_size r = max_transfer \<and> dr_max_size r = max_packet"

interpretation dev: packet_receiver "dev_recv closed err" id "dev_ready T L" T L
  for closed err T L
proof unfold_locales
  fix r :: dev_receiver and m ts and q :: "bytes list"
  assume r: "dev_ready T L r" and m: "length m \<le> L" and q: "id q = transfers T m @ ts"
  have "dev_recv closed err r q = (Ready (Inr (Some m)), r\<lparr>dr_buffer := []\<rparr>, ts)"
    using dev_recv_transfers [of T r m closed err ts] r m q by (simp add: dev_ready_def)
  then show "\<exists>r' q'. dev_recv closed err r q = (Ready (Inr (Some m)), r', q') \<and> dev_ready T L r' \<and> id q' = ts"
    using r by (auto simp: dev_ready_def)
qed

lemma connection_ready:
  "0 < n \<Longrightarrow> dev_ready n max_recv (snd (connection topic n max_send max_recv))"
  by (simp add: dev_ready_def connection_def)

text \<open>
  Cancel safety: a call of \<open>recv\<close> that was still waiting when it was dropped has lost
  nothing. The next call, on the transfers that arrive later, returns what a single call
  on all transfers would have returned.
\<close>

theorem dev_recv_cancel_safe:
  assumes "dev_recv False err r xs = (Pending, r', q')"
  shows "q' = [] \<and> dev_recv closed err r (xs @ ys) = dev_recv closed err r' ys"
  using assms
proof (induction xs arbitrary: r)
  case Nil
  then show ?case by simp
next
  case (Cons x xs)
  let ?r = "r\<lparr>dr_buffer := dr_buffer r @ x\<rparr>"
  have ok: "length (dr_buffer r @ x) \<le> dr_max_size r" "dr_max_transfer_size r \<le> length x"
    using Cons.prems by (auto simp: dev_recv.simps(2) Let_def split: if_splits)
  with Cons.prems have "dev_recv False err ?r xs = (Pending, r', q')"
    by (simp add: dev_recv_continue)
  from Cons.IH [OF this] ok show ?case by (simp add: dev_recv_continue)
qed

theorem dev_recv_cancel_safe_witness:
  "dev_recv True None
     \<lparr>dr_topic = [], dr_buffer = [], dr_max_size = 10, dr_max_transfer_size = 2\<rparr> ([[1, 2]] @ [[3]])
   = dev_recv True None
     \<lparr>dr_topic = [], dr_buffer = [1, 2], dr_max_size = 10, dr_max_transfer_size = 2\<rparr> [[3]]"
  by (rule dev_recv_cancel_safe [THEN conjunct2]) (simp add: dev_recv.simps(2))

lemma dev_stream_run:
  assumes "dev_ready n L r" and "\<forall>m\<in>set ms. length m \<le> L"
  shows "dev_stream closed err r (concat (map (transfers n) ms))
       = (map Inr ms @ (case err of Some k \<Rightarrow> if closed then [Inl (channel_error k)] else [] | None \<Rightarrow> []), closed)"
  using assms
proof (induction ms)
  case Nil
  then show ?case by (simp add: dev_stream.simps split: option.splits)
next
  case (Cons m ms)
  have r: "r\<lparr>dr_buffer := []\<rparr> = r" using Cons.prems(1) by (simp add: dev_ready_def)
  have "dev_recv closed err r (transfers n m @ concat (map (transfers n) ms))
      = (Ready (Inr (Some m)), r, concat (map (transfers n) ms))"
    using dev_recv_transfers [of n r m closed err] Cons.prems by (simp add: dev_ready_def r)
  then show ?case
    using Cons by (subst dev_stream.simps) simp
qed

text \<open>
  The stream of a receiver: the packets whose transfers are queued come out whole and
  in order, and then the stream waits for more, ends, or ends with the error of the
  connection.
\<close>

theorem dev_stream_packets:
  assumes "dev_ready n L r" and "\<forall>m\<in>set ms. length m \<le> L"
  shows "dev_stream closed err r (concat (map (transfers n) ms))
       = (map Inr ms @ (case err of Some k \<Rightarrow> if closed then [Inl (channel_error k)] else [] | None \<Rightarrow> []), closed)"
  using assms by (rule dev_stream_run)

theorem dev_stream_packets_witness:
  "dev_stream True (Some TimedOut)
     \<lparr>dr_topic = [], dr_buffer = [], dr_max_size = 4, dr_max_transfer_size = 2\<rparr>
     (concat (map (transfers 2) [[1, 2, 3], [], [4, 5]]))
   = ([Inr [1, 2, 3], Inr [], Inr [4, 5], Inl (channel_error TimedOut)], True)"
  using dev_stream_packets [of 2 4 "\<lparr>dr_topic = [], dr_buffer = [], dr_max_size = 4, dr_max_transfer_size = 2\<rparr>"
      "[[1, 2, 3], [], [4, 5]]" True "Some TimedOut"]
  by (simp add: dev_ready_def)

text \<open>A packet that does not fit: how many full transfers are taken before the error.\<close>

lemma dev_recv_too_big:
  assumes "0 < n" and "dr_max_transfer_size r = n" and "length (dr_buffer r) \<le> dr_max_size r"
    and "dr_max_size r < length (dr_buffer r @ m)"
  shows "dev_recv closed err r (transfers n m @ ts) =
    (Ready (Inl dev_too_big), r\<lparr>dr_buffer := []\<rparr>,
     (let k = Suc ((dr_max_size r - length (dr_buffer r)) div n)
      in if length m < k * n then [] else transfers n (drop (k * n) m)) @ ts)"
  using assms
proof (induction m arbitrary: r rule: transfers_induct)
  case (short m)
  then show ?case by (simp add: dev_recv_overflow)
next
  case (full m)
  let ?r = "r\<lparr>dr_buffer := dr_buffer r @ take n m\<rparr>"
  define room where "room = dr_max_size r - length (dr_buffer r)"
  show ?case
  proof (cases "room < n")
    case True
    with full show ?thesis
      by (simp add: transfers_full dev_recv_overflow room_def Let_def)
  next
    case False
    then have room: "room div n = Suc ((room - n) div n)" using full.hyps(1) by (simp add: le_div_geq)
    define k where "k = Suc ((room - n) div n)"
    have len: "dr_max_size ?r - length (dr_buffer ?r) = room - n"
      using full.hyps by (simp add: room_def)
    have step: "dev_recv closed err r (transfers n m @ ts) = dev_recv closed err ?r (transfers n (drop n m) @ ts)"
      using full False by (simp add: transfers_full dev_recv_continue room_def)
    have IH: "dev_recv closed err ?r (transfers n (drop n m) @ ts) =
      (Ready (Inl dev_too_big), ?r\<lparr>dr_buffer := []\<rparr>,
       (if length (drop n m) < k * n then [] else transfers n (drop (k * n) (drop n m))) @ ts)"
      using full False unfolding k_def len [symmetric]
      by (subst full.IH) (auto simp: room_def Let_def)
    have "length (drop n m) < k * n \<longleftrightarrow> length m < Suc k * n"
      using full.hyps by auto
    moreover have "drop (k * n) (drop n m) = drop (Suc k * n) m"
      by (simp add: add.commute)
    ultimately show ?thesis
      unfolding step IH room_def [symmetric] room Let_def k_def [symmetric] by simp
  qed
qed

text \<open>
  A packet above the limit is refused with the error "incoming packet exceeds maximum
  receive packet size" as soon as the accumulated transfers exceed the limit; the
  receiver is then between two packets, with the transfers behind that point still queued.
\<close>

theorem dev_recv_refuses_oversized:
  assumes "dev_ready n L r" and "L < length m"
  shows "dev_recv closed err r (transfers n m @ ts) =
    (Ready (Inl dev_too_big), r,
     (if length m < Suc (L div n) * n then [] else transfers n (drop (Suc (L div n) * n) m)) @ ts)"
proof -
  have "r\<lparr>dr_buffer := []\<rparr> = r" using assms(1) by (simp add: dev_ready_def)
  then show ?thesis
    using dev_recv_too_big [of n r m closed err ts] assms by (simp add: dev_ready_def Let_def)
qed

theorem dev_recv_refuses_oversized_witness:
  "fst (dev_recv False None \<lparr>dr_topic = [], dr_buffer = [], dr_max_size = 3, dr_max_transfer_size = 2\<rparr>
     (transfers 2 [1, 2, 3, 4] @ [])) = Ready (Inl dev_too_big)"
  by (subst dev_recv_refuses_oversized [where n = 2 and L = 3]) (simp_all add: dev_ready_def)

text \<open>
  When an oversized packet has transfers behind the point where it was refused, they
  are handed out by the next call as if they were a packet of their own.
\<close>

theorem dev_recv_oversized_tail:
  assumes "dev_ready n L r" and "Suc (L div n) * n \<le> length m"
    and "length m - Suc (L div n) * n \<le> L"
  shows "recv_many (dev_recv closed err) 2 r (transfers n m @ ts) =
    ([Ready (Inl dev_too_big), Ready (Inr (Some (drop (Suc (L div n) * n) m)))], r, ts)"
proof -
  let ?k = "Suc (L div n)"
  have n: "0 < n" "dr_max_transfer_size r = n" "dr_max_size r = L" "dr_buffer r = []"
    and r: "r\<lparr>dr_buffer := []\<rparr> = r"
    using assms(1) by (simp_all add: dev_ready_def)
  have "L < ?k * n" using n(1) by (simp add: dividend_less_div_times add.commute)
  then have big: "L < length m" using assms(2) by simp
  have "dev_recv closed err r (transfers n m @ ts)
      = (Ready (Inl dev_too_big), r, transfers n (drop (?k * n) m) @ ts)"
    using dev_recv_too_big [of n r m closed err ts] n r big assms(2) by (simp add: Let_def)
  moreover have "dev_recv closed err r (transfers n (drop (?k * n) m) @ ts)
      = (Ready (Inr (Some (drop (?k * n) m))), r, ts)"
    using dev_recv_transfers [of n r "drop (?k * n) m" closed err ts] n r assms(3) by simp
  ultimately show ?thesis by (simp add: numeral_2_eq_2)
qed

theorem dev_recv_oversized_tail_witness:
  "fst (recv_many (dev_recv False None) 2
      \<lparr>dr_topic = [], dr_buffer = [], dr_max_size = 3, dr_max_transfer_size = 2\<rparr>
      (transfers 2 [1, 2, 3, 4, 5] @ []))
   = [Ready (Inl dev_too_big), Ready (Inr (Some [5]))]"
  by (subst dev_recv_oversized_tail [where n = 2 and L = 3]) (simp_all add: dev_ready_def)

text \<open>A packet that the sender accepts is within the limit of the host.\<close>

lemma dev_send_within_limit: "dev_send tx_send err s data = Inr () \<Longrightarrow> length data \<le> ds_max_size s"
  by (auto simp: dev_send_def split: if_splits)

lemma dev_send_error_kind:
  "dev_send tx_send err s data = Inl e \<Longrightarrow>
     kind e = (if ds_max_size s < length data then InvalidInput
               else (case err of Some k \<Rightarrow> k | None \<Rightarrow> BrokenPipe))"
  by (auto simp: dev_send_def split: if_splits option.splits)

end
