(* ===== verification/Device_Tasks.thy ===== *)
theory Device_Tasks
  imports Device_Channel
begin

text \<open>
  The two endpoint tasks of \<open>src/device.rs\<close> and the preparation of the OUT endpoint.

  \<open>in_task\<close> moves received transfers into the queue of the receiver until the receiver is
  dropped, the endpoint fails, or the number of bytes announced by CLOSE_SEND has been
  received. It is a state machine: one step is one turn of an \<open>await\<close>, and the step's
  argument says what each branch of the \<open>select!\<close> would yield at that moment. The branches
  are tried in the order of the code (\<open>biased\<close>).

  \<open>out_task\<close> cuts packets into transfers; its steps are the results of \<open>rx.recv\<close> and of
  the endpoint operations it awaits.
\<close>

section \<open>Receiving from the OUT endpoint: \<open>in_task\<close>\<close>

text \<open>Where the task waits: for the endpoint lock, at the top of the loop, at either select.\<close>

datatype in_pc = InLock | InCheck | InReserve | InReceive | InDone "io_error + bool"

record in_state =
  in_pc :: in_pc
  in_total :: u64
  in_sent :: "bytes list"

text \<open>
  What the awaited operations yield: the value of the CLOSE_SEND watch and whether it has
  changed since it was last seen; a permit of the queue (\<open>False\<close>: the receiver is gone);
  the result of \<open>recv_async\<close>; and whether the queue is closed.
\<close>

record in_poll =
  ip_close :: "u64 option"
  ip_changed :: bool
  ip_reserve :: "bool poll"
  ip_recv :: "(io_error + bytes option) poll"
  ip_tx_closed :: bool

definition in_task_init :: in_state where
  "in_task_init = \<lparr>in_pc = InLock, in_total = 0, in_sent = []\<rparr>"

definition in_task_check :: "in_poll \<Rightarrow> in_state \<Rightarrow> in_state" where
  "in_task_check p s =
     (if Some (in_total s) = ip_close p then s\<lparr>in_pc := InDone (Inr True)\<rparr>
      else s\<lparr>in_pc := InReserve\<rparr>)"

definition in_task_reserve :: "in_poll \<Rightarrow> in_state \<Rightarrow> in_state" where
  "in_task_reserve p s =
     (case ip_reserve p of
        Ready True \<Rightarrow> s\<lparr>in_pc := InReceive\<rparr>
      | Ready False \<Rightarrow> s\<lparr>in_pc := InDone (Inr False)\<rparr>
      | Pending \<Rightarrow> if ip_changed p then s\<lparr>in_pc := InCheck\<rparr> else s)"

definition in_task_receive :: "in_poll \<Rightarrow> in_state \<Rightarrow> in_state" where
  "in_task_receive p s =
     (case ip_recv p of
        Ready (Inl e) \<Rightarrow> s\<lparr>in_pc := InDone (Inl e)\<rparr>
      | Ready (Inr (Some data)) \<Rightarrow>
          s\<lparr>in_pc := InCheck, in_total := in_total s + of_nat (length data), in_sent := in_sent s @ [data]\<rparr>
      | Ready (Inr None) \<Rightarrow> s\<lparr>in_pc := InCheck\<rparr>
      | Pending \<Rightarrow>
          if ip_tx_closed p then s\<lparr>in_pc := InDone (Inr False)\<rparr>
          else if ip_changed p then s\<lparr>in_pc := InCheck\<rparr>
          else s)"

definition in_task_step :: "in_poll \<Rightarrow> in_state \<Rightarrow> in_state" where
  "in_task_step p s =
     (case in_pc s of
        InLock \<Rightarrow> s\<lparr>in_pc := InCheck\<rparr>
      | InCheck \<Rightarrow> in_task_check p s
      | InReserve \<Rightarrow> in_task_reserve p s
      | InReceive \<Rightarrow> in_task_receive p s
      | InDone r \<Rightarrow> s)"

lemmas in_task_step_defs =
  in_task_step_def in_task_check_def in_task_reserve_def in_task_receive_def

definition in_holds_lock :: "in_state \<Rightarrow> bool" where
  "in_holds_lock s \<longleftrightarrow> (case in_pc s of InLock \<Rightarrow> False | InDone r \<Rightarrow> False | _ \<Rightarrow> True)"

text \<open>
  \<open>prepare_in\<close>: buffers are posted to the endpoint for as long as one is accepted within
  the timeout; the argument lists the outcomes (\<open>Ready (Inr _)\<close> for \<open>Ok(Ok(_))\<close>). The
  result counts the calls.
\<close>

fun prepare_in :: "(io_error + bytes option) poll list \<Rightarrow> nat" where
  "prepare_in [] = 0"
| "prepare_in (Ready (Inr _) # rs) = Suc (prepare_in rs)"
| "prepare_in (_ # rs) = 1"

section \<open>Sending to the IN endpoint: \<open>out_task\<close>\<close>

text \<open>
  The inner loop that cuts a packet into parts of at most \<open>max_transfer_size\<close> bytes. It
  does not return when that size is 0, so the result is an option.
\<close>

partial_function (option) send_parts :: "nat \<Rightarrow> bytes \<Rightarrow> bytes list option" where
  "send_parts max_transfer_size data =
     (if data = [] then Some []
      else Option.bind
        (send_parts max_transfer_size (drop (min (length data) max_transfer_size) data))
        (\<lambda>ts. Some (take (min (length data) max_transfer_size) data # ts)))"

datatype ep_op = SendTransfer bytes | Flush

text \<open>
  The endpoint operations for one packet; \<open>None\<close> when the loop does not return or the
  remainder by a packet size of 0 panics.
\<close>

definition out_packet_ops :: "nat \<Rightarrow> nat \<Rightarrow> bytes \<Rightarrow> ep_op list option" where
  "out_packet_ops mps max_transfer_size data =
     (case send_parts max_transfer_size data of
        None \<Rightarrow> None
      | Some ts \<Rightarrow>
          if mps = 0 then None
          else Some (map SendTransfer ts
                 @ (if length data mod mps = 0 then [Flush, SendTransfer []] else [])))"

datatype out_pc =
    OutLock
  | OutRecv nat
  | OutBusy nat "ep_op list"
  | OutFlush
  | OutDone "io_error + unit"
  | OutStuck

record out_state =
  out_pc :: out_pc
  out_ops :: "ep_op list"
  out_max_transfer_size :: nat

datatype out_event =
    Started "io_error + nat"
  | Received "bytes option"
  | OpDone "io_error + unit"

definition out_task_init :: "nat \<Rightarrow> out_state" where
  "out_task_init max_transfer_size =
     \<lparr>out_pc = OutLock, out_ops = [], out_max_transfer_size = max_transfer_size\<rparr>"

fun out_task_step :: "out_event \<Rightarrow> out_state \<Rightarrow> out_state" where
  "out_task_step ev s =
     (case (out_pc s, ev) of
        (OutLock, Started (Inr mps)) \<Rightarrow> s\<lparr>out_pc := OutRecv mps\<rparr>
      | (OutLock, Started (Inl e)) \<Rightarrow> s\<lparr>out_pc := OutDone (Inl e)\<rparr>
      | (OutRecv mps, Received (Some data)) \<Rightarrow>
          (case out_packet_ops mps (out_max_transfer_size s) data of
             None \<Rightarrow> s\<lparr>out_pc := OutStuck\<rparr>
           | Some ops \<Rightarrow> s\<lparr>out_pc := OutBusy mps ops\<rparr>)
      | (OutRecv mps, Received None) \<Rightarrow> s\<lparr>out_pc := OutFlush\<rparr>
      | (OutBusy mps (op # ops), OpDone (Inr _)) \<Rightarrow>
          s\<lparr>out_pc := (if ops = [] then OutRecv mps else OutBusy mps ops), out_ops := out_ops s @ [op]\<rparr>
      | (OutBusy mps (op # ops), OpDone (Inl e)) \<Rightarrow> s\<lparr>out_pc := OutDone (Inl e)\<rparr>
      | (OutFlush, OpDone r) \<Rightarrow>
          s\<lparr>out_pc := OutDone r, out_ops := out_ops s @ (case r of Inr _ \<Rightarrow> [Flush] | Inl e \<Rightarrow> [])\<rparr>
      | _ \<Rightarrow> s)"

declare out_task_step.simps [simp del]

definition out_holds_lock :: "out_state \<Rightarrow> bool" where
  "out_holds_lock s \<longleftrightarrow> (case out_pc s of OutLock \<Rightarrow> False | OutDone r \<Rightarrow> False | _ \<Rightarrow> True)"

section \<open>The inner loop returns\<close>

lemma send_parts_Nil [simp]: "send_parts n [] = Some []"
  by (simp add: send_parts.simps)

lemma send_parts_returns: "0 < n \<Longrightarrow> send_parts n data = Some (parts n data)"
proof (induction data rule: length_induct)
  case (1 data)
  show ?case
  proof (cases "data = []")
    case False
    with 1 have "send_parts n (drop (min (length data) n) data) = Some (parts n (drop n data))"
      by (cases "length data \<le> n") (auto simp: min_def)
    with False 1 show ?thesis
      by (simp add: send_parts.simps [of n data] parts.simps [of n data] min_def)
  qed simp
qed

lemma send_parts_zero: "data \<noteq> [] \<Longrightarrow> send_parts 0 data = None"
proof -
  have "send_parts n d = Some r \<Longrightarrow> n = 0 \<longrightarrow> d = []" for n d r
  proof (rule send_parts.raw_induct [where P = "\<lambda>n d r. n = 0 \<longrightarrow> d = []"])
    fix f :: "nat \<Rightarrow> bytes \<Rightarrow> bytes list option" and n d r
    assume "\<And>n d r. f n d = Some r \<Longrightarrow> n = 0 \<longrightarrow> d = []"
      and "(if d = [] then Some []
        else Option.bind (f n (drop (min (length d) n) d))
          (\<lambda>parts. Some (take (min (length d) n) d # parts))) = Some r"
    then show "n = 0 \<longrightarrow> d = []"
      by (cases "n = 0") (fastforce simp: bind_eq_Some_conv split: if_splits)+
  qed
  then show "data \<noteq> [] \<Longrightarrow> send_parts 0 data = None"
    by (metis not_Some_eq)
qed

lemma out_packet_ops_returns:
  "0 < mps \<Longrightarrow> 0 < n \<Longrightarrow> out_packet_ops mps n data =
     Some (map SendTransfer (parts n data) @ (if length data mod mps = 0 then [Flush, SendTransfer []] else []))"
  by (simp add: out_packet_ops_def send_parts_returns)

text \<open>
  The loop that cuts a packet into transfers returns for every packet exactly when the
  maximum transfer size is not 0, and then its parts make up the packet.
\<close>

theorem send_parts_terminates:
  "(\<forall>data. \<exists>ps. send_parts n data = Some ps \<and> concat ps = data) = (0 < n)"
proof
  assume "\<forall>data. \<exists>ps. send_parts n data = Some ps \<and> concat ps = data"
  then obtain ps where "send_parts n [0] = Some ps" by blast
  then show "0 < n" using send_parts_zero [of "[0]"] by (cases n) auto
next
  assume "0 < n"
  then show "\<forall>data. \<exists>ps. send_parts n data = Some ps \<and> concat ps = data"
    by (simp add: send_parts_returns concat_parts)
qed

section \<open>A run of a task\<close>

text \<open>The states of a step function under a list of events.\<close>

abbreviation in_task_run :: "in_poll list \<Rightarrow> in_state \<Rightarrow> in_state" where
  "in_task_run \<equiv> fold in_task_step"

definition sent_bytes :: "in_state \<Rightarrow> nat" where
  "sent_bytes s = length (concat (in_sent s))"

text \<open>
  The invariant of \<open>in_task\<close>: the counter is the number of forwarded bytes, modulo the
  width of \<open>u64\<close>.
\<close>

definition in_inv :: "in_state \<Rightarrow> bool" where
  "in_inv s \<longleftrightarrow> in_total s = of_nat (sent_bytes s)"

interpretation in_task: invariant_run in_task_step in_inv in_task_init
proof unfold_locales
  show "in_inv in_task_init" by (simp add: in_inv_def sent_bytes_def in_task_init_def)
  fix s e
  show "in_inv s \<Longrightarrow> in_inv (in_task_step e s)"
    by (auto simp: in_inv_def sent_bytes_def in_task_step_defs
        split: in_pc.splits poll.splits sum.splits option.splits bool.splits)
qed

text \<open>The task ends with \<open>Ok(true)\<close> only at the top of its loop, on the announced count.\<close>

lemma in_task_step_True:
  "in_pc (in_task_step p s) = InDone (Inr True) \<Longrightarrow>
     in_pc s = InDone (Inr True) \<and> in_task_step p s = s
     \<or> ip_close p = Some (in_total s) \<and> in_total (in_task_step p s) = in_total s"
  by (auto simp: in_task_step_defs
      split: in_pc.splits poll.splits sum.splits option.splits bool.splits if_splits)

lemma in_task_run_True:
  "in_pc (in_task_run ps s) = InDone (Inr True) \<Longrightarrow> in_pc s \<noteq> InDone (Inr True) \<Longrightarrow>
     \<exists>p\<in>set ps. ip_close p = Some (in_total (in_task_run ps s))"
proof (induction ps rule: rev_induct)
  case (snoc p ps)
  then show ?case
    using in_task_step_True [of p "in_task_run ps s"] by auto
qed simp

text \<open>
  When \<open>in_task\<close> reports that the host has closed its send direction, the host has
  announced a byte count, and the bytes forwarded to the receiver are that many (modulo
  the width of the 64-bit counter).
\<close>

theorem in_task_true_means_count:
  assumes "in_pc (in_task_run ps in_task_init) = InDone (Inr True)"
  shows "\<exists>p\<in>set ps. ip_close p = Some (of_nat (sent_bytes (in_task_run ps in_task_init)))"
proof -
  have "in_inv (in_task_run ps in_task_init)" by (rule in_task.reachable_inv)
  with in_task_run_True [OF assms] show ?thesis
    by (simp add: in_inv_def in_task_init_def)
qed

text \<open>Moments at which nothing happens, and at which a transfer arrives.\<close>

definition idle_poll :: "u64 option \<Rightarrow> in_poll" where
  "idle_poll close =
     \<lparr>ip_close = close, ip_changed = False, ip_reserve = Ready True, ip_recv = Pending, ip_tx_closed = False\<rparr>"

definition arrival :: "u64 option \<Rightarrow> bytes \<Rightarrow> in_poll list" where
  "arrival close d = [idle_poll close, idle_poll close, (idle_poll close)\<lparr>ip_recv := Ready (Inr (Some d))\<rparr>]"

theorem in_task_true_means_count_witness:
  "\<exists>p\<in>set (idle_poll None # arrival None [7] @ [idle_poll (Some 1)]). ip_close p
     = Some (of_nat (sent_bytes (in_task_run (idle_poll None # arrival None [7] @ [idle_poll (Some 1)]) in_task_init)))"
  by (rule in_task_true_means_count)
    (simp add: arrival_def idle_poll_def in_task_init_def in_task_step_defs)

lemma in_task_arrival:
  assumes "in_pc s = InCheck" and "Some (in_total s) \<noteq> close"
  shows "in_task_run (arrival close d) s
       = s\<lparr>in_total := in_total s + of_nat (length d), in_sent := in_sent s @ [d]\<rparr>"
  using assms by (simp add: arrival_def idle_poll_def in_task_step_defs)

lemma in_task_drain_aux:
  assumes "in_pc s = InCheck" and "in_inv s" and "sent_bytes s + length (concat ds) = n" and "n < 2 ^ 64"
    and "ds = [] \<or> last ds \<noteq> []"
  shows "in_task_run (concat (map (arrival (Some (of_nat n))) ds) @ [idle_poll (Some (of_nat n))]) s
       = s\<lparr>in_pc := InDone (Inr True), in_total := of_nat n, in_sent := in_sent s @ ds\<rparr>"
  using assms
proof (induction ds arbitrary: s)
  case Nil
  then show ?case
    by (simp add: in_task_step_defs idle_poll_def in_inv_def)
next
  case (Cons d ds)
  have pos: "0 < length (concat (d # ds))"
    using Cons.prems(5) last_in_set [of "d # ds"] by fastforce
  then have "sent_bytes s < n" using Cons.prems(3) by linarith
  then have "(of_nat (sent_bytes s) :: u64) \<noteq> of_nat n"
    using Cons.prems(4) of_nat_u64_eq_iff [of "sent_bytes s" n] by simp
  then have step: "in_task_run (arrival (Some (of_nat n)) d) s
      = s\<lparr>in_total := in_total s + of_nat (length d), in_sent := in_sent s @ [d]\<rparr>"
    using Cons.prems(1,2) by (intro in_task_arrival) (simp_all add: in_inv_def)
  let ?s = "s\<lparr>in_total := in_total s + of_nat (length d), in_sent := in_sent s @ [d]\<rparr>"
  have "in_inv ?s" using Cons.prems(2) by (simp add: in_inv_def sent_bytes_def)
  then show ?case
    using Cons.IH [of ?s] Cons.prems by (cases "ds = []") (simp_all add: step sent_bytes_def)
qed

text \<open>
  Draining after CLOSE_SEND: with an announced count of \<open>n\<close> bytes, the task forwards the
  transfers that still arrive until their bytes make up \<open>n\<close>, and then ends as closed by the
  host, with every byte forwarded in order.
\<close>

theorem in_task_drains:
  assumes "in_pc s = InCheck" and "in_inv s" and "sent_bytes s + length (concat ds) = n" and "n < 2 ^ 64"
    and "ds = [] \<or> last ds \<noteq> []"
  shows "in_task_run (concat (map (arrival (Some (of_nat n))) ds) @ [idle_poll (Some (of_nat n))]) s
       = s\<lparr>in_pc := InDone (Inr True), in_total := of_nat n, in_sent := in_sent s @ ds\<rparr>"
  using assms by (rule in_task_drain_aux)

theorem in_task_drains_witness:
  "in_task_run (concat (map (arrival (Some (of_nat 3))) [[1, 2], [3]]) @ [idle_poll (Some (of_nat 3))])
     \<lparr>in_pc = InCheck, in_total = 0, in_sent = []\<rparr>
   = \<lparr>in_pc = InDone (Inr True), in_total = 3, in_sent = [[1, 2], [3]]\<rparr>"
  by (subst in_task_drains) (simp_all add: in_inv_def sent_bytes_def)

section \<open>A terminator that is not awaited\<close>

lemma transfers_aligned:
  "0 < n \<Longrightarrow> n dvd length m \<Longrightarrow> transfers n m = parts n m @ [[]]"
proof (induction m rule: transfers_induct)
  case (short m)
  then show ?case by (cases "m = []") (auto dest: dvd_imp_le)
next
  case (full m)
  then have "m \<noteq> []" by auto
  with full show ?case by (simp add: transfers_full parts.simps [of n m])
qed

lemma parts_aligned_full:
  "0 < n \<Longrightarrow> n dvd length m \<Longrightarrow> list_all (\<lambda>t. length t = n) (parts n m)"
  using transfers_shape [of n m] by (simp add: transfers_aligned)

lemma dev_recv_unfinished:
  assumes "list_all (\<lambda>t. length t = dr_max_transfer_size r) ts"
    and "length (dr_buffer r @ concat ts) \<le> dr_max_size r"
  shows "dev_recv True None r ts = (Ready (Inr None), r\<lparr>dr_buffer := dr_buffer r @ concat ts\<rparr>, [])"
  using assms
proof (induction ts arbitrary: r)
  case (Cons t ts)
  then show ?case
    using Cons.IH [of "r\<lparr>dr_buffer := dr_buffer r @ t\<rparr>"] by (simp add: dev_recv_continue)
qed simp

text \<open>
  A packet whose length is a multiple of the transfer size ends with an empty transfer.
  When the host announces the byte count while that packet is still arriving, the task ends
  at the last full transfer and does not wait for the empty one, so the receiver's stream
  ends without the packet although all its bytes were forwarded.
\<close>

theorem in_task_drops_terminator:
  assumes "0 < n" and "n dvd length m" and "m \<noteq> []" and "length m < 2 ^ 64"
    and "dev_ready n L r" and "length m \<le> L"
  shows "transfers n m = parts n m @ [[]]
    \<and> in_task_run (concat (map (arrival (Some (of_nat (length m)))) (parts n m))
            @ [idle_poll (Some (of_nat (length m)))]) (in_task_init\<lparr>in_pc := InCheck\<rparr>)
         = \<lparr>in_pc = InDone (Inr True), in_total = of_nat (length m), in_sent = parts n m\<rparr>
    \<and> dev_stream True None r (parts n m) = ([], True)"
proof (intro conjI)
  show "transfers n m = parts n m @ [[]]" using assms(1,2) by (rule transfers_aligned)
  have c: "concat (parts n m) = m" using assms(1) by (rule concat_parts)
  then have ne: "parts n m \<noteq> []" using assms(3) by auto
  have "length (last (parts n m)) = n"
    using parts_aligned_full [OF assms(1,2)] last_in_set [OF ne] by (simp only: list_all_iff)
  then have last: "last (parts n m) \<noteq> []" using assms(1) by auto
  let ?s = "in_task_init\<lparr>in_pc := InCheck\<rparr>"
  have "in_task_run (concat (map (arrival (Some (of_nat (length m)))) (parts n m))
      @ [idle_poll (Some (of_nat (length m)))]) ?s
    = ?s\<lparr>in_pc := InDone (Inr True), in_total := of_nat (length m), in_sent := in_sent ?s @ parts n m\<rparr>"
    using in_task_drain_aux [of ?s "parts n m" "length m"] c last assms(4)
    by (simp add: in_task_init_def in_inv_def sent_bytes_def)
  then show "in_task_run (concat (map (arrival (Some (of_nat (length m)))) (parts n m))
      @ [idle_poll (Some (of_nat (length m)))]) ?s
    = \<lparr>in_pc = InDone (Inr True), in_total = of_nat (length m), in_sent = parts n m\<rparr>"
    by (simp add: in_task_init_def)
  show "dev_stream True None r (parts n m) = ([], True)"
    using dev_recv_unfinished [of r "parts n m"] parts_aligned_full [OF assms(1,2)] assms(5,6) c
    by (subst dev_stream.simps) (simp add: dev_ready_def)
qed

theorem in_task_drops_terminator_witness:
  "dev_stream True None
     \<lparr>dr_topic = [], dr_buffer = [], dr_max_size = 4, dr_max_transfer_size = 2\<rparr> (parts 2 [7, 8])
   = ([], True)"
  by (rule in_task_drops_terminator [where L = 4, THEN conjunct2, THEN conjunct2])
    (simp_all add: dev_ready_def)

section \<open>What the device puts on the wire\<close>

text \<open>The transfers among the operations for a packet.\<close>

fun op_transfer :: "ep_op \<Rightarrow> bytes list" where
  "op_transfer (SendTransfer d) = [d]"
| "op_transfer Flush = []"

definition dev_out_transfers :: "nat \<Rightarrow> nat \<Rightarrow> bytes \<Rightarrow> bytes list" where
  "dev_out_transfers mps max_transfer_size data =
     (case out_packet_ops mps max_transfer_size data of
        None \<Rightarrow> [] | Some ops \<Rightarrow> concat (map op_transfer ops))"

lemma op_transfer_sends [simp]: "concat (map op_transfer (map SendTransfer ts)) = ts"
  by (induction ts) auto

lemma dev_out_transfers_parts:
  "0 < mps \<Longrightarrow> 0 < n \<Longrightarrow>
     dev_out_transfers mps n data = parts n data @ (if length data mod mps = 0 then [[]] else [])"
  using op_transfer_sends [of "parts n data"]
  by (simp add: dev_out_transfers_def out_packet_ops_returns del: op_transfer_sends)

lemma parts_on_wire:
  assumes "0 < n" and "mps dvd n" and "0 < mps" and "out_split_law mps split"
  shows "concat (map split (parts n m)) @ (if mps dvd length m then [[]] else []) = transfers mps m"
  using assms(1)
proof (induction m rule: transfers_induct)
  case (short m)
  show ?case
  proof (cases "m = []")
    case True
    with assms(3) show ?thesis by simp
  next
    case False
    with short have parts: "parts n m = [m]" by (simp add: parts.simps [of n m])
    show ?thesis
      using out_split_aligned [OF assms(4,3), of m "[]"] out_split_rest [OF assms(4,3), of m]
        False assms(3) by (auto simp: parts)
  qed
next
  case (full m)
  then have parts: "parts n m = take n m # parts n (drop n m)" and "take n m \<noteq> []"
    by (auto simp: parts.simps [of n m])
  have "mps dvd length (take n m)" using full assms(2) by simp
  then have "split (take n m) @ transfers mps (drop n m) = transfers mps m"
    using out_split_aligned [OF assms(4,3), of "take n m" "drop n m"] \<open>take n m \<noteq> []\<close> by simp
  moreover have "mps dvd length m \<longleftrightarrow> mps dvd length (drop n m)"
    using dvd_length_drop [OF assms(2) full.hyps(2)] by simp
  ultimately show ?case
    using full.IH by (simp add: parts)
qed

interpretation dev_out: packet_sender "dev_out_transfers mps (mps * TRANSFER_PACKETS)" mps for mps
proof unfold_locales
  fix split m
  assume mps: "0 < mps" and split: "out_split_law mps split"
  then show "concat (map split (dev_out_transfers mps (mps * TRANSFER_PACKETS) m)) = transfers mps m"
    using parts_on_wire [of "mps * TRANSFER_PACKETS" mps split m]
    by (simp add: dev_out_transfers_parts mod_eq_0_iff_dvd out_split_law_def split: if_splits)
qed

text \<open>
  Every transfer the device submits for a packet, except the last, has a size that is a
  positive multiple of the USB packet size, and a terminating empty transfer follows exactly
  when the length of the packet is a multiple of that size; so no other transfer ends with
  a short USB packet.
\<close>

theorem dev_out_transfers_legal:
  assumes "0 < mps"
  shows "list_all (\<lambda>t. t \<noteq> [] \<and> mps dvd length t) (butlast (dev_out_transfers mps (mps * TRANSFER_PACKETS) m))
    \<and> concat (dev_out_transfers mps (mps * TRANSFER_PACKETS) m) = m
    \<and> (last (dev_out_transfers mps (mps * TRANSFER_PACKETS) m) = [] \<longleftrightarrow> mps dvd length m)"
proof -
  define n where "n = mps * TRANSFER_PACKETS"
  have n: "0 < n" "mps dvd n" using assms by (simp_all add: n_def)
  have shape: "list_all (\<lambda>t. t \<noteq> [] \<and> length t = n) (butlast (parts n m))
      \<and> (m \<noteq> [] \<longrightarrow> parts n m \<noteq> [] \<and> last (parts n m) \<noteq> [])
      \<and> (mps dvd length m \<longrightarrow> list_all (\<lambda>t. t \<noteq> [] \<and> mps dvd length t) (parts n m))"
    using n(1)
  proof (induction m rule: transfers_induct)
    case (short m)
    then show ?case by (cases "m = []") (simp_all add: parts.simps [of n m])
  next
    case (full m)
    then have p: "parts n m = take n m # parts n (drop n m)" "take n m \<noteq> []"
      by (auto simp: parts.simps [of n m])
    have "mps dvd length m \<longleftrightarrow> mps dvd length (drop n m)"
      using dvd_length_drop [OF n(2) full.hyps(2)] by simp
    with full p n(2) show ?case
      by (cases "drop n m = []") (auto simp: min_def)
  qed
  have c: "concat (parts n m) = m" using n(1) by (rule concat_parts)
  show ?thesis
    unfolding n_def [symmetric] dev_out_transfers_parts [OF assms n(1)]
    using shape c n(2) by (cases "m = []") (auto simp: mod_eq_0_iff_dvd list_all_iff butlast_append)
qed

theorem dev_out_transfers_legal_witness:
  "concat (dev_out_transfers 512 (512 * TRANSFER_PACKETS) [1, 2, 3]) = [1, 2, 3]"
  by (rule dev_out_transfers_legal [THEN conjunct2, THEN conjunct1]) simp

section \<open>A run of \<open>out_task\<close>\<close>

abbreviation out_task_run :: "out_event list \<Rightarrow> out_state \<Rightarrow> out_state" where
  "out_task_run \<equiv> fold out_task_step"

text \<open>A packet is taken from the queue and all its operations succeed.\<close>

definition packet_events :: "nat \<Rightarrow> nat \<Rightarrow> bytes \<Rightarrow> out_event list" where
  "packet_events mps n m =
     Received (Some m) # replicate (length (the (out_packet_ops mps n m))) (OpDone (Inr ()))"

lemma out_busy_step:
  "out_task_step (OpDone (Inr u)) (s\<lparr>out_pc := OutBusy mps (op # ops)\<rparr>)
     = s\<lparr>out_ops := out_ops s @ [op]\<rparr>\<lparr>out_pc := (if ops = [] then OutRecv mps else OutBusy mps ops)\<rparr>"
  by (simp add: out_task_step.simps)

lemma out_busy_run:
  "ops \<noteq> [] \<Longrightarrow> out_task_run (replicate (length ops) (OpDone (Inr ()))) (s\<lparr>out_pc := OutBusy mps ops\<rparr>)
     = s\<lparr>out_pc := OutRecv mps, out_ops := out_ops s @ ops\<rparr>"
proof (induction ops arbitrary: s)
  case (Cons op ops)
  have "out_task_run (replicate (length (op # ops)) (OpDone (Inr ()))) (s\<lparr>out_pc := OutBusy mps (op # ops)\<rparr>)
    = out_task_run (replicate (length ops) (OpDone (Inr ())))
        (s\<lparr>out_ops := out_ops s @ [op]\<rparr>\<lparr>out_pc := (if ops = [] then OutRecv mps else OutBusy mps ops)\<rparr>)"
    by (simp only: list.size replicate_Suc add_0_right add_Suc_right fold_simps out_busy_step)
  then show ?case
    using Cons.IH [of "s\<lparr>out_ops := out_ops s @ [op]\<rparr>"] by (cases "ops = []") simp_all
qed simp

lemma out_packet_ops_not_Nil: "out_packet_ops mps n m = Some ops \<Longrightarrow> ops \<noteq> []"
  by (cases "m = []") (auto simp: out_packet_ops_def send_parts.simps [of n m] bind_eq_Some_conv
      split: option.splits if_splits)

lemma out_task_packet:
  assumes "out_pc s = OutRecv mps" and "out_packet_ops mps (out_max_transfer_size s) m = Some ops"
  shows "out_task_run (packet_events mps (out_max_transfer_size s) m) s = s\<lparr>out_ops := out_ops s @ ops\<rparr>"
proof -
  have "s\<lparr>out_pc := OutRecv mps, out_ops := out_ops s @ ops\<rparr> = s\<lparr>out_ops := out_ops s @ ops\<rparr>"
    using assms(1) by simp
  then show ?thesis
    using assms out_busy_run [OF out_packet_ops_not_Nil [OF assms(2)], of mps s]
    by (simp add: packet_events_def out_task_step.simps)
qed

lemma out_task_packets:
  assumes "0 < mps" and "0 < out_max_transfer_size s" and "out_pc s = OutRecv mps"
  shows "out_task_run (concat (map (packet_events mps (out_max_transfer_size s)) ms)) s
       = s\<lparr>out_ops := out_ops s @ concat (map (\<lambda>m. the (out_packet_ops mps (out_max_transfer_size s) m)) ms)\<rparr>"
  using assms
proof (induction ms arbitrary: s)
  case (Cons m ms)
  let ?n = "out_max_transfer_size s"
  obtain ops where ops: "out_packet_ops mps ?n m = Some ops"
    using out_packet_ops_returns [OF Cons.prems(1,2)] by blast
  show ?case
    using Cons.IH [of "s\<lparr>out_ops := out_ops s @ ops\<rparr>"] Cons.prems out_task_packet [OF Cons.prems(3) ops]
    by (simp add: ops)
qed simp

text \<open>The packets are sent and the sender is dropped: the endpoint is flushed.\<close>

lemma out_task_drained:
  assumes "0 < mps" and "0 < n"
  shows "\<exists>ops. out_task_run (Started (Inr mps) # concat (map (packet_events mps n) ms) @ [Received None]) (out_task_init n)
           = \<lparr>out_pc = OutFlush, out_ops = ops, out_max_transfer_size = n\<rparr>
         \<and> concat (map op_transfer ops) = concat (map (dev_out_transfers mps n) ms)"
proof -
  let ?s = "\<lparr>out_pc = OutRecv mps, out_ops = [], out_max_transfer_size = n\<rparr>"
  let ?ops = "concat (map (\<lambda>m. the (out_packet_ops mps n m)) ms)"
  have "out_task_run (concat (map (packet_events mps n) ms)) ?s = ?s\<lparr>out_ops := ?ops\<rparr>"
    using out_task_packets [of mps ?s ms] assms by simp
  then have "out_task_run (Started (Inr mps) # concat (map (packet_events mps n) ms) @ [Received None]) (out_task_init n)
    = \<lparr>out_pc = OutFlush, out_ops = ?ops, out_max_transfer_size = n\<rparr>"
    by (simp add: out_task_init_def out_task_step.simps)
  moreover have "concat (map op_transfer ?ops) = concat (map (dev_out_transfers mps n) ms)"
    by (induction ms) (simp_all add: dev_out_transfers_def out_packet_ops_returns assms)
  ultimately show ?thesis by blast
qed

text \<open>
  When the application has sent packets and dropped its sender, and the endpoint accepts
  every operation, \<open>out_task\<close> submits exactly the transfers of these packets in order,
  flushes the endpoint last, and ends without an error.
\<close>

theorem out_task_sends_all:
  assumes "0 < mps" and "0 < n"
  shows "\<exists>ops. out_task_run (Started (Inr mps) # concat (map (packet_events mps n) ms) @ [Received None, OpDone (Inr ())])
             (out_task_init n)
           = \<lparr>out_pc = OutDone (Inr ()), out_ops = ops @ [Flush], out_max_transfer_size = n\<rparr>
         \<and> concat (map op_transfer ops) = concat (map (dev_out_transfers mps n) ms)"
  using out_task_drained [OF assms, of ms] by (auto simp: out_task_step.simps)

theorem out_task_sends_all_witness:
  "\<exists>ops. out_task_run (Started (Inr 2) # concat (map (packet_events 2 4) [[1, 2], []]) @ [Received None, OpDone (Inr ())])
       (out_task_init 4)
     = \<lparr>out_pc = OutDone (Inr ()), out_ops = ops @ [Flush], out_max_transfer_size = 4\<rparr>
   \<and> concat (map op_transfer ops) = concat (map (dev_out_transfers 2 4) [[1, 2], []])"
  by (rule out_task_sends_all) simp_all

text \<open>A finished task does nothing more; an endpoint error finishes it.\<close>

lemma out_task_done [simp]: "out_pc s = OutDone r \<Longrightarrow> out_task_step ev s = s"
  by (cases ev) (simp_all add: out_task_step.simps)

lemma out_task_error:
  "out_pc s = OutBusy mps (op # ops) \<Longrightarrow> out_task_step (OpDone (Inl e)) s = s\<lparr>out_pc := OutDone (Inl e)\<rparr>"
  by (simp add: out_task_step.simps)

end
