(* ===== verification/Device_Main.thy ===== *)
theory Device_Main
  imports Device_Tasks
begin

text \<open>
  The main task of the device, \<open>UpcFunction::task\<close> in \<open>src/device.rs\<close>: the event loop that
  answers control requests, opens and closes connections and supervises the two endpoint
  tasks.

  The state is that of the local variables of the task. A task variable that holds
  \<open>future::pending()\<close> is \<open>None\<close>; otherwise it holds the state of \<open>in_task\<close> or \<open>out_task\<close>,
  which a step of the loop may advance. The value of the CLOSE_SEND watch is kept for the
  task that reads it, the value of the error watch for the current connection.

  What a handler does to the endpoints, to the request and to the application is a list of
  effects in the order of the code. A call whose error the code propagates with \<open>?\<close> ends
  the task; a lock that a live task holds is never released, since that task is not polled
  while a handler waits: the handler is then stuck.
\<close>

section \<open>Effects\<close>

datatype dev_effect =
    LockTx | LockRx
  | CancelTx | CancelRx
  | ControlTx | ControlRx
  | ClearHaltTx | ClearHaltRx
  | DiscardTx | DiscardRx
  | HaltTx | HaltRx
  | MaxPacketSizeTx
  | PrepareRx nat nat
  | RecvAll
  | DropRequest
  | Reply bytes
  | Connect dev_sender dev_receiver
  | SetError error_kind
  | EchoSend bytes
  | EchoFlush

text \<open>The calls whose error is propagated.\<close>

fun propagates :: "dev_effect \<Rightarrow> bool" where
  "propagates CancelTx = True"
| "propagates CancelRx = True"
| "propagates ControlTx = True"
| "propagates ControlRx = True"
| "propagates MaxPacketSizeTx = True"
| "propagates _ = False"

section \<open>State and environment\<close>

record dev_state =
  dv_mps :: "nat option"
  dv_in_task :: "in_state option"
  dv_out_task :: "out_state option"
  dv_in_close :: "u64 option"
  dv_send_open :: bool
  dv_recv_open :: bool
  dv_conn_error :: "error_kind option"
  dv_host_caps :: host_caps
  dv_ping_timeout :: "duration option"
  dv_deadline :: "nat option"

definition dev_init :: dev_state where
  "dev_init =
     \<lparr>dv_mps = None, dv_in_task = None, dv_out_task = None, dv_in_close = None,
      dv_send_open = False, dv_recv_open = False, dv_conn_error = None,
      dv_host_caps = host_caps_default, dv_ping_timeout = dc_ping_timeout device_caps_default,
      dv_deadline = None\<rparr>"

text \<open>
  What a step reads from outside: the configuration, the clock, the largest \<open>usize\<close>, the
  error of a call that fails, the result of \<open>recv_all_async\<close> and the packet size of the
  IN endpoint.
\<close>

record dev_env =
  ev_cfg :: cfg
  ev_now :: nat
  ev_usize_max :: nat
  ev_fail :: "dev_effect \<Rightarrow> io_error option"
  ev_body :: "io_error + bytes"
  ev_mps :: nat

datatype dev_event =
    Unbound | FunctionDropped | EventError io_error
  | Enable | Disable
  | HostToDevice u8 | DeviceToHost u8 | OtherEvent
  | TimeoutSleep
  | InTask in_poll
  | OutTask out_event

text \<open>A step leaves the loop running, ends the task, panics, or waits forever for a lock.\<close>

datatype dev_result =
    Running dev_state "dev_effect list"
  | Ended "io_error + unit" "dev_effect list"
  | Panicked
  | Stuck "dev_effect list"

section \<open>Performing effects\<close>

definition tx_locked :: "dev_state \<Rightarrow> bool" where
  "tx_locked s \<longleftrightarrow> (case dv_out_task s of None \<Rightarrow> False | Some t \<Rightarrow> out_holds_lock t)"

definition rx_locked :: "dev_state \<Rightarrow> bool" where
  "rx_locked s \<longleftrightarrow> (case dv_in_task s of None \<Rightarrow> False | Some t \<Rightarrow> in_holds_lock t)"

datatype stop = Finished | Failed io_error | Waiting

fun perform :: "dev_env \<Rightarrow> bool \<Rightarrow> bool \<Rightarrow> dev_effect list \<Rightarrow> dev_effect list \<times> stop" where
  "perform env tx rx [] = ([], Finished)"
| "perform env tx rx (e # es) =
     (if e = LockTx \<and> tx \<or> e = LockRx \<and> rx then ([], Waiting)
      else case (if propagates e then ev_fail env e else None) of
        Some err \<Rightarrow> ([], Failed err)
      | None \<Rightarrow> (case perform env tx rx es of (done, st) \<Rightarrow> (e # done, st)))"

text \<open>\<open>finish env h es s\<close>: the effects \<open>es\<close>, with the locks held as in state \<open>h\<close>, then state \<open>s\<close>.\<close>

definition finish :: "dev_env \<Rightarrow> dev_state \<Rightarrow> dev_effect list \<Rightarrow> dev_state \<Rightarrow> dev_result" where
  "finish env h es s =
     (case perform env (tx_locked h) (rx_locked h) es of
        (done, Finished) \<Rightarrow> Running s done
      | (done, Failed e) \<Rightarrow> Ended (Inl e) done
      | (done, Waiting) \<Rightarrow> Stuck done)"

section \<open>Handlers\<close>

definition handle_enable :: "dev_env \<Rightarrow> dev_state \<Rightarrow> dev_result" where
  "handle_enable env s =
     finish env s [LockTx, MaxPacketSizeTx]
       (s\<lparr>dv_mps := Some (ev_mps env), dv_host_caps := host_caps_default\<rparr>)"

text \<open>Stop both tasks.\<close>

definition stop_tasks :: "dev_state \<Rightarrow> dev_state" where
  "stop_tasks s = s\<lparr>dv_in_task := None, dv_out_task := None\<rparr>"

text \<open>Clear the queues, the halt status and the hardware FIFOs of both endpoints.\<close>

definition reset_effects :: "dev_effect list" where
  "reset_effects =
     [LockTx, CancelTx, LockRx, CancelRx,
      LockTx, ControlTx, ClearHaltTx, LockRx, ControlRx, ClearHaltRx,
      LockTx, ControlTx, DiscardTx, LockRx, ControlRx, DiscardRx]"

definition handle_disable :: "dev_env \<Rightarrow> dev_state \<Rightarrow> dev_result" where
  "handle_disable env s =
     (let s = stop_tasks s
      in finish env s reset_effects
           (s\<lparr>dv_send_open := False, dv_recv_open := False,
              dv_host_caps := host_caps_default, dv_mps := None\<rparr>))"

definition reset_deadline :: "dev_env \<Rightarrow> dev_state \<Rightarrow> dev_state" where
  "reset_deadline env s =
     (case dv_ping_timeout s of None \<Rightarrow> s | Some d \<Rightarrow> s\<lparr>dv_deadline := Some (ev_now env + d)\<rparr>)"

definition handle_open :: "dev_env \<Rightarrow> dev_state \<Rightarrow> dev_result" where
  "handle_open env s =
     (if dv_send_open s \<or> dv_recv_open s then finish env s [DropRequest] s
      else case dv_mps s of
        None \<Rightarrow> Panicked
      | Some mps \<Rightarrow>
          let max_transfer_size = mps * TRANSFER_PACKETS;
              max_send_size = usize_saturating (ev_usize_max env) (hc_max_size (dv_host_caps s));
              max_recv_size = usize_saturating (ev_usize_max env) (cfg_max_size (ev_cfg env));
              prepare = [LockRx, PrepareRx (cfg_recv_pool_size (ev_cfg env)) max_transfer_size, RecvAll]
          in (case ev_body env of
            Inr topic \<Rightarrow>
              (case connection topic max_transfer_size max_send_size max_recv_size of (ctx, crx) \<Rightarrow>
                 finish env s (prepare @ [Connect ctx crx])
                   (reset_deadline env
                     (s\<lparr>dv_in_task := Some in_task_init,
                        dv_out_task := Some (out_task_init max_transfer_size),
                        dv_in_close := None, dv_send_open := True, dv_recv_open := True,
                        dv_conn_error := None\<rparr>)))
          | Inl err \<Rightarrow> finish env s (prepare @ [LockRx, CancelRx]) s))"

definition handle_close :: "dev_env \<Rightarrow> dev_state \<Rightarrow> dev_result" where
  "handle_close env s =
     (let s = stop_tasks s
      in finish env s (reset_effects @ [RecvAll])
           (s\<lparr>dv_send_open := False, dv_recv_open := False, dv_host_caps := host_caps_default\<rparr>))"

text \<open>The byte count reaches the task that still listens; without one it is lost.\<close>

definition handle_close_send :: "dev_env \<Rightarrow> dev_state \<Rightarrow> dev_result" where
  "handle_close_send env s =
     finish env s [RecvAll]
       (case ev_body env of
          Inr data \<Rightarrow>
            if 8 \<le> length data \<and> dv_in_task s \<noteq> None
            then s\<lparr>dv_in_close := Some (from_le (take 8 data))\<rparr> else s
        | Inl err \<Rightarrow> s)"

definition handle_close_recv :: "dev_env \<Rightarrow> dev_state \<Rightarrow> dev_result" where
  "handle_close_recv env s =
     (if dv_send_open s then
        let s = s\<lparr>dv_out_task := None\<rparr>
        in finish env s [RecvAll, LockTx, CancelTx] (s\<lparr>dv_send_open := False\<rparr>)
      else finish env s [RecvAll] s)"

definition handle_host_caps :: "dev_env \<Rightarrow> dev_state \<Rightarrow> dev_result" where
  "handle_host_caps env s =
     finish env s [RecvAll]
       (case ev_body env of
          Inr data \<Rightarrow> (case host_caps_decode data of Inr caps \<Rightarrow> s\<lparr>dv_host_caps := caps\<rparr> | Inl err \<Rightarrow> s)
        | Inl err \<Rightarrow> s)"

definition handle_echo :: "dev_env \<Rightarrow> dev_state \<Rightarrow> dev_result" where
  "handle_echo env s =
     (if dv_send_open s \<or> dv_recv_open s then finish env s [DropRequest] s
      else finish env s
        (RecvAll # (case ev_body env of Inr data \<Rightarrow> [LockTx, EchoSend data, EchoFlush] | Inl err \<Rightarrow> [])) s)"

definition handle_host_to_device :: "u8 \<Rightarrow> dev_env \<Rightarrow> dev_state \<Rightarrow> dev_result" where
  "handle_host_to_device req env s =
     (if req = OPEN then handle_open env s
      else if req = CLOSE then handle_close env s
      else if req = CLOSE_SEND then handle_close_send env s
      else if req = CLOSE_RECV then handle_close_recv env s
      else if req = CAPABILITIES then handle_host_caps env s
      else if req = ECHO then handle_echo env s
      else finish env s [DropRequest] s)"

definition handle_device_caps :: "dev_env \<Rightarrow> dev_state \<Rightarrow> dev_result" where
  "handle_device_caps env s =
     (let s = s\<lparr>dv_ping_timeout := cfg_ping_timeout (ev_cfg env)\<rparr>;
          caps = \<lparr>dc_ping_timeout = dv_ping_timeout s, dc_status_supported = True,
                  dc_echo_supported = True, dc_max_size = cfg_max_size (ev_cfg env)\<rparr>
      in finish env s [Reply (device_caps_encode caps)] s)"

definition handle_status :: "dev_env \<Rightarrow> dev_state \<Rightarrow> dev_result" where
  "handle_status env s =
     (let s = reset_deadline env s
      in finish env s [Reply (if dv_recv_open s then [] else [RECV_CLOSED])] s)"

definition handle_device_to_host :: "u8 \<Rightarrow> dev_env \<Rightarrow> dev_state \<Rightarrow> dev_result" where
  "handle_device_to_host req env s =
     (if req = PROBE then finish env s [Reply PROBE_RESPONSE] s
      else if req = INFO then finish env s [Reply (cfg_info (ev_cfg env))] s
      else if req = CAPABILITIES then handle_device_caps env s
      else if req = STATUS then handle_status env s
      else finish env s [DropRequest] s)"

text \<open>The guard of the timeout branch, and the branch.\<close>

definition timeout_due :: "dev_env \<Rightarrow> dev_state \<Rightarrow> bool" where
  "timeout_due env s \<longleftrightarrow>
     dv_ping_timeout s \<noteq> None \<and> (dv_send_open s \<or> dv_recv_open s)
     \<and> (case dv_deadline s of None \<Rightarrow> False | Some t \<Rightarrow> t \<le> ev_now env)"

definition handle_timeout :: "dev_env \<Rightarrow> dev_state \<Rightarrow> dev_result" where
  "handle_timeout env s =
     (let s = (stop_tasks s)\<lparr>dv_conn_error := Some TimedOut\<rparr>
      in finish env s [SetError TimedOut, LockTx, CancelTx, LockRx, CancelRx]
           (s\<lparr>dv_send_open := False, dv_recv_open := False\<rparr>))"

definition handle_in_done :: "io_error + bool \<Rightarrow> dev_env \<Rightarrow> dev_state \<Rightarrow> dev_result" where
  "handle_in_done res env s =
     (let s = s\<lparr>dv_in_close := None, dv_in_task := None\<rparr>
      in finish env s
           ([LockRx, CancelRx] @ (if res = Inr False then [LockRx, ControlRx, HaltRx] else []))
           (s\<lparr>dv_recv_open := False\<rparr>))"

definition handle_out_done :: "io_error + unit \<Rightarrow> dev_env \<Rightarrow> dev_state \<Rightarrow> dev_result" where
  "handle_out_done res env s =
     (let s = s\<lparr>dv_send_open := False, dv_out_task := None\<rparr>
      in finish env s [LockTx, ControlTx, HaltTx] s)"

text \<open>
  A turn of an endpoint task, which reads the watch of this loop, and the branch of the
  loop that is taken when the task has ended.
\<close>

definition poll_in_task :: "in_poll \<Rightarrow> dev_env \<Rightarrow> dev_state \<Rightarrow> dev_result" where
  "poll_in_task p env s =
     (case dv_in_task s of
        None \<Rightarrow> Running s []
      | Some t \<Rightarrow>
          let t = in_task_step (p\<lparr>ip_close := dv_in_close s\<rparr>) t
          in (case in_pc t of
               InDone res \<Rightarrow> handle_in_done res env s
             | _ \<Rightarrow> Running (s\<lparr>dv_in_task := Some t\<rparr>) []))"

definition poll_out_task :: "out_event \<Rightarrow> dev_env \<Rightarrow> dev_state \<Rightarrow> dev_result" where
  "poll_out_task e env s =
     (case dv_out_task s of
        None \<Rightarrow> Running s []
      | Some t \<Rightarrow>
          let t = out_task_step e t
          in (case out_pc t of
               OutDone res \<Rightarrow> handle_out_done res env s
             | _ \<Rightarrow> Running (s\<lparr>dv_out_task := Some t\<rparr>) []))"

section \<open>The loop\<close>

definition dev_step :: "dev_event \<Rightarrow> dev_env \<Rightarrow> dev_state \<Rightarrow> dev_result" where
  "dev_step ev env s =
     (case ev of
        Unbound \<Rightarrow> Ended (Inr ()) []
      | FunctionDropped \<Rightarrow> Ended (Inr ()) []
      | EventError e \<Rightarrow> Ended (Inl e) []
      | Enable \<Rightarrow> handle_enable env s
      | Disable \<Rightarrow> handle_disable env s
      | HostToDevice req \<Rightarrow> handle_host_to_device req env s
      | DeviceToHost req \<Rightarrow> handle_device_to_host req env s
      | OtherEvent \<Rightarrow> Running s []
      | TimeoutSleep \<Rightarrow> if timeout_due env s then handle_timeout env s else Running s []
      | InTask p \<Rightarrow> poll_in_task p env s
      | OutTask e \<Rightarrow> poll_out_task e env s)"

text \<open>
  Before the loop the task waits until the function is bound, if its status can be watched;
  an error of that wait ends it.
\<close>

definition dev_start :: "(io_error + unit) option \<Rightarrow> dev_result" where
  "dev_start bound = (case bound of Some (Inl e) \<Rightarrow> Ended (Inl e) [] | _ \<Rightarrow> Running dev_init [])"

text \<open>
  The order in which the branches of the loop's \<open>select!\<close> are tried: the first that is
  ready is taken, and the two endpoint tasks are polled only when nothing else is ready.
\<close>

record dev_polls =
  dp_unbound :: bool
  dp_dropped :: bool
  dp_ep0 :: "dev_event option"
  dp_in :: "in_poll option"
  dp_out :: "out_event option"

definition dev_select :: "dev_polls \<Rightarrow> dev_env \<Rightarrow> dev_state \<Rightarrow> dev_event option" where
  "dev_select p env s =
     (if dp_unbound p then Some Unbound
      else if dp_dropped p then Some FunctionDropped
      else (case dp_ep0 p of Some ev \<Rightarrow> Some ev
        | None \<Rightarrow>
            if timeout_due env s then Some TimeoutSleep
            else (case dp_in p of Some q \<Rightarrow> Some (InTask q)
              | None \<Rightarrow> map_option OutTask (dp_out p))))"

text \<open>States the loop can be in.\<close>

inductive dev_reachable :: "dev_state \<Rightarrow> bool" where
  start: "dev_reachable dev_init"
| step: "dev_reachable s \<Longrightarrow> dev_step ev env s = Running s' es \<Longrightarrow> dev_reachable s'"

section \<open>Invariant\<close>

text \<open>
  A direction is open exactly while its task is alive, no finished task is kept, and a live
  task means that the interface is enabled.
\<close>

definition dev_inv :: "dev_state \<Rightarrow> bool" where
  "dev_inv s \<longleftrightarrow>
     dv_recv_open s = (dv_in_task s \<noteq> None) \<and> dv_send_open s = (dv_out_task s \<noteq> None)
     \<and> (dv_in_task s \<noteq> None \<or> dv_out_task s \<noteq> None \<longrightarrow> dv_mps s \<noteq> None)
     \<and> (\<forall>t. dv_in_task s = Some t \<longrightarrow> in_inv t \<and> (\<forall>r. in_pc t \<noteq> InDone r))
     \<and> (\<forall>t. dv_out_task s = Some t \<longrightarrow> (\<forall>r. out_pc t \<noteq> OutDone r))"

lemma dev_inv_init: "dev_inv dev_init"
  by (simp add: dev_inv_def dev_init_def)

lemma finish_Running [simp]:
  "finish env h es s = Running s' es' \<longleftrightarrow>
     s' = s \<and> perform env (tx_locked h) (rx_locked h) es = (es', Finished)"
  by (auto simp: finish_def split: prod.splits stop.splits)

lemma reset_deadline_simps [simp]:
  "dv_mps (reset_deadline env s) = dv_mps s" "dv_in_task (reset_deadline env s) = dv_in_task s"
  "dv_out_task (reset_deadline env s) = dv_out_task s" "dv_in_close (reset_deadline env s) = dv_in_close s"
  "dv_send_open (reset_deadline env s) = dv_send_open s" "dv_recv_open (reset_deadline env s) = dv_recv_open s"
  "dv_conn_error (reset_deadline env s) = dv_conn_error s" "dv_host_caps (reset_deadline env s) = dv_host_caps s"
  "dv_ping_timeout (reset_deadline env s) = dv_ping_timeout s"
  by (simp_all add: reset_deadline_def split: option.splits)

lemma stop_tasks_simps [simp]:
  "dv_in_task (stop_tasks s) = None" "dv_out_task (stop_tasks s) = None"
  "dv_mps (stop_tasks s) = dv_mps s" "dv_send_open (stop_tasks s) = dv_send_open s"
  "dv_recv_open (stop_tasks s) = dv_recv_open s" "dv_conn_error (stop_tasks s) = dv_conn_error s"
  "dv_host_caps (stop_tasks s) = dv_host_caps s" "dv_ping_timeout (stop_tasks s) = dv_ping_timeout s"
  "dv_deadline (stop_tasks s) = dv_deadline s"
  by (simp_all add: stop_tasks_def)

lemmas host_to_device_defs =
  handle_host_to_device_def handle_open_def handle_close_def handle_close_send_def
  handle_close_recv_def handle_host_caps_def handle_echo_def

lemmas device_to_host_defs =
  handle_device_to_host_def handle_device_caps_def handle_status_def

lemmas supervision_defs =
  handle_enable_def handle_disable_def handle_timeout_def handle_in_done_def handle_out_done_def

text \<open>Each handler keeps the invariant.\<close>

lemma handle_host_to_device_inv:
  "handle_host_to_device req env s = Running s' es \<Longrightarrow> dev_inv s \<Longrightarrow> dev_inv s'"
  by (auto simp: host_to_device_defs Let_def dev_inv_def connection_def in_task_init_def
      out_task_init_def in_inv_def sent_bytes_def split: if_splits sum.splits option.splits)

lemma handle_device_to_host_inv:
  "handle_device_to_host req env s = Running s' es \<Longrightarrow> dev_inv s \<Longrightarrow> dev_inv s'"
  by (auto simp: device_to_host_defs Let_def dev_inv_def split: if_splits)

lemma supervision_inv:
  "handle_enable env s = Running s' es \<Longrightarrow> dev_inv s \<Longrightarrow> dev_inv s'"
  "handle_disable env s = Running s' es \<Longrightarrow> dev_inv s \<Longrightarrow> dev_inv s'"
  "handle_timeout env s = Running s' es \<Longrightarrow> dev_inv s \<Longrightarrow> dev_inv s'"
  "handle_in_done r env s = Running s' es \<Longrightarrow> dev_inv s \<Longrightarrow> dev_inv s'"
  "handle_out_done q env s = Running s' es \<Longrightarrow> dev_inv s \<Longrightarrow> dev_inv s'"
  by (auto simp: supervision_defs Let_def dev_inv_def)

lemma poll_in_task_inv: "poll_in_task p env s = Running s' es \<Longrightarrow> dev_inv s \<Longrightarrow> dev_inv s'"
  by (auto simp: poll_in_task_def Let_def dev_inv_def intro: in_task.step_inv
      dest: supervision_inv(4) split: option.splits in_pc.splits)

lemma poll_out_task_inv: "poll_out_task e env s = Running s' es \<Longrightarrow> dev_inv s \<Longrightarrow> dev_inv s'"
  by (auto simp: poll_out_task_def Let_def dev_inv_def
      dest: supervision_inv(5) split: option.splits out_pc.splits)

lemma dev_step_inv: "dev_step ev env s = Running s' es \<Longrightarrow> dev_inv s \<Longrightarrow> dev_inv s'"
  by (cases ev) (auto simp: dev_step_def dest: handle_host_to_device_inv handle_device_to_host_inv
      supervision_inv poll_in_task_inv poll_out_task_inv split: if_splits)

lemma dev_reachable_inv: "dev_reachable s \<Longrightarrow> dev_inv s"
  by (induction rule: dev_reachable.induct) (auto intro: dev_inv_init dev_step_inv)

text \<open>
  C15. In every state the loop reaches, a direction of the connection is open exactly while
  its endpoint task is alive, no finished task is left behind, and a connection exists only
  while the interface is enabled.
\<close>

theorem dev_open_iff_task:
  assumes "dev_reachable s"
  shows "dv_recv_open s = (dv_in_task s \<noteq> None) \<and> dv_send_open s = (dv_out_task s \<noteq> None)
    \<and> (dv_send_open s \<or> dv_recv_open s \<longrightarrow> dv_mps s \<noteq> None)
    \<and> (\<forall>t. dv_in_task s = Some t \<longrightarrow> in_total t = of_nat (sent_bytes t))"
  using dev_reachable_inv [OF assms] by (auto simp: dev_inv_def in_inv_def)

theorem dev_open_iff_task_witness:
  "dv_recv_open dev_init = (dv_in_task dev_init \<noteq> None)"
  using dev_open_iff_task [OF dev_reachable.start] by blast

section \<open>Locks\<close>

lemma perform_waits:
  "snd (perform env tx rx es) = Waiting \<Longrightarrow> LockTx \<in> set es \<and> tx \<or> LockRx \<in> set es \<and> rx"
  by (induction es) (auto split: if_splits option.splits prod.splits)

lemma finish_Stuck:
  "finish env h es s = Stuck fs \<Longrightarrow> LockTx \<in> set es \<and> tx_locked h \<or> LockRx \<in> set es \<and> rx_locked h"
  using perform_waits [of env "tx_locked h" "rx_locked h" es]
  by (auto simp: finish_def split: prod.splits stop.splits)

lemma finish_not_Panicked [simp]: "finish env h es s \<noteq> Panicked"
  by (auto simp: finish_def split: prod.splits stop.splits)

lemma locked_simps [simp]:
  "\<not> tx_locked (stop_tasks s)" "\<not> rx_locked (stop_tasks s)"
  "dv_out_task s = None \<Longrightarrow> \<not> tx_locked s" "dv_in_task s = None \<Longrightarrow> \<not> rx_locked s"
  by (simp_all add: tx_locked_def rx_locked_def)

lemma dev_inv_closed:
  "dev_inv s \<Longrightarrow> \<not> dv_send_open s \<Longrightarrow> dv_out_task s = None"
  "dev_inv s \<Longrightarrow> \<not> dv_recv_open s \<Longrightarrow> dv_in_task s = None"
  by (auto simp: dev_inv_def)

lemma finish_not_Stuck:
  "(LockTx \<in> set es \<longrightarrow> \<not> tx_locked h) \<Longrightarrow> (LockRx \<in> set es \<longrightarrow> \<not> rx_locked h) \<Longrightarrow> finish env h es s \<noteq> Stuck fs"
  using finish_Stuck by blast

lemma handle_open_not_Stuck: "dev_inv s \<Longrightarrow> handle_open env s \<noteq> Stuck es"
  using dev_inv_closed [of s]
  by (simp add: handle_open_def Let_def connection_def finish_not_Stuck split: option.split sum.split)

lemma handle_close_not_Stuck [simp]: "handle_close env s \<noteq> Stuck es" "handle_disable env s \<noteq> Stuck es"
  by (simp_all add: handle_close_def handle_disable_def Let_def finish_not_Stuck)

lemma handle_close_recv_not_Stuck [simp]: "handle_close_recv env s \<noteq> Stuck es"
  by (simp add: handle_close_recv_def Let_def finish_not_Stuck tx_locked_def)

lemma handle_caps_not_Stuck [simp]:
  "handle_close_send env s \<noteq> Stuck es" "handle_host_caps env s \<noteq> Stuck es"
  by (simp_all add: handle_close_send_def handle_host_caps_def finish_not_Stuck)

lemma handle_echo_not_Stuck: "dev_inv s \<Longrightarrow> handle_echo env s \<noteq> Stuck es"
  using dev_inv_closed [of s] by (simp add: handle_echo_def finish_not_Stuck split: sum.split)

lemma host_to_device_not_Stuck: "dev_inv s \<Longrightarrow> handle_host_to_device req env s \<noteq> Stuck es"
  by (simp add: handle_host_to_device_def handle_open_not_Stuck handle_echo_not_Stuck finish_not_Stuck)

lemma device_to_host_not_Stuck: "handle_device_to_host req env s \<noteq> Stuck es"
  by (simp add: device_to_host_defs Let_def finish_not_Stuck)

lemma supervision_not_Stuck:
  "handle_timeout env s \<noteq> Stuck es" "handle_in_done r env s \<noteq> Stuck es"
  "handle_out_done q env s \<noteq> Stuck es"
  by (simp_all add: handle_timeout_def handle_in_done_def handle_out_done_def Let_def finish_not_Stuck
      stop_tasks_def tx_locked_def rx_locked_def)

lemma poll_not_Stuck: "poll_in_task p env s \<noteq> Stuck es" "poll_out_task e env s \<noteq> Stuck es"
  by (auto simp: poll_in_task_def poll_out_task_def Let_def supervision_not_Stuck
      split: option.splits in_pc.splits out_pc.splits)

text \<open>
  C16. Freedom from deadlock: in every state the loop reaches, no event except Enable makes
  its handler wait for an endpoint lock that a task holds; every handler drops the task
  that holds the lock first.
\<close>

theorem dev_never_stuck:
  assumes "dev_reachable s" and "ev \<noteq> Enable"
  shows "dev_step ev env s \<noteq> Stuck es"
  using dev_reachable_inv [OF assms(1)] assms(2)
  by (cases ev) (simp_all add: dev_step_def host_to_device_not_Stuck device_to_host_not_Stuck
      supervision_not_Stuck poll_not_Stuck)

theorem dev_never_stuck_witness: "\<forall>env es. dev_step (HostToDevice CLOSE) env dev_init \<noteq> Stuck es"
  by (intro allI dev_never_stuck [OF dev_reachable.start]) simp

text \<open>Enable locks the IN endpoint whether or not its task is alive.\<close>

lemma enable_Stuck_iff: "(dev_step Enable env s = Stuck []) = tx_locked s"
  by (cases "tx_locked s"; cases "ev_fail env MaxPacketSizeTx")
    (simp_all add: dev_step_def handle_enable_def finish_def)

section \<open>Panics\<close>

lemma handle_open_Panicked:
  "(handle_open env s = Panicked) = (dv_mps s = None \<and> \<not> dv_send_open s \<and> \<not> dv_recv_open s)"
  by (simp add: handle_open_def Let_def connection_def split: option.split sum.split)

lemma host_to_device_Panicked:
  "(handle_host_to_device req env s = Panicked) = (req = OPEN \<and> handle_open env s = Panicked)"
  by (simp add: handle_host_to_device_def handle_close_def handle_close_send_def
      handle_close_recv_def handle_host_caps_def handle_echo_def Let_def)

lemma device_to_host_Panicked [simp]: "handle_device_to_host req env s \<noteq> Panicked"
  by (simp add: device_to_host_defs Let_def)

lemma supervision_Panicked [simp]:
  "handle_enable env s \<noteq> Panicked" "handle_disable env s \<noteq> Panicked"
  "handle_timeout env s \<noteq> Panicked" "handle_in_done r env s \<noteq> Panicked"
  "handle_out_done q env s \<noteq> Panicked"
  by (simp_all add: supervision_defs Let_def)

lemma poll_Panicked [simp]: "poll_in_task p env s \<noteq> Panicked" "poll_out_task e env s \<noteq> Panicked"
  by (simp_all add: poll_in_task_def poll_out_task_def Let_def
      split: option.split in_pc.split out_pc.split)

text \<open>
  The only panic of the loop is the one of an OPEN that arrives on a closed connection
  before the interface has been enabled.
\<close>

theorem dev_panics_iff:
  "(dev_step ev env s = Panicked) =
     (ev = HostToDevice OPEN \<and> dv_mps s = None \<and> \<not> dv_send_open s \<and> \<not> dv_recv_open s)"
  by (cases ev) (auto simp: dev_step_def host_to_device_Panicked handle_open_Panicked)

end
