(* ===== verification/Device_Connection.thy ===== *)
theory Device_Connection
  imports Device_Main
begin

text \<open>
  The life of a connection as the main task of the device (theory Device_Main) runs it: an
  abstract machine of the two directions which the task implements, runs of the task over
  lists of events, the ping timeout, what the application sees when a connection breaks,
  and the handshake of a host.
\<close>

section \<open>Runs\<close>

fun dev_run :: "(dev_event \<times> dev_env) list \<Rightarrow> dev_state \<Rightarrow> dev_result" where
  "dev_run [] s = Running s []"
| "dev_run ((ev, env) # evs) s =
     (case dev_step ev env s of
        Running s' es \<Rightarrow>
          (case dev_run evs s' of
             Running s'' fs \<Rightarrow> Running s'' (es @ fs)
           | Ended r fs \<Rightarrow> Ended r (es @ fs)
           | Panicked \<Rightarrow> Panicked
           | Stuck fs \<Rightarrow> Stuck (es @ fs))
      | r \<Rightarrow> r)"

lemma dev_run_Cons:
  "dev_step ev env s = Running s' es \<Longrightarrow> dev_run evs s' = Running s'' fs \<Longrightarrow>
     dev_run ((ev, env) # evs) s = Running s'' (es @ fs)"
  by simp

lemma dev_run_ConsE:
  assumes "dev_run ((ev, env) # evs) s = Running s'' gs"
  obtains s' es fs where "dev_step ev env s = Running s' es" "dev_run evs s' = Running s'' fs"
    "gs = es @ fs"
  using assms by (auto split: dev_result.splits)

declare dev_run.simps(2) [simp del]

lemma dev_run_reachable: "dev_run evs s = Running s' es \<Longrightarrow> dev_reachable s \<Longrightarrow> dev_reachable s'"
proof (induction evs arbitrary: s es)
  case (Cons e evs)
  then show ?case by (cases e) (auto elim!: dev_run_ConsE intro: dev_reachable.step)
qed simp

section \<open>The two directions\<close>

text \<open>
  The abstract machine of a connection: which directions are open, and a function that tells
  for each thing that can happen what becomes of them. OPEN opens both directions when both
  are closed and its topic arrives; CLOSE, Disable and the ping timeout close both; each
  direction can close alone, the send direction by CLOSE_RECV or by the end of \<open>out_task\<close>, the
  receive direction by the end of \<open>in_task\<close>; nothing else changes them.
\<close>

datatype conn_event = OpenBoth bool | CloseBoth | CloseSending | CloseReceiving | NoChange

fun conn_next :: "conn_event \<Rightarrow> bool \<times> bool \<Rightarrow> bool \<times> bool" where
  "conn_next (OpenBoth arrived) (sending, receiving) =
     (if arrived \<and> \<not> sending \<and> \<not> receiving then (True, True) else (sending, receiving))"
| "conn_next CloseBoth c = (False, False)"
| "conn_next CloseSending (sending, receiving) = (False, receiving)"
| "conn_next CloseReceiving (sending, receiving) = (sending, False)"
| "conn_next NoChange c = c"

text \<open>
  What an event of the main task is to this machine. The topic of OPEN is the data of the request;
  the timer strikes when there is a ping timeout and the deadline has passed; the turn of an
  endpoint task counts when the task ends in it.
\<close>

definition timer_strikes :: "dev_env \<Rightarrow> dev_state \<Rightarrow> bool" where
  "timer_strikes env s \<longleftrightarrow>
     (case (dv_ping_timeout s, dv_deadline s) of (Some d, Some t) \<Rightarrow> t \<le> ev_now env | _ \<Rightarrow> False)"

definition in_task_ends :: "in_poll \<Rightarrow> dev_state \<Rightarrow> bool" where
  "in_task_ends p s \<longleftrightarrow>
     (case dv_in_task s of
        None \<Rightarrow> False
      | Some t \<Rightarrow> (case in_pc (in_task_step (p\<lparr>ip_close := dv_in_close s\<rparr>) t) of InDone r \<Rightarrow> True | _ \<Rightarrow> False))"

definition out_task_ends :: "out_event \<Rightarrow> dev_state \<Rightarrow> bool" where
  "out_task_ends e s \<longleftrightarrow>
     (case dv_out_task s of
        None \<Rightarrow> False
      | Some t \<Rightarrow> (case out_pc (out_task_step e t) of OutDone r \<Rightarrow> True | _ \<Rightarrow> False))"

definition conn_event_of :: "dev_event \<Rightarrow> dev_env \<Rightarrow> dev_state \<Rightarrow> conn_event" where
  "conn_event_of ev env s =
     (case ev of
        HostToDevice req \<Rightarrow>
          if req = OPEN then OpenBoth (case ev_body env of Inr topic \<Rightarrow> True | Inl err \<Rightarrow> False)
          else if req = CLOSE then CloseBoth
          else if req = CLOSE_RECV then CloseSending
          else NoChange
      | Disable \<Rightarrow> CloseBoth
      | TimeoutSleep \<Rightarrow> if timer_strikes env s then CloseBoth else NoChange
      | OutTask e \<Rightarrow> if out_task_ends e s then CloseSending else NoChange
      | InTask p \<Rightarrow> if in_task_ends p s then CloseReceiving else NoChange
      | _ \<Rightarrow> NoChange)"

definition dev_conn :: "dev_state \<Rightarrow> bool \<times> bool" where
  "dev_conn s = (dv_send_open s, dv_recv_open s)"

lemma finish_running_state: "finish env h es s = Running s' fs \<Longrightarrow> s' = s"
  by simp

lemma host_to_device_conn:
  "handle_host_to_device req env s = Running s' es \<Longrightarrow>
     dev_conn s' = conn_next (conn_event_of (HostToDevice req) env s) (dev_conn s)"
  by (auto simp: host_to_device_defs Let_def connection_def dev_conn_def conn_event_of_def code_consts
      split: if_splits option.splits sum.splits)

lemma device_to_host_conn:
  "handle_device_to_host req env s = Running s' es \<Longrightarrow> dev_conn s' = dev_conn s"
  by (auto simp: device_to_host_defs Let_def dev_conn_def split: if_splits)

lemma timeout_conn:
  "dev_step TimeoutSleep env s = Running s' es \<Longrightarrow>
     dev_conn s' = conn_next (conn_event_of TimeoutSleep env s) (dev_conn s)"
  by (auto simp: dev_step_def handle_timeout_def timeout_due_def timer_strikes_def conn_event_of_def dev_conn_def
      Let_def split: if_splits option.splits)

lemma poll_conn:
  "poll_in_task p env s = Running s' es \<Longrightarrow> dev_conn s' = conn_next (conn_event_of (InTask p) env s) (dev_conn s)"
  "poll_out_task e env s = Running s' es \<Longrightarrow> dev_conn s' = conn_next (conn_event_of (OutTask e) env s) (dev_conn s)"
  by (auto simp: poll_in_task_def poll_out_task_def handle_in_done_def handle_out_done_def Let_def
      conn_event_of_def in_task_ends_def out_task_ends_def dev_conn_def
      split: option.splits in_pc.splits out_pc.splits)

lemma dev_step_conn:
  assumes "dev_step ev env s = Running s' es"
  shows "dev_conn s' = conn_next (conn_event_of ev env s) (dev_conn s)"
  using assms host_to_device_conn [of _ env s s' es] device_to_host_conn [of _ env s s' es]
    poll_conn [of _ env s s' es] timeout_conn [of env s s' es]
  by (cases ev) (auto simp: dev_step_def handle_enable_def handle_disable_def Let_def dev_conn_def
      conn_event_of_def [of Enable] conn_event_of_def [of Disable] conn_event_of_def [of "DeviceToHost _"]
      conn_event_of_def [of OtherEvent])

text \<open>
  C1. Refinement: on the two directions every step of the main task is exactly the step of the
  abstract machine. CLOSE, Disable and the ping timeout close both directions whenever they are
  handled, OPEN opens both whenever both are closed and its topic arrives, CLOSE_RECV and the
  end of \<open>out_task\<close> close the send direction and the end of \<open>in_task\<close> the receive direction,
  and leave the other one alone; no other event changes either.
\<close>

theorem dev_refines_conn:
  assumes "dev_step ev env s = Running s' es"
  shows "dev_conn s' = conn_next (conn_event_of ev env s) (dev_conn s)"
  using assms by (rule dev_step_conn)

text \<open>An environment in which no call fails, for evaluation on examples.\<close>

definition quiet_env :: dev_env where
  "quiet_env =
     \<lparr>ev_cfg = cfg_default, ev_now = 0, ev_usize_max = 2 ^ 64 - 1, ev_fail = (\<lambda>e. None),
      ev_body = Inr [], ev_mps = 512\<rparr>"

text \<open>A state with an open connection whose tasks have taken their locks.\<close>

definition open_state :: dev_state where
  "open_state =
     dev_init\<lparr>dv_mps := Some 512, dv_in_task := Some (in_task_init\<lparr>in_pc := InCheck\<rparr>),
       dv_out_task := Some ((out_task_init (512 * TRANSFER_PACKETS))\<lparr>out_pc := OutRecv 512\<rparr>),
       dv_send_open := True, dv_recv_open := True,
       dv_ping_timeout := Some (from_secs 10), dv_deadline := Some (from_secs 10)\<rparr>"

definition open_events :: "(dev_event \<times> dev_env) list" where
  "open_events =
     [(Enable, quiet_env), (DeviceToHost CAPABILITIES, quiet_env), (HostToDevice OPEN, quiet_env), (InTask (idle_poll None), quiet_env),
      (OutTask (Started (Inr 512)), quiet_env)]"

lemma perform_ok [simp]:
  "\<forall>e. ev_fail env e = None \<Longrightarrow> perform env False False es = (es, Finished)"
  by (induction es) auto

lemma quiet_env_simps [simp]:
  "ev_fail quiet_env e = None" "ev_cfg quiet_env = cfg_default" "ev_now quiet_env = 0"
  "ev_body quiet_env = Inr []" "ev_mps quiet_env = 512" "ev_usize_max quiet_env = 2 ^ 64 - 1"
  by (simp_all add: quiet_env_def)

lemma open_events_run: "\<exists>es. dev_run open_events dev_init = Running open_state es"
  by (simp add: open_events_def dev_run.simps(2) dev_step_def handle_enable_def dev_init_def
      finish_def handle_host_to_device_def handle_device_to_host_def handle_device_caps_def
      handle_open_def Let_def connection_def reset_deadline_def code_consts cfg_default_def
      poll_in_task_def poll_out_task_def in_task_init_def in_task_step_defs out_task_init_def
      out_task_step.simps open_state_def device_caps_default_def)

lemma open_state_simps [simp]:
  "dv_mps open_state = Some 512" "dv_send_open open_state" "dv_recv_open open_state"
  "dv_in_task open_state = Some (in_task_init\<lparr>in_pc := InCheck\<rparr>)" "dv_conn_error open_state = None"
  "dv_out_task open_state = Some ((out_task_init (512 * TRANSFER_PACKETS))\<lparr>out_pc := OutRecv 512\<rparr>)"
  "dv_ping_timeout open_state = Some (from_secs 10)" "dv_deadline open_state = Some (from_secs 10)"
  by (simp_all add: open_state_def dev_init_def)

lemma open_state_reachable: "dev_reachable open_state"
  using open_events_run dev_run_reachable [OF _ dev_reachable.start] by blast

theorem dev_refines_conn_witness:
  "\<exists>s' es. dev_step (HostToDevice CLOSE_RECV) quiet_env open_state = Running s' es \<and> dev_conn s' = (False, True)"
proof -
  obtain s' es where step: "dev_step (HostToDevice CLOSE_RECV) quiet_env open_state = Running s' es"
    by (simp add: dev_step_def handle_host_to_device_def handle_close_recv_def Let_def finish_def code_consts
        tx_locked_def rx_locked_def in_holds_lock_def)
  from dev_refines_conn [OF step] show ?thesis
    using step by (simp add: dev_conn_def conn_event_of_def code_consts)
qed

section \<open>Enable while the device sends\<close>

text \<open>
  C39. The main task can lock itself out: there is a reachable state, with an open connection
  whose \<open>out_task\<close> holds the lock of the IN endpoint, in which an Enable event makes the
  loop wait for that lock; the task that would release it is polled only by this loop.
\<close>

theorem dev_enable_deadlock:
  "\<exists>s. dev_reachable s \<and> dv_send_open s \<and> (\<forall>env. dev_step Enable env s = Stuck [])"
proof (intro exI conjI)
  show "dev_reachable open_state" by (rule open_state_reachable)
  show "dv_send_open open_state" by (simp add: open_state_def)
  show "\<forall>env. dev_step Enable env open_state = Stuck []"
    by (simp add: enable_Stuck_iff tx_locked_def open_state_def out_holds_lock_def)
qed

section \<open>Closing and opening\<close>

text \<open>
  CLOSE brings every reachable state back to a closed connection: both endpoint tasks
  are dropped, the queues, halts and FIFOs of both endpoints are cleared before the request
  is answered, and the capabilities of the host are forgotten. It keeps the ping timeout.
\<close>

theorem dev_close_resets:
  assumes "\<forall>e. ev_fail env e = None"
  shows "dev_step (HostToDevice CLOSE) env s =
    Running (s\<lparr>dv_in_task := None, dv_out_task := None, dv_send_open := False, dv_recv_open := False,
               dv_host_caps := host_caps_default\<rparr>)
      ([LockTx, CancelTx, LockRx, CancelRx,
        LockTx, ControlTx, ClearHaltTx, LockRx, ControlRx, ClearHaltRx,
        LockTx, ControlTx, DiscardTx, LockRx, ControlRx, DiscardRx] @ [RecvAll])"
  using assms by (simp add: dev_step_def handle_host_to_device_def handle_close_def Let_def finish_def
      code_consts reset_effects_def stop_tasks_def)

theorem dev_close_resets_witness:
  "\<exists>s es. dev_step (HostToDevice CLOSE) quiet_env open_state = Running s es \<and> \<not> dv_recv_open s"
  by (subst dev_close_resets) simp_all

text \<open>The control requests of a host that connects.\<close>

definition handshake ::
  "dev_env \<Rightarrow> dev_env \<Rightarrow> dev_env \<Rightarrow> dev_env \<Rightarrow> (dev_event \<times> dev_env) list" where
  "handshake e1 e2 e3 e4 =
     [(HostToDevice CLOSE, e1), (DeviceToHost CAPABILITIES, e2), (HostToDevice CAPABILITIES, e3),
      (HostToDevice OPEN, e4)]"

text \<open>The answer of the device to the capability query.\<close>

definition device_answer :: "cfg \<Rightarrow> bytes" where
  "device_answer c =
     device_caps_encode \<lparr>dc_ping_timeout = cfg_ping_timeout c, dc_status_supported = True,
       dc_echo_supported = True, dc_max_size = cfg_max_size c\<rparr>"

lemma handshake_run:
  assumes "dv_mps s = Some mps"
    and "\<forall>env\<in>{e1, e2, e3, e4}. \<forall>e. ev_fail env e = None"
    and "ev_body e3 = Inr (host_caps_encode caps)" and "ev_body e4 = Inr topic"
  shows "\<exists>s' es. dev_run (handshake e1 e2 e3 e4) s = Running s' es
    \<and> last es = Connect \<lparr>ds_max_size = min (unat (hc_max_size caps)) (ev_usize_max e4)\<rparr>
        \<lparr>dr_topic = topic, dr_buffer = [], dr_max_size = min (unat (cfg_max_size (ev_cfg e4))) (ev_usize_max e4),
         dr_max_transfer_size = mps * TRANSFER_PACKETS\<rparr>
    \<and> dv_in_task s' = Some in_task_init \<and> dv_out_task s' = Some (out_task_init (mps * TRANSFER_PACKETS))
    \<and> dv_in_close s' = None \<and> dv_conn_error s' = None \<and> dv_send_open s' \<and> dv_recv_open s'
    \<and> dv_ping_timeout s' = cfg_ping_timeout (ev_cfg e2)
    \<and> Reply (device_answer (ev_cfg e2)) \<in> set es
    \<and> (\<forall>d. cfg_ping_timeout (ev_cfg e2) = Some d \<longrightarrow> dv_deadline s' = Some (ev_now e4 + d))"
  using assms
  by (auto simp: handshake_def dev_run.simps(2) dev_step_def handle_host_to_device_def
      handle_device_to_host_def handle_close_def handle_device_caps_def handle_host_caps_def
      handle_open_def Let_def finish_def code_consts connection_def usize_saturating_min
      reset_deadline_def caps_received device_answer_def split: option.splits)

text \<open>
  The handshake of a host. From any state of an enabled interface, whatever an earlier
  host has left behind, CLOSE, the exchange of capabilities and OPEN give one new
  connection. Its sender is limited by the size that the host advertised, its receiver by
  the configured size, both tasks start afresh, the error of an earlier connection is gone
  and the ping timeout starts at the moment of OPEN.
\<close>

theorem dev_handshake:
  assumes "dv_mps s = Some mps"
    and "\<forall>env\<in>{e1, e2, e3, e4}. \<forall>e. ev_fail env e = None"
    and "ev_body e3 = Inr (host_caps_encode caps)" and "ev_body e4 = Inr topic"
  shows "\<exists>s' es. dev_run (handshake e1 e2 e3 e4) s = Running s' es
    \<and> last es = Connect \<lparr>ds_max_size = min (unat (hc_max_size caps)) (ev_usize_max e4)\<rparr>
        \<lparr>dr_topic = topic, dr_buffer = [], dr_max_size = min (unat (cfg_max_size (ev_cfg e4))) (ev_usize_max e4),
         dr_max_transfer_size = mps * TRANSFER_PACKETS\<rparr>
    \<and> dv_in_task s' = Some in_task_init \<and> dv_out_task s' = Some (out_task_init (mps * TRANSFER_PACKETS))
    \<and> dv_in_close s' = None \<and> dv_conn_error s' = None \<and> dv_send_open s' \<and> dv_recv_open s'
    \<and> dv_ping_timeout s' = cfg_ping_timeout (ev_cfg e2)
    \<and> Reply (device_answer (ev_cfg e2)) \<in> set es
    \<and> (\<forall>d. cfg_ping_timeout (ev_cfg e2) = Some d \<longrightarrow> dv_deadline s' = Some (ev_now e4 + d))"
  using assms by (rule handshake_run)

theorem dev_handshake_witness:
  "\<exists>s' es. dev_run (handshake quiet_env quiet_env (quiet_env\<lparr>ev_body := Inr (host_caps_encode host_caps_default)\<rparr>)
       (quiet_env\<lparr>ev_now := 7\<rparr>)) open_state = Running s' es
     \<and> dv_deadline s' = Some (7 + from_secs 10)"
  using dev_handshake [of open_state 512 quiet_env quiet_env
      "quiet_env\<lparr>ev_body := Inr (host_caps_encode host_caps_default)\<rparr>" "quiet_env\<lparr>ev_now := 7\<rparr>"
      host_caps_default "[]"]
  by (auto simp: cfg_default_def)

section \<open>The ping timeout\<close>

text \<open>Only OPEN and STATUS move the deadline.\<close>

definition keeps_alive :: "dev_event \<Rightarrow> bool" where
  "keeps_alive ev \<longleftrightarrow> ev = HostToDevice OPEN \<or> ev = DeviceToHost STATUS"

lemma dev_step_deadline:
  "dev_step ev env s = Running s' es \<Longrightarrow> \<not> keeps_alive ev \<Longrightarrow> dv_deadline s' = dv_deadline s"
  by (cases ev)
    (auto simp: dev_step_def keeps_alive_def handle_host_to_device_def handle_device_to_host_def
      handle_close_def handle_close_send_def handle_close_recv_def handle_host_caps_def handle_echo_def
      handle_device_caps_def supervision_defs poll_in_task_def poll_out_task_def Let_def
      split: if_splits sum.splits option.splits in_pc.splits out_pc.splits)

lemma dev_run_deadline:
  "dev_run evs s = Running s' es \<Longrightarrow> \<forall>(ev, env)\<in>set evs. \<not> keeps_alive ev \<Longrightarrow>
     dv_deadline s' = dv_deadline s"
proof (induction evs arbitrary: s es)
  case (Cons e evs)
  then show ?case by (cases e) (auto elim!: dev_run_ConsE simp: dev_step_deadline)
qed simp

lemma status_deadline:
  "dv_ping_timeout s = Some d \<Longrightarrow> dev_step (DeviceToHost STATUS) env s = Running s' es \<Longrightarrow>
     dv_deadline s' = Some (ev_now env + d)"
  by (auto simp: dev_step_def handle_device_to_host_def handle_status_def Let_def reset_deadline_def code_consts)

text \<open>
  C14. The ping timeout is exact: after a STATUS request at time \<open>t\<close>, and until the next
  STATUS or OPEN, the timeout branch is taken at a moment exactly when the connection is
  still open and at least the ping timeout has passed since \<open>t\<close>. A host that asks for the
  status more often than that is never timed out.
\<close>

theorem dev_timeout_exact:
  assumes "dv_ping_timeout s = Some d" and "dev_step (DeviceToHost STATUS) e0 s = Running s1 es"
    and "dev_run evs s1 = Running s2 fs" and "\<forall>(ev, env)\<in>set evs. \<not> keeps_alive ev"
  shows "timeout_due env s2 \<longleftrightarrow>
    dv_ping_timeout s2 \<noteq> None \<and> (dv_send_open s2 \<or> dv_recv_open s2) \<and> ev_now e0 + d \<le> ev_now env"
  using dev_run_deadline [OF assms(3,4)] status_deadline [OF assms(1,2)]
  by (auto simp: timeout_due_def)

theorem dev_timeout_exact_witness:
  "\<exists>s1 es. dev_step (DeviceToHost STATUS) quiet_env open_state = Running s1 es
     \<and> \<not> timeout_due (quiet_env\<lparr>ev_now := from_secs 9\<rparr>) s1
     \<and> timeout_due (quiet_env\<lparr>ev_now := from_secs 10\<rparr>) s1"
proof -
  have s: "dev_step (DeviceToHost STATUS) quiet_env open_state = Running open_state [Reply []]"
    by (simp add: dev_step_def handle_device_to_host_def handle_status_def code_consts Let_def finish_def
        reset_deadline_def)
  have "timeout_due env open_state \<longleftrightarrow> dv_ping_timeout open_state \<noteq> None
      \<and> (dv_send_open open_state \<or> dv_recv_open open_state)
      \<and> ev_now quiet_env + from_secs 10 \<le> ev_now env" for env
    by (rule dev_timeout_exact [of open_state, OF _ s, of _ "[]"]) simp_all
  with s show ?thesis by (auto simp: from_secs_def)
qed

text \<open>
  When the ping timeout strikes, both directions are closed, both endpoint tasks are
  dropped and both endpoints cancelled, and both ends of the application learn of it: the
  receiver, once its queue is empty, returns an error of kind \<open>TimedOut\<close>, and so does the
  sender for every packet within its limit.
\<close>

theorem dev_timeout_reported:
  assumes "timeout_due env s" and "\<forall>e. ev_fail env e = None"
  shows "\<exists>s'. dev_step TimeoutSleep env s = Running s' [SetError TimedOut, LockTx, CancelTx, LockRx, CancelRx]
    \<and> \<not> dv_send_open s' \<and> \<not> dv_recv_open s' \<and> dv_in_task s' = None \<and> dv_out_task s' = None
    \<and> (\<forall>r. dev_recv True (dv_conn_error s') r [] = (Ready (Inl (channel_error TimedOut)), r, []))
    \<and> (\<forall>snd data. length data \<le> ds_max_size snd \<longrightarrow>
          dev_send (\<lambda>d. False) (dv_conn_error s') snd data = Inl (channel_error TimedOut))"
  using assms by (simp add: dev_step_def handle_timeout_def Let_def finish_def dev_send_def)

theorem dev_timeout_reported_witness:
  "\<exists>s'. dev_step TimeoutSleep (quiet_env\<lparr>ev_now := from_secs 11\<rparr>) open_state
     = Running s' [SetError TimedOut, LockTx, CancelTx, LockRx, CancelRx]"
  using dev_timeout_reported [of "quiet_env\<lparr>ev_now := from_secs 11\<rparr>" open_state]
  by (auto simp: timeout_due_def from_secs_def)

section \<open>What ends a direction\<close>

text \<open>While a direction is open the error watch of its connection is empty.\<close>

definition error_inv :: "dev_state \<Rightarrow> bool" where
  "error_inv s \<longleftrightarrow> (dv_in_task s \<noteq> None \<or> dv_out_task s \<noteq> None \<longrightarrow> dv_conn_error s = None)"

lemma dev_step_error_inv: "dev_step ev env s = Running s' es \<Longrightarrow> error_inv s \<Longrightarrow> error_inv s'"
  by (cases ev)
    (auto simp: dev_step_def handle_host_to_device_def handle_device_to_host_def handle_open_def
      handle_close_def handle_close_send_def handle_close_recv_def handle_host_caps_def handle_echo_def
      handle_device_caps_def handle_status_def supervision_defs poll_in_task_def poll_out_task_def Let_def
      error_inv_def connection_def
      split: if_splits sum.splits option.splits in_pc.splits out_pc.splits)

lemma dev_reachable_error_inv: "dev_reachable s \<Longrightarrow> error_inv s"
proof (induction rule: dev_reachable.induct)
  case start
  show ?case by (simp add: error_inv_def dev_init_def)
next
  case step
  then show ?case by (blast intro: dev_step_error_inv)
qed

text \<open>
  C40. When the OUT endpoint fails while the connection is open, the receive direction closes
  without recording the error, so the receiver of the application reports a regular end
  of the stream.
\<close>

theorem dev_receive_failure_reads_as_end:
  assumes "dev_reachable s" and "dv_in_task s = Some t" and "in_pc t = InReceive"
    and "ip_recv p = Ready (Inl e)" and "\<forall>e. ev_fail env e = None"
  shows "\<exists>s' es. dev_step (InTask p) env s = Running s' es \<and> \<not> dv_recv_open s'
    \<and> dev_stream True (dv_conn_error s') r [] = ([], True)"
proof -
  have "dv_conn_error s = None"
    using dev_reachable_error_inv [OF assms(1)] assms(2) by (simp add: error_inv_def)
  then show ?thesis
    using assms(2-5)
    by (simp add: dev_step_def poll_in_task_def in_task_step_defs handle_in_done_def Let_def finish_def
        tx_locked_def rx_locked_def dev_stream.simps split: option.split)
qed

theorem dev_receive_failure_reads_as_end_witness:
  "\<exists>s s' es. dev_reachable s
     \<and> dev_step (InTask ((idle_poll None)\<lparr>ip_recv := Ready (Inl (channel_error BrokenPipe))\<rparr>)) quiet_env s
         = Running s' es
     \<and> \<not> dv_recv_open s'"
proof -
  let ?s = "open_state\<lparr>dv_in_task := Some (in_task_init\<lparr>in_pc := InReceive\<rparr>)\<rparr>"
  have "\<exists>es. dev_run [(InTask (idle_poll None), quiet_env), (InTask (idle_poll None), quiet_env)] open_state
      = Running ?s es"
    by (simp add: dev_run.simps(2) dev_step_def poll_in_task_def in_task_step_defs idle_poll_def
        in_task_init_def open_state_def dev_init_def)
  then have r: "dev_reachable ?s" using dev_run_reachable open_state_reachable by blast
  show ?thesis
    using dev_receive_failure_reads_as_end [OF r, of "in_task_init\<lparr>in_pc := InReceive\<rparr>"
        "(idle_poll None)\<lparr>ip_recv := Ready (Inl (channel_error BrokenPipe))\<rparr>"
        "channel_error BrokenPipe" quiet_env] r
    by fastforce
qed

lemma no_halt [simp]:
  "HaltRx \<notin> set reset_effects" "HaltTx \<notin> set reset_effects"
  by (simp_all add: reset_effects_def)

lemma finish_effects: "finish env h es s = Running s' fs \<Longrightarrow> set fs \<subseteq> set es"
proof -
  have "set (fst (perform env tx rx es)) \<subseteq> set es" for tx rx
    by (induction es) (auto split: option.splits prod.splits)
  then show "finish env h es s = Running s' fs \<Longrightarrow> ?thesis"
    by (metis finish_Running fst_conv)
qed

lemma perform_Finished: "perform env tx rx es = (fs, Finished) \<Longrightarrow> fs = es"
  by (induction es arbitrary: fs) (auto split: if_splits option.splits prod.splits)

lemma finish_all [dest!]: "finish env h es s = Running s' fs \<Longrightarrow> s' = s \<and> fs = es"
  using perform_Finished by auto

definition halts :: "dev_effect \<Rightarrow> bool" where
  "halts e \<longleftrightarrow> e = HaltTx \<or> e = HaltRx"

lemma handlers_no_halt:
  "handle_host_to_device req env s = Running s' es \<Longrightarrow> e \<in> set es \<Longrightarrow> \<not> halts e"
  "handle_device_to_host req env s = Running s' es \<Longrightarrow> e \<in> set es \<Longrightarrow> \<not> halts e"
  "handle_enable env s = Running s' es \<Longrightarrow> e \<in> set es \<Longrightarrow> \<not> halts e"
  "handle_disable env s = Running s' es \<Longrightarrow> e \<in> set es \<Longrightarrow> \<not> halts e"
  "handle_timeout env s = Running s' es \<Longrightarrow> e \<in> set es \<Longrightarrow> \<not> halts e"
  subgoal
    by (auto simp: handle_host_to_device_def handle_open_def handle_close_def handle_close_send_def
        handle_close_recv_def handle_host_caps_def handle_echo_def Let_def halts_def connection_def
        reset_effects_def simp del: finish_Running split: if_splits option.splits sum.splits)
  by (auto simp: device_to_host_defs handle_enable_def handle_disable_def handle_timeout_def Let_def
      halts_def reset_effects_def simp del: finish_Running split: if_splits)

lemma poll_in_task_effects:
  "poll_in_task p env s = Running s' es \<Longrightarrow> HaltTx \<notin> set es \<and> (HaltRx \<in> set es \<longleftrightarrow>
     (\<exists>t. dv_in_task s = Some t \<and> in_pc (in_task_step (p\<lparr>ip_close := dv_in_close s\<rparr>) t) = InDone (Inr False)))"
  by (auto simp: poll_in_task_def handle_in_done_def Let_def simp del: finish_Running
      split: option.splits in_pc.splits if_splits)

lemma poll_out_task_effects:
  "poll_out_task e env s = Running s' es \<Longrightarrow> HaltRx \<notin> set es \<and> (HaltTx \<in> set es \<longleftrightarrow>
     (\<exists>t r. dv_out_task s = Some t \<and> out_pc (out_task_step e t) = OutDone r))"
  by (auto simp: poll_out_task_def handle_out_done_def Let_def simp del: finish_Running
      split: option.splits out_pc.splits)

text \<open>
  How the device tells the host of a half-close. The OUT endpoint is halted exactly
  when \<open>in_task\<close> ends because the application has dropped its receiver, not when the
  announced bytes have all arrived or the endpoint has failed; the IN endpoint is halted
  exactly when \<open>out_task\<close> ends.
\<close>

theorem dev_halts_iff:
  assumes "dev_step ev env s = Running s' es"
  shows "(HaltRx \<in> set es \<longleftrightarrow> (\<exists>p t. ev = InTask p \<and> dv_in_task s = Some t
            \<and> in_pc (in_task_step (p\<lparr>ip_close := dv_in_close s\<rparr>) t) = InDone (Inr False)))
       \<and> (HaltTx \<in> set es \<longleftrightarrow> (\<exists>e t r. ev = OutTask e \<and> dv_out_task s = Some t
            \<and> out_pc (out_task_step e t) = OutDone r))"
proof (cases ev)
  case (InTask p)
  with assms poll_in_task_effects [of p env s s' es] show ?thesis by (simp add: dev_step_def)
next
  case (OutTask e)
  with assms poll_out_task_effects [of e env s s' es] show ?thesis by (simp add: dev_step_def)
next
  case (HostToDevice req)
  with assms handlers_no_halt(1) [of req env s s' es] show ?thesis by (auto simp: dev_step_def halts_def)
next
  case (DeviceToHost req)
  with assms handlers_no_halt(2) [of req env s s' es] show ?thesis by (auto simp: dev_step_def halts_def)
qed (use assms handlers_no_halt(3-5) [of env s s' es] in \<open>auto simp: dev_step_def halts_def split: if_splits\<close>)

theorem dev_halts_iff_witness:
  "\<exists>s es. dev_step (InTask ((idle_poll None)\<lparr>ip_reserve := Ready False\<rparr>)) quiet_env
     (open_state\<lparr>dv_in_task := Some (in_task_init\<lparr>in_pc := InReserve\<rparr>)\<rparr>) = Running s es \<and> HaltRx \<in> set es"
proof -
  let ?p = "(idle_poll None)\<lparr>ip_reserve := Ready False\<rparr>"
  let ?s = "open_state\<lparr>dv_in_task := Some (in_task_init\<lparr>in_pc := InReserve\<rparr>)\<rparr>"
  obtain s es where r: "dev_step (InTask ?p) quiet_env ?s = Running s es"
    by (simp add: dev_step_def poll_in_task_def in_task_step_defs idle_poll_def handle_in_done_def
        finish_def rx_locked_def tx_locked_def out_holds_lock_def del: finish_Running
        split: prod.splits stop.splits)
  with dev_halts_iff [OF r] show ?thesis
    by (fastforce simp: in_task_step_defs idle_poll_def)
qed

lemma requests_distinct [simp]:
  "ECHO \<noteq> OPEN" "ECHO \<noteq> CLOSE" "ECHO \<noteq> CLOSE_SEND" "ECHO \<noteq> CLOSE_RECV" "ECHO \<noteq> CAPABILITIES"
  "OPEN \<noteq> CLOSE" "OPEN \<noteq> CLOSE_SEND" "OPEN \<noteq> CLOSE_RECV" "OPEN \<noteq> CAPABILITIES"
  by (simp_all add: code_consts)

lemmas requests_distinct_sym [simp] = requests_distinct [symmetric]

lemma open_echo_refuse:
  "handle_open env s = Running s' es \<Longrightarrow>
     (DropRequest \<in> set es \<longleftrightarrow> dv_send_open s \<or> dv_recv_open s) \<and> (DropRequest \<in> set es \<longrightarrow> s' = s)"
  "handle_echo env s = Running s' es \<Longrightarrow>
     (DropRequest \<in> set es \<longleftrightarrow> dv_send_open s \<or> dv_recv_open s) \<and> (DropRequest \<in> set es \<longrightarrow> s' = s)"
  by (auto simp: handle_open_def handle_echo_def Let_def connection_def simp del: finish_Running
      split: if_splits option.splits sum.splits)

lemma others_accept:
  "handle_close env s = Running s' es \<Longrightarrow> DropRequest \<notin> set es"
  "handle_close_send env s = Running s' es \<Longrightarrow> DropRequest \<notin> set es"
  "handle_close_recv env s = Running s' es \<Longrightarrow> DropRequest \<notin> set es"
  "handle_host_caps env s = Running s' es \<Longrightarrow> DropRequest \<notin> set es"
  by (auto simp: handle_close_def handle_close_send_def handle_close_recv_def handle_host_caps_def Let_def
      reset_effects_def simp del: finish_Running split: if_splits)

lemma host_to_device_refuses:
  assumes "handle_host_to_device req env s = Running s' es"
  shows "(DropRequest \<in> set es \<longleftrightarrow> req \<notin> {OPEN, CLOSE, CLOSE_SEND, CLOSE_RECV, CAPABILITIES, ECHO}
            \<or> req \<in> {OPEN, ECHO} \<and> (dv_send_open s \<or> dv_recv_open s))
       \<and> (DropRequest \<in> set es \<longrightarrow> s' = s)"
proof -
  consider "req = OPEN" | "req = ECHO" | "req \<in> {CLOSE, CLOSE_SEND, CLOSE_RECV, CAPABILITIES}"
      "req \<noteq> OPEN" "req \<noteq> ECHO"
    | "req \<notin> {OPEN, CLOSE, CLOSE_SEND, CLOSE_RECV, CAPABILITIES, ECHO}"
    by blast
  then show ?thesis
  proof cases
    case 1
    with assms open_echo_refuse(1) [of env s s' es] show ?thesis by (simp add: handle_host_to_device_def)
  next
    case 2
    with assms open_echo_refuse(2) [of env s s' es] show ?thesis by (simp add: handle_host_to_device_def)
  next
    case 3
    with assms others_accept [of env s s' es] have "DropRequest \<notin> set es"
      by (simp add: handle_host_to_device_def split: if_split_asm)
    with 3 show ?thesis by blast
  next
    case 4
    with assms have "s' = s \<and> es = [DropRequest]"
      by (simp add: handle_host_to_device_def finish_all del: finish_Running)
    with 4 show ?thesis by simp
  qed
qed

lemma device_to_host_refuses:
  assumes "handle_device_to_host req env s = Running s' es"
  shows "(DropRequest \<in> set es \<longleftrightarrow> req \<notin> {PROBE, INFO, CAPABILITIES, STATUS})
       \<and> (DropRequest \<in> set es \<longrightarrow> s' = s)"
  using assms by (auto simp: device_to_host_defs Let_def simp del: finish_Running split: if_splits)

lemma supervision_refuses:
  "handle_enable env s = Running s' es \<Longrightarrow> DropRequest \<notin> set es"
  "handle_disable env s = Running s' es \<Longrightarrow> DropRequest \<notin> set es"
  "handle_timeout env s = Running s' es \<Longrightarrow> DropRequest \<notin> set es"
  "handle_in_done r env s = Running s' es \<Longrightarrow> DropRequest \<notin> set es"
  "handle_out_done q env s = Running s' es \<Longrightarrow> DropRequest \<notin> set es"
  by (auto simp: supervision_defs Let_def reset_effects_def simp del: finish_Running split: if_splits)

lemma poll_refuses:
  "poll_in_task p env s = Running s' es \<Longrightarrow> DropRequest \<notin> set es"
  "poll_out_task e env s = Running s' es \<Longrightarrow> DropRequest \<notin> set es"
  by (auto simp: poll_in_task_def poll_out_task_def Let_def dest!: supervision_refuses
      split: option.splits in_pc.splits out_pc.splits)

text \<open>
  A control request is refused (its endpoint stalled) exactly when it is unknown, or an
  OPEN or ECHO that arrives while a direction of the connection is open; then it changes
  nothing.
\<close>

theorem dev_refuses_iff:
  assumes "dev_step ev env s = Running s' es"
  shows "(DropRequest \<in> set es \<longleftrightarrow>
      (\<exists>req. ev = HostToDevice req \<and> (req \<notin> {OPEN, CLOSE, CLOSE_SEND, CLOSE_RECV, CAPABILITIES, ECHO}
          \<or> req \<in> {OPEN, ECHO} \<and> (dv_send_open s \<or> dv_recv_open s)))
      \<or> (\<exists>req. ev = DeviceToHost req \<and> req \<notin> {PROBE, INFO, CAPABILITIES, STATUS}))
    \<and> (DropRequest \<in> set es \<longrightarrow> s' = s)"
proof (cases ev)
  case (HostToDevice req)
  with assms host_to_device_refuses [of req env s s' es] show ?thesis by (simp add: dev_step_def)
next
  case (DeviceToHost req)
  with assms device_to_host_refuses [of req env s s' es] show ?thesis by (simp add: dev_step_def)
qed (use assms supervision_refuses(1-3) [of env s s' es] poll_refuses [of _ env s s' es]
  in \<open>simp_all add: dev_step_def split: if_split_asm\<close>)

theorem dev_refuses_iff_witness:
  "\<exists>es. dev_step (HostToDevice OPEN) quiet_env open_state = Running open_state es \<and> DropRequest \<in> set es"
proof -
  have r: "dev_step (HostToDevice OPEN) quiet_env open_state = Running open_state [DropRequest]"
    by (simp add: dev_step_def handle_host_to_device_def handle_open_def finish_def)
  have "DropRequest \<in> set [DropRequest]" using dev_refuses_iff [OF r] by simp
  with r show ?thesis by (intro exI [of _ "[DropRequest]"] conjI)
qed

end
