(* ===== verification/Host_Channel.thy ===== *)
theory Host_Channel
  imports Upc_Capabilities Packet_Interfaces
begin

text \<open>
  The application side of a host, \<open>src/host/mod.rs\<close>, which both backends share: the options,
  the packet sender and the packet receiver.

  The queue of received transfers is filled by another task while \<open>recv\<close> drains it. What
  the receiver can observe of the timing is where \<open>try_recv\<close> finds the queue empty, so a
  queue is a list of waves: \<open>recv\<close> waits for the next wave, and \<open>try_recv\<close> takes what is
  left of the current one.
\<close>

section \<open>Options and status\<close>

record device_status =
  st_recv_closed :: bool
  st_dead :: bool

definition device_status_default :: device_status where
  "device_status_default = \<lparr>st_recv_closed = False, st_dead = False\<rparr>"

record upc_options =
  opt_topic :: bytes
  opt_ping_interval :: "duration option"
  opt_max_size :: nat

definition options_new :: upc_options where
  "options_new = \<lparr>opt_topic = [], opt_ping_interval = Some (from_secs 5), opt_max_size = MAX_SIZE\<rparr>"

definition with_topic :: "bytes \<Rightarrow> upc_options \<Rightarrow> upc_options" where
  "with_topic t o' = o'\<lparr>opt_topic := t\<rparr>"

definition with_ping_interval :: "duration option \<Rightarrow> upc_options \<Rightarrow> upc_options" where
  "with_ping_interval d o' = o'\<lparr>opt_ping_interval := d\<rparr>"

definition with_max_size :: "nat \<Rightarrow> upc_options \<Rightarrow> upc_options" where
  "with_max_size n o' = o'\<lparr>opt_max_size := n\<rparr>"

text \<open>
  The interval of the status requests, which both backends compute: at most half the ping
  timeout of the device, at most the requested interval, none if the device does not answer
  STATUS.
\<close>

definition status_interval :: "device_caps \<Rightarrow> upc_options \<Rightarrow> duration option" where
  "status_interval caps o' =
     (if dc_status_supported caps then
        (case (opt_ping_interval o', dc_ping_timeout caps) of
           (Some ping_interval, Some ping_timeout) \<Rightarrow> Some (min ping_interval (ping_timeout div 2))
         | (None, Some ping_timeout) \<Rightarrow> Some (ping_timeout div 2)
         | (Some ping_interval, None) \<Rightarrow> Some ping_interval
         | (None, None) \<Rightarrow> None)
      else None)"

section \<open>Sender\<close>

record host_sender =
  hs_max_size :: nat

text \<open>
  \<open>tx_send data\<close> is whether the packet was put into the queue; \<open>err\<close> is the shared error
  of the tasks, of the backend's type, which \<open>to_io_err\<close> converts.
\<close>

definition host_send ::
  "(bytes \<Rightarrow> bool) \<Rightarrow> ('e \<Rightarrow> io_error) \<Rightarrow> 'e option \<Rightarrow> host_sender \<Rightarrow> bytes \<Rightarrow> io_error + unit" where
  "host_send tx_send to_io_err err s data =
     (if hs_max_size s < length data then
        Inl (Error InvalidInput (SizeExceeds (length data) (hs_max_size s)))
      else if tx_send data then Inr ()
      else Inl (case map_option to_io_err err of Some e \<Rightarrow> e | None \<Rightarrow> channel_error BrokenPipe))"

section \<open>Received transfers\<close>

text \<open>
  \<open>RecvPacket\<close>: a buffer, the number of bytes received into it, and whether it is a
  zero-copy buffer of the driver (never, for the web backend).
\<close>

record recv_packet =
  rp_buffer :: bytes
  rp_actual_len :: nat
  rp_is_zero_copy :: bool

definition rp_data :: "recv_packet \<Rightarrow> bytes" where
  "rp_data p = take (rp_actual_len p) (rp_buffer p)"

definition rp_into_vec :: "recv_packet \<Rightarrow> bytes" where
  "rp_into_vec p = take (rp_actual_len p) (rp_buffer p)"

lemma rp_into_vec_data [simp]: "rp_into_vec p = rp_data p"
  by (simp add: rp_into_vec_def rp_data_def)

section \<open>Receiver\<close>

record host_receiver =
  hr_buffer :: bytes
  hr_max_size :: nat
  hr_max_transfer_size :: nat

definition oversized :: io_error where
  "oversized = Error OutOfMemory (Text ''maximum packet size exceeded'')"

text \<open>
  The loop over \<open>try_recv\<close>: the packets taken from the wave, the value of \<open>short\<close> after
  it, and what is left of the wave.
\<close>

fun drain :: "nat \<Rightarrow> recv_packet list \<Rightarrow> recv_packet list \<times> bool \<times> recv_packet list" where
  "drain max_transfer_size [] = ([], False, [])"
| "drain max_transfer_size (p # ps) =
     (if length (rp_data p) < max_transfer_size then ([p], True, ps)
      else (case drain max_transfer_size ps of (batch, short, rest) \<Rightarrow> (p # batch, short, rest)))"

text \<open>
  The copy of a batch into the buffer: an empty buffer adopts the allocation of the first
  packet unless that is zero-copy; the others are appended.
\<close>

definition extend_buffer :: "bytes \<Rightarrow> recv_packet list \<Rightarrow> bytes" where
  "extend_buffer buffer batch =
     (case batch of
        [] \<Rightarrow> buffer
      | p # ps \<Rightarrow>
          if buffer = [] \<and> \<not> rp_is_zero_copy p then rp_into_vec p @ concat (map rp_data ps)
          else buffer @ concat (map rp_data batch))"

definition take_batch :: "nat \<Rightarrow> recv_packet \<Rightarrow> recv_packet list \<Rightarrow> recv_packet list \<times> bool \<times> recv_packet list" where
  "take_batch max_transfer_size first wave =
     (if length (rp_data first) < max_transfer_size then ([first], True, wave)
      else (case drain max_transfer_size wave of (batch, short, rest) \<Rightarrow> (first # batch, short, rest)))"

lemma drain_all: "drain n ps = (batch, False, rest) \<Longrightarrow> rest = []"
  by (induction ps arbitrary: batch) (auto split: if_splits prod.splits)

lemma drain_length: "drain n ps = (batch, short, rest) \<Longrightarrow> length rest \<le> length ps"
  by (induction ps arbitrary: batch) (fastforce split: if_splits prod.splits)+

lemma take_batch_length: "take_batch n first wave = (batch, short, rest) \<Longrightarrow> length rest \<le> length wave"
  by (auto simp: take_batch_def dest: drain_length split: if_splits prod.splits)

text \<open>
  \<open>recv\<close>, on the waves \<open>q\<close> of the queue, which is then closed or still open; \<open>err\<close> is the
  shared error, already converted.
\<close>

function host_recv ::
  "bool \<Rightarrow> io_error option \<Rightarrow> host_receiver \<Rightarrow> recv_packet list list
     \<Rightarrow> (io_error + bytes option) poll \<times> host_receiver \<times> recv_packet list list" where
  "host_recv closed err r [] =
     (if closed then Ready (case err of Some e \<Rightarrow> Inl e | None \<Rightarrow> Inr None) else Pending, r, [])"
| "host_recv closed err r ([] # q) = host_recv closed err r q"
| "host_recv closed err r ((first # wave) # q) =
     (case take_batch (hr_max_transfer_size r) first wave of (batch, short, rest) \<Rightarrow>
        let r = r\<lparr>hr_buffer := extend_buffer (hr_buffer r) batch\<rparr>
        in if hr_max_size r < length (hr_buffer r) then
             (Ready (Inl oversized), r\<lparr>hr_buffer := []\<rparr>, rest # q)
           else if short then
             (Ready (Inr (Some (hr_buffer r))), r\<lparr>hr_buffer := []\<rparr>, rest # q)
           else host_recv closed err r (rest # q))"
  by pat_completeness auto
termination
  by (relation "measures [\<lambda>(closed, err, r, q). length (concat q), \<lambda>(closed, err, r, q). length q]")
    (auto dest!: take_batch_length [OF sym])

declare host_recv.simps(3) [simp del]

lemma extend_buffer_append: "batch \<noteq> [] \<Longrightarrow> extend_buffer buffer batch = buffer @ concat (map rp_data batch)"
  by (auto simp: extend_buffer_def split: list.splits)

lemma take_batch_drain: "take_batch n first wave = drain n (first # wave)"
  by (simp add: take_batch_def)

text \<open>\<open>into_stream\<close>: the packets of successive calls, up to an error or the end.\<close>

lemma host_recv_shrinks:
  "host_recv closed err r q = (Ready (Inr (Some p)), r', q') \<Longrightarrow> length (concat q') < length (concat q)"
proof (induction closed err r q rule: host_recv.induct)
  case (3 closed err r first wave q)
  then show ?case
    by (fastforce simp: host_recv.simps(3) Let_def split: prod.splits if_splits dest: take_batch_length)
qed (auto split: if_splits option.splits)

function host_stream ::
  "bool \<Rightarrow> io_error option \<Rightarrow> host_receiver \<Rightarrow> recv_packet list list \<Rightarrow> (io_error + bytes) list \<times> bool" where
  "host_stream closed err r q =
     (case host_recv closed err r q of
        (Pending, r', q') \<Rightarrow> ([], False)
      | (Ready (Inl e), r', q') \<Rightarrow> ([Inl e], True)
      | (Ready (Inr None), r', q') \<Rightarrow> ([], True)
      | (Ready (Inr (Some p)), r', q') \<Rightarrow>
          (case host_stream closed err r' q' of (ps, end) \<Rightarrow> (Inr p # ps, end)))"
  by pat_completeness auto
termination
  by (relation "measure (\<lambda>(closed, err, r, q). length (concat q))") (auto dest: host_recv_shrinks [OF sym])

declare host_stream.simps [simp del]

section \<open>Correctness of the receiver\<close>

text \<open>The transfers that a queue hands out, whatever its waves.\<close>

definition queue_data :: "recv_packet list list \<Rightarrow> bytes list" where
  "queue_data q = map rp_data (concat q)"

lemma queue_data_simps [simp]:
  "queue_data [] = []" "queue_data (w # q) = map rp_data w @ queue_data q"
  by (simp_all add: queue_data_def)

text \<open>What a drained wave contains, when the queue continues with the transfers of a packet.\<close>

lemma drain_transfers:
  assumes "0 < n" and "map rp_data ps @ xs = transfers n m @ ts" and "drain n ps = (batch, short, rest)"
  shows "if short then concat (map rp_data batch) = m \<and> map rp_data rest @ xs = ts
         else rest = [] \<and> (\<exists>a c. m = a @ c \<and> concat (map rp_data batch) = a \<and> xs = transfers n c @ ts)"
  using assms(2,3)
proof (induction ps arbitrary: m batch)
  case Nil
  then show ?case by auto
next
  case (Cons p ps)
  show ?case
  proof (cases "length m < n")
    case True
    with Cons.prems show ?thesis by auto
  next
    case False
    then have p: "rp_data p = take n m" "map rp_data ps @ xs = transfers n (drop n m) @ ts"
      using Cons.prems(1) assms(1) by (simp_all add: transfers_full)
    obtain b where b: "drain n ps = (b, short, rest)" "batch = p # b"
      using Cons.prems(2) p(1) False by (auto split: prod.splits)
    show ?thesis
    proof (cases short)
      case True
      with Cons.IH [OF p(2) b(1)] b(2) p(1) show ?thesis by simp
    next
      case False
      with Cons.IH [OF p(2) b(1)] obtain a c where
        "rest = []" "drop n m = a @ c" "concat (map rp_data b) = a" "xs = transfers n c @ ts"
        by auto
      moreover from this(2) have "m = (take n m @ a) @ c" using append_take_drop_id [of n m] by simp
      ultimately show ?thesis using False b(2) p(1) by (auto intro!: exI [of _ c])
    qed
  qed
qed

lemma drain_not_Nil: "drain n (p # ps) = (batch, short, rest) \<Longrightarrow> batch \<noteq> []"
  by (auto split: if_splits prod.splits)

text \<open>A batch that ends inside a packet, ends it, or makes it too big.\<close>

lemma host_recv_step:
  assumes "drain (hr_max_transfer_size r) (first # wave) = (batch, short, rest)"
  shows "host_recv closed err r ((first # wave) # q) =
    (let r = r\<lparr>hr_buffer := hr_buffer r @ concat (map rp_data batch)\<rparr>
     in if hr_max_size r < length (hr_buffer r) then (Ready (Inl oversized), r\<lparr>hr_buffer := []\<rparr>, rest # q)
        else if short then (Ready (Inr (Some (hr_buffer r))), r\<lparr>hr_buffer := []\<rparr>, rest # q)
        else host_recv closed err r (rest # q))"
  using assms drain_not_Nil [OF assms] extend_buffer_append [of batch "hr_buffer r"]
  by (simp add: host_recv.simps(3) take_batch_drain)

text \<open>Induction along the batches of a call.\<close>

lemma host_recv_batches [case_names empty_queue empty_wave batch]:
  fixes P :: "host_receiver \<Rightarrow> recv_packet list list \<Rightarrow> bool"
  assumes "\<And>r. P r []" and "\<And>r q. P r q \<Longrightarrow> P r ([] # q)"
    and "\<And>r first wave q.
      (\<And>batch rest. drain (hr_max_transfer_size r) (first # wave) = (batch, False, rest) \<Longrightarrow>
         length (hr_buffer r @ concat (map rp_data batch)) \<le> hr_max_size r \<Longrightarrow>
         P (r\<lparr>hr_buffer := hr_buffer r @ concat (map rp_data batch)\<rparr>) (rest # q)) \<Longrightarrow>
      P r ((first # wave) # q)"
  shows "P r q"
proof (rule host_recv.induct [of "\<lambda>closed err r q. P r q" False None])
  fix r :: host_receiver and first wave q
  assume IH: "\<And>batch y short rest ra.
    (batch, y) = take_batch (hr_max_transfer_size r) first wave \<Longrightarrow> (short, rest) = y \<Longrightarrow>
    ra = r\<lparr>hr_buffer := extend_buffer (hr_buffer r) batch\<rparr> \<Longrightarrow>
    \<not> hr_max_size ra < length (hr_buffer ra) \<Longrightarrow> \<not> short \<Longrightarrow> P ra (rest # q)"
  show "P r ((first # wave) # q)"
  proof (rule assms(3))
    fix batch rest
    assume "drain (hr_max_transfer_size r) (first # wave) = (batch, False, rest)"
      "length (hr_buffer r @ concat (map rp_data batch)) \<le> hr_max_size r"
    then show "P (r\<lparr>hr_buffer := hr_buffer r @ concat (map rp_data batch)\<rparr>) (rest # q)"
      using IH [of batch "(False, rest)" False rest] drain_not_Nil [of _ first wave batch]
        extend_buffer_append [of batch "hr_buffer r"]
      by (simp add: take_batch_drain)
  qed
qed (use assms in auto)

lemma host_recv_transfers:
  assumes "0 < hr_max_transfer_size r" and "queue_data q = transfers (hr_max_transfer_size r) m @ ts"
    and "length (hr_buffer r @ m) \<le> hr_max_size r"
  shows "\<exists>q'. host_recv closed err r q = (Ready (Inr (Some (hr_buffer r @ m))), r\<lparr>hr_buffer := []\<rparr>, q')
           \<and> queue_data q' = ts"
  using assms
proof (induction r q arbitrary: m rule: host_recv_batches)
  case (batch r first wave q)
  let ?n = "hr_max_transfer_size r"
  obtain batch short rest where d: "drain ?n (first # wave) = (batch, short, rest)"
    by (metis prod_cases3)
  note shape = drain_transfers [OF batch.prems(1) batch.prems(2) [unfolded queue_data_simps] d]
  show ?case
  proof (cases short)
    case True
    with shape batch.prems(3) show ?thesis
      by (auto simp: host_recv_step [OF d] Let_def)
  next
    case False
    with shape obtain a c where ac: "rest = []" "m = a @ c" "concat (map rp_data batch) = a"
      "queue_data q = transfers ?n c @ ts" by auto
    then have fits: "length (hr_buffer r @ concat (map rp_data batch)) \<le> hr_max_size r"
      using batch.prems(3) by simp
    from batch.IH [OF d [unfolded False [THEN eq_False [THEN iffD2]]] fits, of c] ac batch.prems
    show ?thesis
      using False fits by (simp add: host_recv_step [OF d] Let_def)
  qed
qed simp_all

definition host_ready :: "nat \<Rightarrow> nat \<Rightarrow> host_receiver \<Rightarrow> bool" where
  "host_ready max_transfer max_packet r \<longleftrightarrow>
     0 < max_transfer \<and> hr_buffer r = [] \<and> hr_max_transfer_size r = max_transfer \<and> hr_max_size r = max_packet"

lemma host_ready_clear: "host_ready T L r \<Longrightarrow> r\<lparr>hr_buffer := []\<rparr> = r"
  by (simp add: host_ready_def)

lemma host_recv_one:
  assumes "host_ready T L r" and "length m \<le> L" and "queue_data q = transfers T m @ ts"
  shows "\<exists>q'. host_recv closed err r q = (Ready (Inr (Some m)), r, q') \<and> queue_data q' = ts"
  using host_recv_transfers [of r q m ts closed err] assms host_ready_clear [OF assms(1)]
  by (simp add: host_ready_def)

interpretation host: packet_receiver "host_recv closed err" queue_data "host_ready T L" T L
  for closed err T L
  by unfold_locales (use host_recv_one in blast)

lemma host_stream_run:
  assumes "host_ready n L r" and "\<forall>m\<in>set ms. length m \<le> L"
    and "queue_data q = concat (map (transfers n) ms)"
  shows "host_stream closed err r q
       = (map Inr ms @ (case err of Some e \<Rightarrow> if closed then [Inl e] else [] | None \<Rightarrow> []), closed)"
  using assms(2,3)
proof (induction ms arbitrary: q)
  case Nil
  have "host_recv closed err r q =
      (if closed then Ready (case err of Some e \<Rightarrow> Inl e | None \<Rightarrow> Inr None) else Pending, r, [])"
    using Nil.prems(2) by (induction q) (auto simp: neq_Nil_conv)
  then show ?case by (simp add: host_stream.simps split: option.splits)
next
  case (Cons m ms)
  obtain q' where "host_recv closed err r q = (Ready (Inr (Some m)), r, q')"
      "queue_data q' = concat (map (transfers n) ms)"
    using host_recv_one [OF assms(1), of m q "concat (map (transfers n) ms)" closed err] Cons.prems by auto
  with Cons.IH [of q'] Cons.prems(1) show ?case
    by (subst host_stream.simps) simp
qed

text \<open>Packets for examples.\<close>

definition plain_packet :: "bytes \<Rightarrow> recv_packet" where
  "plain_packet d = \<lparr>rp_buffer = d, rp_actual_len = length d, rp_is_zero_copy = False\<rparr>"

lemma rp_data_plain [simp]: "rp_data (plain_packet d) = d"
  by (simp add: plain_packet_def rp_data_def)

text \<open>
  The stream of a host receiver does not depend on how the arrival of transfers
  interleaves with the calls: for every division of the queue into waves, and for zero-copy
  buffers or others, the packets come out whole and in order, and then the stream waits,
  ends, or ends with the shared error.
\<close>

theorem host_stream_packets:
  assumes "host_ready n L r" and "\<forall>m\<in>set ms. length m \<le> L"
    and "queue_data q = concat (map (transfers n) ms)"
  shows "host_stream closed err r q
       = (map Inr ms @ (case err of Some e \<Rightarrow> if closed then [Inl e] else [] | None \<Rightarrow> []), closed)"
  using assms by (rule host_stream_run)

theorem host_stream_packets_witness:
  "host_stream True None \<lparr>hr_buffer = [], hr_max_size = 4, hr_max_transfer_size = 2\<rparr>
     [[plain_packet [1, 2]], [plain_packet [3], plain_packet []], [], [plain_packet [4]]]
   = ([Inr [1, 2, 3], Inr [], Inr [4]], True)"
  by (subst host_stream_packets [where n = 2 and L = 4 and ms = "[[1, 2, 3], [], [4]]"])
    (simp_all add: host_ready_def transfers_full)

text \<open>
  Cancel safety: a call of \<open>recv\<close> of the host that was still waiting when it was dropped
  has lost nothing; the next call on the waves that come later returns what one call on all
  waves would have returned.
\<close>

theorem host_recv_cancel_safe:
  assumes "host_recv False err r xs = (Pending, r', q')"
  shows "q' = [] \<and> host_recv closed err r (xs @ ys) = host_recv closed err r' ys"
  using assms
proof (induction r xs rule: host_recv_batches)
  case (batch r first wave q)
  obtain batch short rest where d: "drain (hr_max_transfer_size r) (first # wave) = (batch, short, rest)"
    by (metis prod_cases3)
  with batch.prems have fits: "length (hr_buffer r @ concat (map rp_data batch)) \<le> hr_max_size r"
      and short: "short = False"
    by (auto simp: host_recv_step [OF d] Let_def split: if_splits)
  from batch.IH [OF d [unfolded short] fits] batch.prems fits short show ?case
    by (simp add: host_recv_step [OF d] Let_def)
qed simp_all

theorem host_recv_cancel_safe_witness:
  "host_recv True None \<lparr>hr_buffer = [], hr_max_size = 9, hr_max_transfer_size = 2\<rparr>
     ([[plain_packet [1, 2]]] @ [[plain_packet [3]]])
   = host_recv True None \<lparr>hr_buffer = [1, 2], hr_max_size = 9, hr_max_transfer_size = 2\<rparr> [[plain_packet [3]]]"
  by (rule host_recv_cancel_safe [where q' = "[]", THEN conjunct2])
    (simp add: host_recv.simps(3) take_batch_def extend_buffer_def)

section \<open>Packets above the limit\<close>

lemma host_recv_too_big:
  assumes "0 < hr_max_transfer_size r" and "queue_data q = transfers (hr_max_transfer_size r) m @ ts"
    and "length (hr_buffer r) \<le> hr_max_size r" and "hr_max_size r < length (hr_buffer r @ m)"
  shows "\<exists>q'. host_recv closed err r q = (Ready (Inl oversized), r\<lparr>hr_buffer := []\<rparr>, q')
    \<and> (queue_data q' = ts \<or> (\<exists>a c. m = a @ c \<and> hr_max_size r < length (hr_buffer r @ a)
         \<and> queue_data q' = transfers (hr_max_transfer_size r) c @ ts))"
  using assms
proof (induction r q arbitrary: m rule: host_recv_batches)
  case (batch r first wave q)
  let ?n = "hr_max_transfer_size r"
  obtain batch short rest where d: "drain ?n (first # wave) = (batch, short, rest)"
    by (metis prod_cases3)
  note shape = drain_transfers [OF batch.prems(1) batch.prems(2) [unfolded queue_data_simps] d]
  show ?case
  proof (cases short)
    case True
    with shape batch.prems(4) show ?thesis
      by (auto simp: host_recv_step [OF d] Let_def)
  next
    case short: False
    with shape obtain a c where ac: "rest = []" "m = a @ c" "concat (map rp_data batch) = a"
      "queue_data q = transfers ?n c @ ts" by auto
    show ?thesis
    proof (cases "hr_max_size r < length (hr_buffer r @ a)")
      case True
      then show ?thesis using ac by (auto simp: host_recv_step [OF d] Let_def)
    next
      case False
      then have fits: "length (hr_buffer r @ concat (map rp_data batch)) \<le> hr_max_size r"
        using ac(3) by simp
      obtain q' where q': "host_recv closed err (r\<lparr>hr_buffer := hr_buffer r @ a\<rparr>) (rest # q)
          = (Ready (Inl oversized), r\<lparr>hr_buffer := []\<rparr>, q')"
        "queue_data q' = ts \<or> (\<exists>a' c'. c = a' @ c' \<and> hr_max_size r < length (hr_buffer r @ a @ a')
           \<and> queue_data q' = transfers ?n c' @ ts)"
        using batch.IH [OF d [unfolded short [THEN eq_False [THEN iffD2]]] fits, of c] ac batch.prems False
        by auto
      moreover have "host_recv closed err r ((first # wave) # q)
          = host_recv closed err (r\<lparr>hr_buffer := hr_buffer r @ a\<rparr>) (rest # q)"
        using short fits ac(3) by (simp add: host_recv_step [OF d] Let_def)
      moreover have "queue_data q' = ts \<or> (\<exists>x y. m = x @ y \<and> hr_max_size r < length (hr_buffer r @ x)
           \<and> queue_data q' = transfers ?n y @ ts)"
        using q'(2) ac(2) by (metis append_assoc)
      ultimately show ?thesis by metis
    qed
  qed
qed simp_all

text \<open>
  C32. A packet above the limit is never handed out, under any timing: the call that meets it
  fails with "maximum packet size exceeded", and what it leaves in the queue is at most the
  part of that packet behind the first bytes that exceeded the limit, then the following
  packets.
\<close>

theorem host_recv_refuses_oversized:
  assumes "host_ready n L r" and "L < length m" and "queue_data q = transfers n m @ ts"
  shows "\<exists>q'. host_recv closed err r q = (Ready (Inl oversized), r, q')
    \<and> (queue_data q' = ts \<or> (\<exists>a c. m = a @ c \<and> L < length a \<and> queue_data q' = transfers n c @ ts))"
  using host_recv_too_big [of r q m ts closed err] assms host_ready_clear [OF assms(1)]
  by (simp add: host_ready_def)

theorem host_recv_refuses_oversized_witness:
  "\<exists>q'. host_recv True None \<lparr>hr_buffer = [], hr_max_size = 2, hr_max_transfer_size = 2\<rparr>
     [[plain_packet [1, 2], plain_packet [3]]]
   = (Ready (Inl oversized), \<lparr>hr_buffer = [], hr_max_size = 2, hr_max_transfer_size = 2\<rparr>, q')"
  using host_recv_refuses_oversized [of 2 2 "\<lparr>hr_buffer = [], hr_max_size = 2, hr_max_transfer_size = 2\<rparr>"
      "[1, 2, 3]" "[[plain_packet [1, 2], plain_packet [3]]]" "[]" True None]
  by (auto simp: host_ready_def transfers_full)

text \<open>
  What follows an oversized packet depends on the timing: the same transfers, arriving at
  once or one by one, give a regular end of the stream in the one case and a further packet,
  made of the rest of the refused one, in the other.
\<close>

theorem host_oversized_timing:
  "\<exists>r q1 q2. queue_data q1 = queue_data q2
     \<and> fst (recv_many (host_recv True None) 2 r q1) = [Ready (Inl oversized), Ready (Inr None)]
     \<and> fst (recv_many (host_recv True None) 2 r q2) = [Ready (Inl oversized), Ready (Inr (Some [5]))]"
proof (intro exI conjI)
  let ?r = "\<lparr>hr_buffer = [], hr_max_size = 3, hr_max_transfer_size = 2\<rparr>"
  let ?q1 = "[[plain_packet [1, 2], plain_packet [3, 4], plain_packet [5]]]"
  let ?q2 = "[[plain_packet [1, 2]], [plain_packet [3, 4]], [plain_packet [5]]]"
  show "queue_data ?q1 = queue_data ?q2" by simp
  show "fst (recv_many (host_recv True None) 2 ?r ?q1) = [Ready (Inl oversized), Ready (Inr None)]"
    by (simp add: numeral_2_eq_2 host_recv.simps(3) take_batch_def extend_buffer_def)
  show "fst (recv_many (host_recv True None) 2 ?r ?q2) = [Ready (Inl oversized), Ready (Inr (Some [5]))]"
    by (simp add: numeral_2_eq_2 host_recv.simps(3) take_batch_def extend_buffer_def)
qed

text \<open>A packet that the sender accepts is within the limit of the device.\<close>

lemma host_send_within_limit: "host_send tx_send conv err s data = Inr () \<Longrightarrow> length data \<le> hs_max_size s"
  by (auto simp: host_send_def split: if_splits)

end
