(* ===== verification/Host_Half_Close.thy ===== *)
theory Host_Half_Close
  imports Upc_Lib
begin

text \<open>
  The half-close handle of a host, \<open>HalfCloseHandle\<close> of \<open>src/host/native.rs\<close> and
  \<open>src/host/web.rs\<close>: the two endpoint tasks report the end of their direction to it, one
  at a time (it is behind a lock), and it tells the device by control requests.

  Both backends follow the same contract, the locale \<open>half_close_handle\<close>; they differ in
  what ends the connection, since the web backend also releases the interface. A request
  that fails is only logged, so outcomes do not appear.
\<close>

record half_close =
  hc_send_closed :: bool
  hc_recv_closed :: bool

definition half_close_new :: half_close where
  "half_close_new = \<lparr>hc_send_closed = False, hc_recv_closed = False\<rparr>"

text \<open>What the handle does to the device: control requests with their data, and the release.\<close>

datatype host_request = ControlOut u8 bytes | ReleaseInterface

text \<open>A call of \<open>close_send\<close> or \<open>close_recv\<close>, and a sequence of calls.\<close>

datatype close_call = CloseSend bool u64 | CloseRecv bool

definition hc_call ::
  "(bool \<Rightarrow> u64 \<Rightarrow> half_close \<Rightarrow> half_close \<times> 'c list) \<Rightarrow> (bool \<Rightarrow> half_close \<Rightarrow> half_close \<times> 'c list)
     \<Rightarrow> close_call \<Rightarrow> half_close \<Rightarrow> half_close \<times> 'c list" where
  "hc_call close_send close_recv c s =
     (case c of CloseSend notify bytes_sent \<Rightarrow> close_send notify bytes_sent s | CloseRecv notify \<Rightarrow> close_recv notify s)"

primrec hc_run :: "(close_call \<Rightarrow> half_close \<Rightarrow> half_close \<times> 'c list) \<Rightarrow> close_call list \<Rightarrow> half_close
     \<Rightarrow> half_close \<times> 'c list" where
  "hc_run call [] s = (s, [])"
| "hc_run call (c # cs) s =
     (case call c s of (s', out) \<Rightarrow> (case hc_run call cs s' of (s'', out') \<Rightarrow> (s'', out @ out')))"

definition is_close_send :: "close_call \<Rightarrow> bool" where
  "is_close_send c \<longleftrightarrow> (case c of CloseSend n t \<Rightarrow> True | CloseRecv n \<Rightarrow> False)"

text \<open>The first call of each kind among the calls, in order; the others have no effect.\<close>

fun first_calls :: "bool \<Rightarrow> bool \<Rightarrow> close_call list \<Rightarrow> close_call list" where
  "first_calls sc rc [] = []"
| "first_calls sc rc (CloseSend n t # cs) =
     (if sc then first_calls sc rc cs else CloseSend n t # first_calls True rc cs)"
| "first_calls sc rc (CloseRecv n # cs) =
     (if rc then first_calls sc rc cs else CloseRecv n # first_calls sc True cs)"

text \<open>The announcement that a call makes.\<close>

definition call_msg :: "(u64 \<Rightarrow> 'c list) \<Rightarrow> 'c list \<Rightarrow> close_call \<Rightarrow> 'c list" where
  "call_msg send_msg recv_msg c =
     (case c of CloseSend n t \<Rightarrow> if n then send_msg t else [] | CloseRecv n \<Rightarrow> if n then recv_msg else [])"

lemma call_msg_simps [simp]:
  "call_msg f g (CloseSend n t) = (if n then f t else [])" "call_msg f g (CloseRecv n) = (if n then g else [])"
  by (simp_all add: call_msg_def)

lemma hc_call_simps [simp]:
  "hc_call f g (CloseSend n t) s = f n t s" "hc_call f g (CloseRecv n) s = g n s"
  "is_close_send (CloseSend n t)" "\<not> is_close_send (CloseRecv n)"
  by (simp_all add: hc_call_def is_close_send_def)

section \<open>The contract\<close>

locale half_close_handle =
  fixes close_send :: "bool \<Rightarrow> u64 \<Rightarrow> half_close \<Rightarrow> half_close \<times> 'c list"
    and close_recv :: "bool \<Rightarrow> half_close \<Rightarrow> half_close \<times> 'c list"
    and send_msg :: "u64 \<Rightarrow> 'c list"
    and recv_msg :: "'c list"
    and final :: "'c list"
  assumes close_send_law:
    "close_send notify bytes_sent s =
       (if hc_send_closed s then (s, [])
        else (s\<lparr>hc_send_closed := True\<rparr>,
          (if notify then send_msg bytes_sent else []) @ (if hc_recv_closed s then final else [])))"
    and close_recv_law:
    "close_recv notify s =
       (if hc_recv_closed s then (s, [])
        else (s\<lparr>hc_recv_closed := True\<rparr>,
          (if notify then recv_msg else []) @ (if hc_send_closed s then final else [])))"
begin

lemma run_shape:
  "hc_run (hc_call close_send close_recv) cs s =
     (let sc = hc_send_closed s \<or> list_ex is_close_send cs;
          rc = hc_recv_closed s \<or> list_ex (\<lambda>c. \<not> is_close_send c) cs
      in (s\<lparr>hc_send_closed := sc, hc_recv_closed := rc\<rparr>,
          concat (map (call_msg send_msg recv_msg) (first_calls (hc_send_closed s) (hc_recv_closed s) cs))
          @ (if sc \<and> rc \<and> \<not> (hc_send_closed s \<and> hc_recv_closed s) then final else [])))"
proof (induction cs arbitrary: s)
  case Nil
  then show ?case by (auto simp: Let_def)
next
  case (Cons c cs)
  have closed: "first_calls True True cs' = []" for cs'
    by (induction "True" "True" cs' rule: first_calls.induct) auto
  show ?case
  proof (cases c)
    case (CloseSend n t)
    then show ?thesis
      by (cases "hc_send_closed s"; cases "hc_recv_closed s")
        (simp_all add: Cons close_send_law [of n t s] closed Let_def)
  next
    case (CloseRecv n)
    then show ?thesis
      by (cases "hc_send_closed s"; cases "hc_recv_closed s")
        (simp_all add: Cons close_recv_law [of n s] closed Let_def)
  qed
qed

end

section \<open>The native backend\<close>

definition native_close_if_both :: "half_close \<Rightarrow> host_request list" where
  "native_close_if_both s =
     (if hc_send_closed s \<and> hc_recv_closed s then [ControlOut CLOSE []] else [])"

definition native_close_send :: "bool \<Rightarrow> u64 \<Rightarrow> half_close \<Rightarrow> half_close \<times> host_request list" where
  "native_close_send notify_device total_bytes_sent s =
     (if \<not> hc_send_closed s then
        let s = s\<lparr>hc_send_closed := True\<rparr>;
            out = (if notify_device then [ControlOut CLOSE_SEND (to_le 8 total_bytes_sent)] else [])
        in (s, out @ native_close_if_both s)
      else (s, []))"

definition native_close_recv :: "bool \<Rightarrow> half_close \<Rightarrow> half_close \<times> host_request list" where
  "native_close_recv notify_device s =
     (if \<not> hc_recv_closed s then
        let s = s\<lparr>hc_recv_closed := True\<rparr>;
            out = (if notify_device then [ControlOut CLOSE_RECV []] else [])
        in (s, out @ native_close_if_both s)
      else (s, []))"

interpretation native_hc: half_close_handle native_close_send native_close_recv
  "\<lambda>sent. [ControlOut CLOSE_SEND (to_le 8 sent)]" "[ControlOut CLOSE_RECV []]" "[ControlOut CLOSE []]"
  by unfold_locales
    (auto simp: native_close_send_def native_close_recv_def native_close_if_both_def Let_def)

section \<open>The web backend\<close>

definition web_close_if_both :: "half_close \<Rightarrow> host_request list" where
  "web_close_if_both s =
     (if hc_send_closed s \<and> hc_recv_closed s then [ControlOut CLOSE [], ReleaseInterface] else [])"

definition web_close_send :: "bool \<Rightarrow> u64 \<Rightarrow> half_close \<Rightarrow> half_close \<times> host_request list" where
  "web_close_send notify_device total_bytes_sent s =
     (if \<not> hc_send_closed s then
        let s = s\<lparr>hc_send_closed := True\<rparr>;
            out = (if notify_device then [ControlOut CLOSE_SEND (to_le 8 total_bytes_sent)] else [])
        in (s, out @ web_close_if_both s)
      else (s, []))"

definition web_close_recv :: "bool \<Rightarrow> half_close \<Rightarrow> half_close \<times> host_request list" where
  "web_close_recv notify_device s =
     (if \<not> hc_recv_closed s then
        let s = s\<lparr>hc_recv_closed := True\<rparr>;
            out = (if notify_device then [ControlOut CLOSE_RECV []] else [])
        in (s, out @ web_close_if_both s)
      else (s, []))"

interpretation web_hc: half_close_handle web_close_send web_close_recv
  "\<lambda>sent. [ControlOut CLOSE_SEND (to_le 8 sent)]" "[ControlOut CLOSE_RECV []]"
  "[ControlOut CLOSE [], ReleaseInterface]"
  by unfold_locales
    (auto simp: web_close_send_def web_close_recv_def web_close_if_both_def Let_def)

section \<open>What the device is told\<close>

text \<open>The requests of the calls that are the first of their kind.\<close>

definition notices :: "close_call list \<Rightarrow> host_request list" where
  "notices cs = concat (map (call_msg (\<lambda>sent. [ControlOut CLOSE_SEND (to_le 8 sent)]) [ControlOut CLOSE_RECV []])
     (first_calls False False cs))"

text \<open>
  Half-close of a host, for both backends and any sequence of reports of the two tasks:
  each direction is announced to the device at most once, by the first report of its kind
  and only when the host has closed it; CLOSE follows exactly once, after both directions
  have been reported and behind both announcements, and later reports send nothing.
\<close>

theorem half_close_requests:
  "snd (hc_run (hc_call native_close_send native_close_recv) cs half_close_new)
     = notices cs @ (if list_ex is_close_send cs \<and> list_ex (\<lambda>c. \<not> is_close_send c) cs
                     then [ControlOut CLOSE []] else [])
   \<and> snd (hc_run (hc_call web_close_send web_close_recv) cs half_close_new)
     = notices cs @ (if list_ex is_close_send cs \<and> list_ex (\<lambda>c. \<not> is_close_send c) cs
                     then [ControlOut CLOSE [], ReleaseInterface] else [])"
  by (simp add: native_hc.run_shape web_hc.run_shape half_close_new_def notices_def Let_def)

section \<open>The log of a connection\<close>

lemma close_requests_distinct [simp]:
  "CLOSE \<noteq> CLOSE_SEND" "CLOSE \<noteq> CLOSE_RECV" "CLOSE_SEND \<noteq> CLOSE_RECV"
  "CLOSE_SEND \<noteq> CLOSE" "CLOSE_RECV \<noteq> CLOSE" "CLOSE_RECV \<noteq> CLOSE_SEND"
  by (simp_all add: code_consts)

text \<open>The announcements that the reports of the two tasks, if any, have caused.\<close>

definition announced :: "close_call option \<Rightarrow> close_call option \<Rightarrow> host_request \<Rightarrow> bool" where
  "announced sr rr m \<longleftrightarrow>
     (\<exists>t. sr = Some (CloseSend True t) \<and> m = ControlOut CLOSE_SEND (to_le 8 t))
     \<or> rr = Some (CloseRecv True) \<and> m = ControlOut CLOSE_RECV []"

text \<open>
  The state of the handle and what it has sent, after the reports \<open>sr\<close> of the sending and
  \<open>rr\<close> of the receiving task: the announcements, each once, and behind them, when both have
  reported, the requests that end the connection.
\<close>

definition closing_inv ::
  "host_request list \<Rightarrow> close_call option \<Rightarrow> close_call option \<Rightarrow> half_close \<Rightarrow> host_request list \<Rightarrow> bool" where
  "closing_inv final sr rr hc log \<longleftrightarrow>
     hc_send_closed hc = (sr \<noteq> None) \<and> hc_recv_closed hc = (rr \<noteq> None)
     \<and> (\<exists>told. log = told @ (if sr \<noteq> None \<and> rr \<noteq> None then final else [])
          \<and> distinct told \<and> (\<forall>m. m \<in> set told \<longleftrightarrow> announced sr rr m))"

text \<open>A handle that uses the requests of the protocol.\<close>

locale close_protocol =
  half_close_handle close_send close_recv
    "\<lambda>sent. [ControlOut CLOSE_SEND (to_le 8 sent)]" "[ControlOut CLOSE_RECV []]" final
  for close_send :: "bool \<Rightarrow> u64 \<Rightarrow> half_close \<Rightarrow> half_close \<times> host_request list"
    and close_recv :: "bool \<Rightarrow> half_close \<Rightarrow> half_close \<times> host_request list"
    and final :: "host_request list" +
  assumes final_close: "final = ControlOut CLOSE [] # tl final"
    and final_rest: "set (tl final) \<subseteq> {ReleaseInterface}" "distinct final"
begin

lemma inv_new: "closing_inv final None None half_close_new []"
  by (simp add: closing_inv_def half_close_new_def announced_def)

lemma inv_send:
  assumes "closing_inv final None rr hc log"
  shows "closing_inv final (Some (CloseSend b t)) rr (fst (close_send b t hc)) (log @ snd (close_send b t hc))"
proof -
  from assms have ann: "distinct log" "m \<in> set log \<longleftrightarrow> announced None rr m" for m
    by (auto simp: closing_inv_def)
  then have "distinct (log @ (if b then [ControlOut CLOSE_SEND (to_le 8 t)] else []))"
    and "\<forall>m. m \<in> set (log @ (if b then [ControlOut CLOSE_SEND (to_le 8 t)] else []))
           \<longleftrightarrow> announced (Some (CloseSend b t)) rr m"
    by (auto simp: announced_def)
  then show ?thesis
    using assms close_send_law [of b t hc]
    by (auto simp: closing_inv_def intro!: exI [of _ "log @ (if b then [ControlOut CLOSE_SEND (to_le 8 t)] else [])"])
qed

lemma inv_recv:
  assumes "closing_inv final sr None hc log"
  shows "closing_inv final sr (Some (CloseRecv b)) (fst (close_recv b hc)) (log @ snd (close_recv b hc))"
proof -
  from assms have ann: "distinct log" "m \<in> set log \<longleftrightarrow> announced sr None m" for m
    by (auto simp: closing_inv_def)
  then have "distinct (log @ (if b then [ControlOut CLOSE_RECV []] else []))"
    and "\<forall>m. m \<in> set (log @ (if b then [ControlOut CLOSE_RECV []] else []))
           \<longleftrightarrow> announced sr (Some (CloseRecv b)) m"
    by (auto simp: announced_def)
  then show ?thesis
    using assms close_recv_law [of b hc]
    by (auto simp: closing_inv_def intro!: exI [of _ "log @ (if b then [ControlOut CLOSE_RECV []] else [])"])
qed

text \<open>What can be read off the log.\<close>

lemma inv_log:
  assumes "closing_inv final sr rr hc log"
  shows "(\<forall>d. ControlOut CLOSE_SEND d \<in> set log \<longleftrightarrow> (\<exists>t. sr = Some (CloseSend True t) \<and> d = to_le 8 t))
    \<and> (ControlOut CLOSE_RECV [] \<in> set log \<longleftrightarrow> rr = Some (CloseRecv True))
    \<and> (ControlOut CLOSE [] \<in> set log \<longleftrightarrow> sr \<noteq> None \<and> rr \<noteq> None)
    \<and> distinct log
    \<and> (ControlOut CLOSE [] \<in> set log \<longrightarrow> (\<exists>told. log = told @ final))"
proof -
  obtain told where log: "log = told @ (if sr \<noteq> None \<and> rr \<noteq> None then final else [])"
    and ann: "distinct told" "\<And>m. m \<in> set told \<longleftrightarrow> announced sr rr m"
    using assms by (auto simp: closing_inv_def)
  have mem: "m \<in> set final \<longleftrightarrow> m = ControlOut CLOSE [] \<or> m \<in> set (tl final)" for m
    by (subst final_close) simp
  have "distinct log"
    using ann final_rest mem by (auto simp: log announced_def)
  moreover have "m \<in> set log \<longleftrightarrow> announced sr rr m \<or> (sr \<noteq> None \<and> rr \<noteq> None \<and> (m = ControlOut CLOSE [] \<or> m \<in> set (tl final)))" for m
    using ann(2) mem by (auto simp: log)
  moreover have "ControlOut r d \<notin> set (tl final)" for r d
    using final_rest(1) by auto
  ultimately show ?thesis
    using log by (auto simp: announced_def)
qed

end

interpretation native_closing: close_protocol native_close_send native_close_recv "[ControlOut CLOSE []]"
  by unfold_locales simp_all

interpretation web_closing: close_protocol web_close_send web_close_recv "[ControlOut CLOSE [], ReleaseInterface]"
  by unfold_locales simp_all

end
