(* ===== verification/Host_Native.thy ===== *)
theory Host_Native
  imports Host_Channel Host_Half_Close
begin

text \<open>
  The native backend of a host, \<open>src/host/native.rs\<close>: errors, the search for an interface,
  the info and probe requests, the three tasks of a connection and their parameters. The
  USB library supplies descriptors, results of control requests and completions of bulk
  transfers; they enter as arguments, with the names of the library's error cases that
  the code tells apart.
\<close>

section \<open>Constants and control requests\<close>

definition TIMEOUT :: duration where [code_consts]: "TIMEOUT = from_secs 1"
definition CLAIM_TIMEOUT :: duration where [code_consts]: "CLAIM_TIMEOUT = from_secs 5"
definition CLAIM_RETRY_INTERVAL :: duration where [code_consts]: "CLAIM_RETRY_INTERVAL = from_millis 50"
definition DMA_BUFFERS :: nat where [code_consts]: "DMA_BUFFERS = 8"

record control_in =
  ci_request :: u8
  ci_value :: u16
  ci_index :: u16
  ci_length :: u16

record control_out =
  co_request :: u8
  co_value :: u16
  co_index :: u16
  co_data :: bytes

definition native_control_in :: "u8 \<Rightarrow> u16 \<Rightarrow> u16 \<Rightarrow> u16 \<Rightarrow> control_in" where
  "native_control_in request val index len =
     \<lparr>ci_request = request, ci_value = val, ci_index = index, ci_length = len\<rparr>"

definition native_control_out :: "u8 \<Rightarrow> u16 \<Rightarrow> u16 \<Rightarrow> bytes \<Rightarrow> control_out" where
  "native_control_out request val index d =
     \<lparr>co_request = request, co_value = val, co_index = index, co_data = d\<rparr>"

section \<open>Errors\<close>

datatype nusb_kind = NusbDisconnected | NusbPermissionDenied | NusbNotFound | NusbBusy | NusbUnsupported | NusbOther

datatype nusb_error = NusbError (nusb_kind: nusb_kind) string

definition nusb_to_io_err :: "nusb_error \<Rightarrow> io_error" where
  "nusb_to_io_err e =
     (case e of NusbError k t \<Rightarrow>
        Error (case k of
            NusbDisconnected \<Rightarrow> ConnectionAborted
          | NusbPermissionDenied \<Rightarrow> PermissionDenied
          | NusbNotFound \<Rightarrow> NotFound
          | NusbBusy \<Rightarrow> ResourceBusy
          | NusbUnsupported \<Rightarrow> Unsupported
          | _ \<Rightarrow> OtherKind) (Inner t))"

definition transfer_to_io_err :: "transfer_error \<Rightarrow> io_error" where
  "transfer_to_io_err e =
     Error (case e of
         TrDisconnected \<Rightarrow> ConnectionAborted
       | TrCancelled \<Rightarrow> TimedOut
       | TrFault \<Rightarrow> UnexpectedEof
       | TrInvalidArgument \<Rightarrow> InvalidInput
       | TrStall \<Rightarrow> WriteZero
       | _ \<Rightarrow> OtherKind) (InnerTransfer e)"

datatype native_task_error = Transfer transfer_error | PartialSend nat nat

definition native_to_io_err :: "native_task_error \<Rightarrow> io_error" where
  "native_to_io_err err =
     (case err of
        Transfer e \<Rightarrow> transfer_to_io_err e
      | PartialSend size' sent \<Rightarrow> Error WriteZero (OnlySent sent size'))"

text \<open>\<open>Option::get_or_insert\<close> on the shared error: the first error is kept.\<close>

definition get_or_insert :: "'e \<Rightarrow> 'e option \<Rightarrow> 'e option" where
  "get_or_insert e err = (case err of None \<Rightarrow> Some e | Some e' \<Rightarrow> Some e')"

section \<open>Finding the interface\<close>

datatype direction = DirIn | DirOut
datatype transfer_type = Bulk | OtherType

record endpoint_desc =
  ed_direction :: direction
  ed_type :: transfer_type
  ed_mps :: nat
  ed_address :: u8

text \<open>An interface as its first alternate setting describes it.\<close>

record iface_desc =
  if_number :: u8
  if_class :: usb_class
  if_endpoints :: "endpoint_desc list"

definition not_found :: "usb_class \<Rightarrow> io_error" where
  "not_found c = Error NotFound
     (WithBytes ''USB interface for class not found'' [class_code c, sub_class c, protocol c])"

fun native_find_interface :: "iface_desc list \<Rightarrow> usb_class \<Rightarrow> io_error + u8" where
  "native_find_interface [] c = Inl (not_found c)"
| "native_find_interface (i # is) c =
     (if class_code (if_class i) = class_code c \<and> sub_class (if_class i) = sub_class c
         \<and> protocol (if_class i) = protocol c
      then Inr (if_number i) else native_find_interface is c)"

text \<open>\<open>find_interface_opened\<close>: the same search in the active configuration, if there is one.\<close>

definition native_find_interface_opened :: "io_error + iface_desc list \<Rightarrow> usb_class \<Rightarrow> io_error + u8" where
  "native_find_interface_opened config c =
     (case config of Inl e \<Rightarrow> Inl e | Inr is \<Rightarrow> native_find_interface is c)"

section \<open>Info and probe\<close>

text \<open>
  A claim yields an error of the library or the interface; \<open>request\<close> is what the interface
  answers to a control-in request.
\<close>

definition native_info ::
  "u8 \<Rightarrow> nusb_error + (control_in \<Rightarrow> transfer_error + bytes) \<Rightarrow> io_error + bytes" where
  "native_info interface claim =
     (case claim of
        Inl e \<Rightarrow> Inl (nusb_to_io_err e)
      | Inr request \<Rightarrow>
          (case request (native_control_in INFO 0 (ucast interface) (of_nat INFO_SIZE)) of
             Inl e \<Rightarrow> Inl (transfer_to_io_err e)
           | Inr info \<Rightarrow> Inr info))"

definition native_probe ::
  "u8 \<Rightarrow> nusb_error + (control_in \<Rightarrow> transfer_error + bytes) \<Rightarrow> io_error + bool" where
  "native_probe interface claim =
     (case claim of
        Inl e \<Rightarrow> Inl (nusb_to_io_err e)
      | Inr request \<Rightarrow>
          (case request (native_control_in PROBE 0 (ucast interface) (of_nat (length PROBE_RESPONSE))) of
             Inr d \<Rightarrow> Inr (d = PROBE_RESPONSE)
           | Inl TrStall \<Rightarrow> Inr False
           | Inl e \<Rightarrow> Inl (transfer_to_io_err e)))"

section \<open>Connecting\<close>

text \<open>
  The bulk endpoints of the interface: the last one of each direction is used, with the
  smallest packet size of all; the scan starts from the largest \<open>usize\<close>.
\<close>

fun scan_endpoints :: "endpoint_desc list \<Rightarrow> nat \<times> u8 option \<times> u8 option \<Rightarrow> nat \<times> u8 option \<times> u8 option" where
  "scan_endpoints [] acc = acc"
| "scan_endpoints (ep # eps) (mps, ep_in, ep_out) =
     scan_endpoints eps
       (case (ed_direction ep, ed_type ep) of
          (DirIn, Bulk) \<Rightarrow> (min mps (ed_mps ep), Some (ed_address ep), ep_out)
        | (DirOut, Bulk) \<Rightarrow> (min mps (ed_mps ep), ep_in, Some (ed_address ep))
        | _ \<Rightarrow> (mps, ep_in, ep_out))"

definition native_endpoints ::
  "nat \<Rightarrow> u8 \<Rightarrow> string + iface_desc list \<Rightarrow> io_error + (nat \<times> u8 \<times> u8)" where
  "native_endpoints usize_max interface config =
     (case config of
        Inl e \<Rightarrow> Inl (Error NetworkDown (Inner e))
      | Inr is \<Rightarrow>
          (case find (\<lambda>i. if_number i = interface) is of
             None \<Rightarrow> Inl (Error NotFound (WithBytes ''interface not found'' [interface]))
           | Some i \<Rightarrow>
               (case scan_endpoints (if_endpoints i) (usize_max, None, None) of
                  (mps, Some ep_in, Some ep_out) \<Rightarrow> Inr (mps, ep_in, ep_out)
                | _ \<Rightarrow> Inl (Error NotFound (Text ''transfer endpoints not found'')))))"

text \<open>
  Claiming the interface, with retries while it is busy: the attempts, each with the time at
  which its result is known. \<open>Pending\<close> means that the attempts given do not decide.
\<close>

fun claim_loop :: "nat \<Rightarrow> (nat \<times> (nusb_error + unit)) list \<Rightarrow> (io_error + unit) poll" where
  "claim_loop deadline [] = Pending"
| "claim_loop deadline ((now, Inr iface) # attempts) = Ready (Inr iface)"
| "claim_loop deadline ((now, Inl err) # attempts) =
     (if nusb_kind err = NusbBusy then
        if deadline \<le> now then Ready (Inl (nusb_to_io_err err)) else claim_loop deadline attempts
      else Ready (Inl (nusb_to_io_err err)))"

datatype host_effect =
    ClearHalt direction
  | RequestOut control_out
  | RequestIn control_in
  | SubmitIn nat
  | CancelAllIn

text \<open>
  Flushing the IN endpoint: what comes of each posted buffer. The flag tells whether the
  loop has ended with the outcomes given.
\<close>

datatype flush_outcome = FlushOk | FlushErr | FlushTimeout

fun flush_loop :: "nat \<Rightarrow> flush_outcome list \<Rightarrow> host_effect list \<times> bool" where
  "flush_loop mps [] = ([], False)"
| "flush_loop mps (FlushOk # os) = (case flush_loop mps os of (es, ended) \<Rightarrow> (SubmitIn mps # es, ended))"
| "flush_loop mps (FlushErr # os) = ([SubmitIn mps], True)"
| "flush_loop mps (FlushTimeout # os) = ([SubmitIn mps, CancelAllIn], True)"

record native_env =
  ne_usize_max :: nat
  ne_now :: nat
  ne_config :: "string + iface_desc list"
  ne_claims :: "(nat \<times> (nusb_error + unit)) list"
  ne_endpoint_in :: "nusb_error option"
  ne_endpoint_out :: "nusb_error option"
  ne_clear_in :: "nusb_error option"
  ne_clear_out :: "nusb_error option"
  ne_close :: "transfer_error option"
  ne_flush :: "flush_outcome list"
  ne_caps :: "transfer_error + bytes"
  ne_open :: "transfer_error option"

record host_connection =
  hn_sender :: host_sender
  hn_receiver :: host_receiver
  hn_interval :: "duration option"
  hn_mps :: nat
  hn_ep_in :: u8
  hn_ep_out :: u8

datatype connect_outcome = Panics | StillWaiting | Fails io_error | Opens host_connection

definition after :: "'e list \<Rightarrow> 'e list \<times> 'r \<Rightarrow> 'e list \<times> 'r" where
  "after es r = (es @ fst r, snd r)"

text \<open>A call that can fail, and the rest of the function.\<close>

definition try_call :: "'e list \<Rightarrow> io_error option \<Rightarrow> 'e list \<times> connect_outcome \<Rightarrow> 'e list \<times> connect_outcome" where
  "try_call es failure rest = after es (case failure of Some e \<Rightarrow> ([], Fails e) | None \<Rightarrow> rest)"

definition native_open_connection ::
  "native_env \<Rightarrow> u8 \<Rightarrow> upc_options \<Rightarrow> nat \<Rightarrow> u8 \<Rightarrow> u8 \<Rightarrow> host_effect list \<times> connect_outcome" where
  "native_open_connection env interface options mps ep_in ep_out =
     after [RequestIn (native_control_in CAPABILITIES 0 (ucast interface) (of_nat CAPS_SIZE))]
       (case (case ne_caps env of Inr d \<Rightarrow> device_caps_decode d | Inl e \<Rightarrow> Inr device_caps_default) of
          Inl e \<Rightarrow> ([], Fails e)
        | Inr caps \<Rightarrow>
            let host_caps = \<lparr>hc_max_size = of_nat (opt_max_size options)\<rparr>
            in after [RequestOut (native_control_out CAPABILITIES 0 (ucast interface) (host_caps_encode host_caps))]
              (try_call [RequestOut (native_control_out OPEN 0 (ucast interface) (opt_topic options))]
                (map_option transfer_to_io_err (ne_open env))
                ([], Opens
                  \<lparr>hn_sender = \<lparr>hs_max_size = usize_saturating (ne_usize_max env) (dc_max_size caps)\<rparr>,
                   hn_receiver = \<lparr>hr_buffer = [], hr_max_size = opt_max_size options,
                                  hr_max_transfer_size = mps * TRANSFER_PACKETS\<rparr>,
                   hn_interval = status_interval caps options,
                   hn_mps = mps, hn_ep_in = ep_in, hn_ep_out = ep_out\<rparr>)))"

definition native_connect_with ::
  "native_env \<Rightarrow> u8 \<Rightarrow> upc_options \<Rightarrow> host_effect list \<times> connect_outcome" where
  "native_connect_with env interface options =
     (if INFO_SIZE < length (opt_topic options) then ([], Panics)
      else
       (case native_endpoints (ne_usize_max env) interface (ne_config env) of
          Inl e \<Rightarrow> ([], Fails e)
        | Inr (mps, ep_in, ep_out) \<Rightarrow>
       (case claim_loop (ne_now env + CLAIM_TIMEOUT) (ne_claims env) of
          Pending \<Rightarrow> ([], StillWaiting)
        | Ready (Inl e) \<Rightarrow> ([], Fails e)
        | Ready (Inr iface) \<Rightarrow>
            try_call [] (map_option nusb_to_io_err (ne_endpoint_in env))
           (try_call [] (map_option nusb_to_io_err (ne_endpoint_out env))
           (try_call [ClearHalt DirIn] (map_option nusb_to_io_err (ne_clear_in env))
           (try_call [ClearHalt DirOut] (map_option nusb_to_io_err (ne_clear_out env))
           (try_call [RequestOut (native_control_out CLOSE 0 (ucast interface) [])]
              (map_option transfer_to_io_err (ne_close env))
           (case flush_loop mps (ne_flush env) of
              (es, False) \<Rightarrow> (es, StillWaiting)
            | (es, True) \<Rightarrow>
                after es (native_open_connection env interface options mps ep_in ep_out)))))))))"

definition native_connect :: "native_env \<Rightarrow> u8 \<Rightarrow> bytes \<Rightarrow> host_effect list \<times> connect_outcome" where
  "native_connect env interface topic = native_connect_with env interface (with_topic topic options_new)"

section \<open>Properties of connecting\<close>

text \<open>
  An attempt that decides: the interface is claimed, the claim fails for another reason than
  being busy, or it is still busy at the deadline.
\<close>

definition busy_until :: "nat \<Rightarrow> nat \<times> (nusb_error + unit) \<Rightarrow> bool" where
  "busy_until deadline a \<longleftrightarrow> fst a < deadline \<and> (case snd a of Inl e \<Rightarrow> nusb_kind e = NusbBusy | Inr _ \<Rightarrow> False)"

lemma claim_loop_busy:
  "list_all (busy_until deadline) as \<Longrightarrow> claim_loop deadline (as @ bs) = claim_loop deadline bs"
  by (induction as) (auto simp: busy_until_def split: sum.splits)

lemma claim_loop_decided:
  "\<not> busy_until deadline a \<Longrightarrow> claim_loop deadline (a # bs) = Ready (map_sum nusb_to_io_err id (snd a))"
  by (cases a; cases "snd a") (auto simp: busy_until_def)

lemma claim_loop_first:
  assumes "list_all (busy_until deadline) (take k as)" and "k < length as" and "\<not> busy_until deadline (as ! k)"
  shows "claim_loop deadline as = Ready (map_sum nusb_to_io_err id (snd (as ! k)))"
  using claim_loop_busy [OF assms(1), of "drop k as"] claim_loop_decided [OF assms(3), of "drop (Suc k) as"]
    Cons_nth_drop_Suc [OF assms(2)] by simp

text \<open>
  C36. Claiming the interface: when attempts follow each other by at least \<open>CLAIM_RETRY_INTERVAL\<close>,
  one of the first 101 decides, and the loop yields its result: it is the first that succeeds,
  that fails for another reason than a busy interface, or that is still busy when
  \<open>CLAIM_TIMEOUT\<close> has passed. All attempts before it were busy and before that time, so that a
  busy interface is neither reported earlier nor retried later.
\<close>

theorem claim_loop_bounded:
  assumes "101 \<le> length as" and "\<forall>k < length as. start + k * CLAIM_RETRY_INTERVAL \<le> fst (as ! k)"
  shows "\<exists>k \<le> 100. claim_loop (start + CLAIM_TIMEOUT) as = Ready (map_sum nusb_to_io_err id (snd (as ! k)))
    \<and> (\<forall>j < k. fst (as ! j) < start + CLAIM_TIMEOUT \<and> (\<exists>e. snd (as ! j) = Inl e \<and> nusb_kind e = NusbBusy))
    \<and> (\<forall>e. snd (as ! k) = Inl e \<and> nusb_kind e = NusbBusy \<longrightarrow> start + CLAIM_TIMEOUT \<le> fst (as ! k))"
proof -
  let ?busy = "busy_until (start + CLAIM_TIMEOUT)"
  have "start + 100 * CLAIM_RETRY_INTERVAL \<le> fst (as ! 100)" using assms by simp
  then have "\<not> ?busy (as ! 100)" by (simp add: busy_until_def code_consts from_secs_def from_millis_def)
  then obtain k where k: "\<not> ?busy (as ! k)" "k \<le> 100" and before: "\<And>j. j < k \<Longrightarrow> ?busy (as ! j)"
    using ex_least_nat_le [of "\<lambda>j. \<not> ?busy (as ! j)" 100] by blast
  have "list_all ?busy (take k as)"
    using before k(2) assms(1) by (simp add: list_all_length)
  then have "claim_loop (start + CLAIM_TIMEOUT) as = Ready (map_sum nusb_to_io_err id (snd (as ! k)))"
    using claim_loop_first k assms(1) by simp
  moreover have "fst (as ! j) < start + CLAIM_TIMEOUT \<and> (\<exists>e. snd (as ! j) = Inl e \<and> nusb_kind e = NusbBusy)" if "j < k" for j
    using before [OF that] by (auto simp: busy_until_def split: sum.splits)
  moreover have "start + CLAIM_TIMEOUT \<le> fst (as ! k)" if "snd (as ! k) = Inl e \<and> nusb_kind e = NusbBusy" for e
    using k(1) that by (simp add: busy_until_def)
  ultimately show ?thesis using k(2) by blast
qed

theorem claim_loop_bounded_witness:
  "claim_loop (7 + CLAIM_TIMEOUT)
     (map (\<lambda>k. (7 + k * CLAIM_RETRY_INTERVAL, Inl (NusbError NusbBusy ''busy''))) [0..<101])
   = Ready (Inl (Error ResourceBusy (Inner ''busy'')))"
proof -
  let ?as = "map (\<lambda>k. (7 + k * CLAIM_RETRY_INTERVAL, Inl (NusbError NusbBusy ''busy'') :: nusb_error + unit)) [0..<101]"
  have "\<exists>k \<le> 100. claim_loop (7 + CLAIM_TIMEOUT) ?as = Ready (map_sum nusb_to_io_err id (snd (?as ! k)))
    \<and> (\<forall>j < k. fst (?as ! j) < 7 + CLAIM_TIMEOUT \<and> (\<exists>e. snd (?as ! j) = Inl e \<and> nusb_kind e = NusbBusy))
    \<and> (\<forall>e. snd (?as ! k) = Inl e \<and> nusb_kind e = NusbBusy \<longrightarrow> 7 + CLAIM_TIMEOUT \<le> fst (?as ! k))"
    by (rule claim_loop_bounded) simp_all
  then obtain k where k: "k \<le> 100" "claim_loop (7 + CLAIM_TIMEOUT) ?as = Ready (map_sum nusb_to_io_err id (snd (?as ! k)))"
    by blast
  have "snd (?as ! k) = Inl (NusbError NusbBusy ''busy'')" using k(1) by (simp del: upt_rec_numeral)
  then show ?thesis unfolding k(2) by (simp add: nusb_to_io_err_def)
qed

text \<open>The requests among the effects of a connection attempt.\<close>

fun requests :: "host_effect list \<Rightarrow> host_effect list" where
  "requests [] = []"
| "requests (RequestOut c # es) = RequestOut c # requests es"
| "requests (RequestIn c # es) = RequestIn c # requests es"
| "requests (_ # es) = requests es"

lemma requests_append [simp]: "requests (es @ fs) = requests es @ requests fs"
  by (induction es rule: requests.induct) auto

lemma requests_flush [simp]: "requests (fst (flush_loop mps os)) = []"
  by (induction mps os rule: flush_loop.induct) (auto split: prod.splits)

lemma after_simps [simp]: "fst (after es r) = es @ fst r" "snd (after es r) = snd r"
  by (simp_all add: after_def)

lemma try_call_Opens [simp]:
  "snd (try_call es f rest) = Opens c \<longleftrightarrow> f = None \<and> snd rest = Opens c"
  by (simp add: try_call_def split: option.splits)

lemma try_call_None [simp]: "try_call es None rest = after es rest"
  by (simp add: try_call_def)

lemma connect_requests:
  assumes "native_connect_with env interface options = (es, Opens c)"
  shows "\<exists>caps. (case ne_caps env of Inr d \<Rightarrow> device_caps_decode d = Inr caps | Inl e \<Rightarrow> caps = device_caps_default)
    \<and> requests es =
       [RequestOut (native_control_out CLOSE 0 (ucast interface) []),
        RequestIn (native_control_in CAPABILITIES 0 (ucast interface) (of_nat CAPS_SIZE)),
        RequestOut (native_control_out CAPABILITIES 0 (ucast interface)
          (host_caps_encode \<lparr>hc_max_size = of_nat (opt_max_size options)\<rparr>)),
        RequestOut (native_control_out OPEN 0 (ucast interface) (opt_topic options))]
    \<and> take 2 es = [ClearHalt DirIn, ClearHalt DirOut]
    \<and> hs_max_size (hn_sender c) = min (unat (dc_max_size caps)) (ne_usize_max env)
    \<and> hn_receiver c = \<lparr>hr_buffer = [], hr_max_size = opt_max_size options,
                       hr_max_transfer_size = hn_mps c * TRANSFER_PACKETS\<rparr>
    \<and> hn_interval c = status_interval caps options
    \<and> native_endpoints (ne_usize_max env) interface (ne_config env) = Inr (hn_mps c, hn_ep_in c, hn_ep_out c)"
proof -
  have snd: "snd (native_connect_with env interface options) = Opens c" using assms by simp
  obtain mps ep_in ep_out where eps:
      "native_endpoints (ne_usize_max env) interface (ne_config env) = Inr (mps, ep_in, ep_out)"
    using snd by (auto simp: native_connect_with_def split: if_splits sum.splits)
  obtain iface where claim: "claim_loop (ne_now env + CLAIM_TIMEOUT) (ne_claims env) = Ready (Inr iface)"
    using snd eps by (auto simp: native_connect_with_def split: if_splits sum.splits poll.splits)
  obtain fs b where flush: "flush_loop mps (ne_flush env) = (fs, b)" by fastforce
  have fs: "requests fs = []" using requests_flush [of mps "ne_flush env"] flush by simp
  have ok: "\<not> INFO_SIZE < length (opt_topic options)" "ne_endpoint_in env = None" "ne_endpoint_out env = None"
      "ne_clear_in env = None" "ne_clear_out env = None" "ne_close env = None" "b"
    and opened: "snd (native_open_connection env interface options mps ep_in ep_out) = Opens c"
    using snd eps claim flush
    by (auto simp: native_connect_with_def split: if_splits bool.splits)
  have es: "es = [ClearHalt DirIn, ClearHalt DirOut, RequestOut (native_control_out CLOSE 0 (ucast interface) [])]
      @ fs @ fst (native_open_connection env interface options mps ep_in ep_out)"
    using assms eps claim flush ok by (simp add: native_connect_with_def after_def)
  show ?thesis
    using opened eps fs unfolding es
    by (cases "ne_caps env")
      (auto simp: native_open_connection_def Let_def usize_saturating_min split: sum.splits)
qed

text \<open>
  A connection attempt of the native host that succeeds has sent exactly the requests
  CLOSE, CAPABILITIES (query), CAPABILITIES (with its maximum packet size) and OPEN (with
  the topic), in this order, the first after clearing both halts. The connection uses the
  limits of the decoded device capabilities, or the defaults if the query failed, and the
  smallest packet size of the bulk endpoints.
\<close>

theorem native_connect_requests:
  assumes "native_connect_with env interface options = (es, Opens c)"
  shows "\<exists>caps. (case ne_caps env of Inr d \<Rightarrow> device_caps_decode d = Inr caps | Inl e \<Rightarrow> caps = device_caps_default)
    \<and> requests es =
       [RequestOut (native_control_out CLOSE 0 (ucast interface) []),
        RequestIn (native_control_in CAPABILITIES 0 (ucast interface) (of_nat CAPS_SIZE)),
        RequestOut (native_control_out CAPABILITIES 0 (ucast interface)
          (host_caps_encode \<lparr>hc_max_size = of_nat (opt_max_size options)\<rparr>)),
        RequestOut (native_control_out OPEN 0 (ucast interface) (opt_topic options))]
    \<and> take 2 es = [ClearHalt DirIn, ClearHalt DirOut]
    \<and> hs_max_size (hn_sender c) = min (unat (dc_max_size caps)) (ne_usize_max env)
    \<and> hn_receiver c = \<lparr>hr_buffer = [], hr_max_size = opt_max_size options,
                       hr_max_transfer_size = hn_mps c * TRANSFER_PACKETS\<rparr>
    \<and> hn_interval c = status_interval caps options
    \<and> native_endpoints (ne_usize_max env) interface (ne_config env) = Inr (hn_mps c, hn_ep_in c, hn_ep_out c)"
  using assms by (rule connect_requests)

text \<open>An attempt in which everything succeeds, at a device without capabilities to report.\<close>

definition quiet_native :: native_env where
  "quiet_native =
     \<lparr>ne_usize_max = 2 ^ 64 - 1, ne_now = 0,
      ne_config = Inr [\<lparr>if_number = 1, if_class = vendor_specific 1 2,
        if_endpoints = [\<lparr>ed_direction = DirIn, ed_type = Bulk, ed_mps = 512, ed_address = 0x81\<rparr>,
                        \<lparr>ed_direction = DirOut, ed_type = Bulk, ed_mps = 512, ed_address = 0x01\<rparr>]\<rparr>],
      ne_claims = [(0, Inr ())], ne_endpoint_in = None, ne_endpoint_out = None,
      ne_clear_in = None, ne_clear_out = None, ne_close = None, ne_flush = [FlushOk, FlushTimeout],
      ne_caps = Inr [], ne_open = None\<rparr>"

theorem native_connect_requests_witness:
  "\<exists>es c. native_connect_with quiet_native 1 options_new = (es, Opens c)
     \<and> take 2 es = [ClearHalt DirIn, ClearHalt DirOut]"
proof -
  obtain es c where "native_connect_with quiet_native 1 options_new = (es, Opens c)"
    by (simp add: native_connect_with_def quiet_native_def options_new_def native_endpoints_def after_def
        native_open_connection_def caps_decode_Nil Let_def)
  with native_connect_requests [OF this] show ?thesis by blast
qed

end
