(* ===== verification/Host_Native_Tasks.thy ===== *)
theory Host_Native_Tasks
  imports Host_Native "HOL-Library.Sublist"
begin

text \<open>
  The three tasks of a native host connection, \<open>in_task\<close>, \<open>out_task\<close> and \<open>status_task\<close> of
  \<open>src/host/native.rs\<close>, as state machines: a step is one turn of an \<open>await\<close>, its argument
  what the awaited operations yield at that moment, tried in the order of the code. The
  status of the device, which \<open>status_task\<close> publishes, is part of the argument.

  The error of the connection is shared by the tasks. A step reads and writes it in the
  error field of its state; the whole connection (section 4) keeps one error, which it puts
  there before a step and takes from there after it.
\<close>

section \<open>Receiving: \<open>in_task\<close>\<close>

text \<open>A completed transfer: its status, the buffer and the number of bytes transferred.\<close>

record completion =
  cp_status :: "transfer_error option"
  cp_actual_len :: nat
  cp_buffer :: bytes
  cp_zero_copy :: bool

datatype host_in_pc = HiReceive | HiForward recv_packet | HiDone bool

record host_in_state =
  hi_pc :: host_in_pc
  hi_submitted :: nat
  hi_completed :: nat
  hi_sent :: "recv_packet list"
  hi_error :: "native_task_error option"

text \<open>
  What the awaited operations yield: the next completion, whether the receiver is gone,
  whether the device is dead; and, while a packet is forwarded, the result of \<open>tx.send\<close>
  (\<open>False\<close>: the receiver is gone).
\<close>

record host_in_poll =
  hip_complete :: "completion poll"
  hip_tx_closed :: bool
  hip_dead :: bool
  hip_send :: "bool poll"

text \<open>All buffers are posted, and one more at the top of the loop.\<close>

definition host_in_init :: host_in_state where
  "host_in_init =
     \<lparr>hi_pc = HiReceive, hi_submitted = DMA_BUFFERS + 1, hi_completed = 0, hi_sent = [], hi_error = None\<rparr>"

definition host_in_receive :: "host_in_poll \<Rightarrow> host_in_state \<Rightarrow> host_in_state" where
  "host_in_receive p s =
     (case hip_complete p of
        Ready cmpl \<Rightarrow>
          let s = s\<lparr>hi_completed := hi_completed s + 1\<rparr>
          in (case cp_status cmpl of
             Some err \<Rightarrow>
               if err = TrStall then s\<lparr>hi_pc := HiDone False\<rparr>
               else s\<lparr>hi_pc := HiDone False, hi_error := get_or_insert (Transfer err) (hi_error s)\<rparr>
           | None \<Rightarrow>
               s\<lparr>hi_pc := HiForward \<lparr>rp_buffer = cp_buffer cmpl, rp_actual_len = cp_actual_len cmpl,
                                      rp_is_zero_copy = cp_zero_copy cmpl\<rparr>\<rparr>)
      | Pending \<Rightarrow>
          if hip_tx_closed p then s\<lparr>hi_pc := HiDone True\<rparr>
          else if hip_dead p then s\<lparr>hi_pc := HiDone False\<rparr>
          else s)"

definition host_in_forward :: "recv_packet \<Rightarrow> host_in_poll \<Rightarrow> host_in_state \<Rightarrow> host_in_state" where
  "host_in_forward packet p s =
     (case hip_send p of
        Ready True \<Rightarrow> s\<lparr>hi_pc := HiReceive, hi_submitted := hi_submitted s + 1, hi_sent := hi_sent s @ [packet]\<rparr>
      | Ready False \<Rightarrow> s\<lparr>hi_pc := HiDone True\<rparr>
      | Pending \<Rightarrow> s)"

definition host_in_step :: "host_in_poll \<Rightarrow> host_in_state \<Rightarrow> host_in_state" where
  "host_in_step p s =
     (case hi_pc s of
        HiReceive \<Rightarrow> host_in_receive p s
      | HiForward packet \<Rightarrow> host_in_forward packet p s
      | HiDone host_initiated \<Rightarrow> s)"

lemmas host_in_step_defs = host_in_step_def host_in_receive_def host_in_forward_def

text \<open>The report of a finished task to the half-close handle.\<close>

definition host_in_report :: "host_in_state \<Rightarrow> close_call option" where
  "host_in_report s = (case hi_pc s of HiDone host_initiated \<Rightarrow> Some (CloseRecv host_initiated) | _ \<Rightarrow> None)"

section \<open>Sending: \<open>out_task\<close>\<close>

datatype host_out_pc = HoData | HoComplete | HoDrain bool | HoDone bool | HoPanic

record host_out_state =
  ho_pc :: host_out_pc
  ho_total :: u64
  ho_pending :: "bytes list"
  ho_taken :: "bytes list"
  ho_submitted :: "bytes list"
  ho_error :: "native_task_error option"

text \<open>
  What the awaited operations yield: whether the status reports the receive direction of
  the device closed or the device dead, the next packet of the queue (\<open>None\<close>: the sender is
  gone), and the next completion: its status and the number of bytes transferred.
\<close>

record host_out_poll =
  hop_closed :: bool
  hop_data :: "bytes option poll"
  hop_complete :: "(transfer_error option \<times> nat) poll"

definition host_out_init :: host_out_state where
  "host_out_init =
     \<lparr>ho_pc = HoData, ho_total = 0, ho_pending = [], ho_taken = [], ho_submitted = [], ho_error = None\<rparr>"

text \<open>The transfers submitted for a packet.\<close>

definition host_out_transfers :: "nat \<Rightarrow> bytes \<Rightarrow> bytes list" where
  "host_out_transfers mps d =
     d # (if 0 < length d \<and> length d mod mps = 0 then [[]] else [])"

definition host_out_data :: "nat \<Rightarrow> host_out_poll \<Rightarrow> host_out_state \<Rightarrow> host_out_state" where
  "host_out_data mps p s =
     (if hop_closed p then s\<lparr>ho_pc := HoDrain False\<rparr>
      else case hop_data p of
        Pending \<Rightarrow> s
      | Ready None \<Rightarrow> s\<lparr>ho_pc := HoDrain True\<rparr>
      | Ready (Some d) \<Rightarrow>
          let s = s\<lparr>ho_total := ho_total s + of_nat (length d), ho_taken := ho_taken s @ [d]\<rparr>
          in if 0 < length d \<and> mps = 0
             then s\<lparr>ho_pc := HoPanic, ho_pending := ho_pending s @ [d], ho_submitted := ho_submitted s @ [d]\<rparr>
             else s\<lparr>ho_pc := HoComplete, ho_pending := ho_pending s @ host_out_transfers mps d,
                    ho_submitted := ho_submitted s @ host_out_transfers mps d\<rparr>)"

text \<open>
  The loop that takes completions: with no pending transfer it ends, with \<open>DMA_BUFFERS\<close> or
  more it waits, otherwise it takes a completion only if there is one. The second function
  is its body.
\<close>

definition host_out_completed :: "transfer_error option \<times> nat \<Rightarrow> host_out_state \<Rightarrow> host_out_state" where
  "host_out_completed cmpl s =
     (let buffer = hd (ho_pending s); s = s\<lparr>ho_pending := tl (ho_pending s)\<rparr>
      in case cmpl of
        (Some err, actual_len) \<Rightarrow>
          if err = TrStall then s\<lparr>ho_pc := HoDrain False\<rparr>
          else s\<lparr>ho_pc := HoDrain False, ho_error := get_or_insert (Transfer err) (ho_error s)\<rparr>
      | (None, actual_len) \<Rightarrow>
          if actual_len \<noteq> length buffer
          then s\<lparr>ho_error := Some (PartialSend (length buffer) actual_len)\<rparr> else s)"

definition host_out_complete :: "host_out_poll \<Rightarrow> host_out_state \<Rightarrow> host_out_state" where
  "host_out_complete p s =
     (if ho_pending s = [] then s\<lparr>ho_pc := HoData\<rparr>
      else case hop_complete p of
        Ready cmpl \<Rightarrow> host_out_completed cmpl s
      | Pending \<Rightarrow> if DMA_BUFFERS \<le> length (ho_pending s) then s else s\<lparr>ho_pc := HoData\<rparr>)"

text \<open>Waiting for the pending transfers at the end.\<close>

definition host_out_drain :: "bool \<Rightarrow> host_out_poll \<Rightarrow> host_out_state \<Rightarrow> host_out_state" where
  "host_out_drain host_initiated p s =
     (if ho_pending s = [] then s\<lparr>ho_pc := HoDone host_initiated\<rparr>
      else case hop_complete p of
        Pending \<Rightarrow> s
      | Ready (Some err, actual_len) \<Rightarrow>
          let s = s\<lparr>ho_pending := tl (ho_pending s), ho_pc := HoDrain False\<rparr>
          in if err = TrStall then s else s\<lparr>ho_error := get_or_insert (Transfer err) (ho_error s)\<rparr>
      | Ready (None, actual_len) \<Rightarrow> s\<lparr>ho_pending := tl (ho_pending s)\<rparr>)"

definition host_out_step :: "nat \<Rightarrow> host_out_poll \<Rightarrow> host_out_state \<Rightarrow> host_out_state" where
  "host_out_step mps p s =
     (case ho_pc s of
        HoData \<Rightarrow> host_out_data mps p s
      | HoComplete \<Rightarrow> host_out_complete p s
      | HoDrain host_initiated \<Rightarrow> host_out_drain host_initiated p s
      | HoDone host_initiated \<Rightarrow> s
      | HoPanic \<Rightarrow> s)"

lemmas host_out_step_defs =
  host_out_step_def host_out_data_def host_out_complete_def host_out_completed_def host_out_drain_def

definition host_out_report :: "host_out_state \<Rightarrow> close_call option" where
  "host_out_report s =
     (case ho_pc s of HoDone host_initiated \<Rightarrow> Some (CloseSend host_initiated (ho_total s)) | _ \<Rightarrow> None)"

section \<open>Polling the status: \<open>status_task\<close>\<close>

record status_state =
  ss_status :: device_status
  ss_running :: bool
  ss_error :: "native_task_error option"

definition status_init :: status_state where
  "status_init = \<lparr>ss_status = device_status_default, ss_running = True, ss_error = None\<rparr>"

text \<open>The bytes of an answer; unknown ones are only logged.\<close>

definition status_byte :: "u8 \<Rightarrow> device_status \<Rightarrow> device_status" where
  "status_byte b st =
     (if b = RECV_CLOSED then (if \<not> st_recv_closed st then st\<lparr>st_recv_closed := True\<rparr> else st) else st)"

text \<open>A turn: the tasks are gone, or the interval has passed and the request was answered.\<close>

datatype status_event = TasksGone | Answered "transfer_error + bytes"

definition native_status_request :: "u8 \<Rightarrow> control_in" where
  "native_status_request interface = native_control_in STATUS 0 (ucast interface) (of_nat STATUS_MAX_SIZE)"

definition status_step :: "status_event \<Rightarrow> status_state \<Rightarrow> status_state" where
  "status_step ev s =
     (if \<not> ss_running s then s
      else case ev of
        TasksGone \<Rightarrow> s\<lparr>ss_running := False\<rparr>
      | Answered (Inr d) \<Rightarrow> s\<lparr>ss_status := fold status_byte d (ss_status s)\<rparr>
      | Answered (Inl err) \<Rightarrow>
          s\<lparr>ss_error := get_or_insert (Transfer err) (ss_error s),
            ss_status := (ss_status s)\<lparr>st_dead := True\<rparr>, ss_running := False\<rparr>)"

section \<open>The tasks of one connection\<close>

text \<open>
  A connection: the three tasks, the shared error and the half-close handle. A finished
  endpoint task reports to the handle, which is locked for the whole report, so reports
  do not interleave; the log holds the requests of the handle in order.
\<close>

record native_conn =
  nc_in :: host_in_state
  nc_out :: host_out_state
  nc_status :: status_state
  nc_error :: "native_task_error option"
  nc_half_close :: half_close
  nc_log :: "host_request list"

datatype native_event = NIn host_in_poll | NOut host_out_poll | NStatus status_event

definition native_init :: native_conn where
  "native_init =
     \<lparr>nc_in = host_in_init, nc_out = host_out_init, nc_status = status_init, nc_error = None,
      nc_half_close = half_close_new, nc_log = []\<rparr>"

definition native_report :: "close_call option \<Rightarrow> native_conn \<Rightarrow> native_conn" where
  "native_report c s =
     (case c of
        None \<Rightarrow> s
      | Some c \<Rightarrow>
          (case hc_call native_close_send native_close_recv c (nc_half_close s) of
             (h, out) \<Rightarrow> s\<lparr>nc_half_close := h, nc_log := nc_log s @ out\<rparr>))"

text \<open>
  A task that has not finished takes a step; the status it sees is the one published by
  \<open>status_task\<close>. The step that finishes it is followed by its report.
\<close>

definition native_step :: "nat \<Rightarrow> native_event \<Rightarrow> native_conn \<Rightarrow> native_conn" where
  "native_step mps ev s =
     (case ev of
        NIn p \<Rightarrow>
          if host_in_report (nc_in s) \<noteq> None then s
          else let t = host_in_step (p\<lparr>hip_dead := st_dead (ss_status (nc_status s))\<rparr>)
                         ((nc_in s)\<lparr>hi_error := nc_error s\<rparr>)
               in native_report (host_in_report t) (s\<lparr>nc_in := t, nc_error := hi_error t\<rparr>)
      | NOut p \<Rightarrow>
          if host_out_report (nc_out s) \<noteq> None then s
          else let st = ss_status (nc_status s);
                   t = host_out_step mps (p\<lparr>hop_closed := st_recv_closed st \<or> st_dead st\<rparr>)
                         ((nc_out s)\<lparr>ho_error := nc_error s\<rparr>)
               in native_report (host_out_report t) (s\<lparr>nc_out := t, nc_error := ho_error t\<rparr>)
      | NStatus e \<Rightarrow>
          let t = status_step e ((nc_status s)\<lparr>ss_error := nc_error s\<rparr>)
          in s\<lparr>nc_status := t, nc_error := ss_error t\<rparr>)"

section \<open>Invariants of the tasks\<close>

definition host_in_inv :: "host_in_state \<Rightarrow> bool" where
  "host_in_inv s \<longleftrightarrow>
     (case hi_pc s of
        HiReceive \<Rightarrow> hi_submitted s = hi_completed s + DMA_BUFFERS + 1 \<and> hi_completed s = length (hi_sent s)
      | HiForward p \<Rightarrow> hi_submitted s = hi_completed s + DMA_BUFFERS \<and> hi_completed s = length (hi_sent s) + 1
      | HiDone b \<Rightarrow> hi_completed s + DMA_BUFFERS \<le> hi_submitted s)"

interpretation host_in: invariant_run host_in_step host_in_inv host_in_init
proof unfold_locales
  show "host_in_inv host_in_init" by (simp add: host_in_inv_def host_in_init_def)
  fix s e
  show "host_in_inv s \<Longrightarrow> host_in_inv (host_in_step e s)"
    by (cases "hi_pc s") (auto simp: host_in_inv_def host_in_step_defs Let_def
        split: poll.splits option.splits bool.splits if_splits)
qed

text \<open>
  The counter is that of the packets taken, modulo the width of \<open>u64\<close>; what was submitted
  are the transfers of these packets; the pending transfers are the last ones submitted,
  at most \<open>DMA_BUFFERS + 1\<close>, fewer than \<open>DMA_BUFFERS\<close> while the task waits for a packet.
\<close>

definition host_out_inv :: "nat \<Rightarrow> host_out_state \<Rightarrow> bool" where
  "host_out_inv mps s \<longleftrightarrow>
     ho_pc s \<noteq> HoPanic
     \<and> ho_total s = of_nat (length (concat (ho_taken s)))
     \<and> ho_submitted s = concat (map (host_out_transfers mps) (ho_taken s))
     \<and> suffix (ho_pending s) (ho_submitted s)
     \<and> length (ho_pending s) \<le> DMA_BUFFERS + 1
     \<and> (ho_pc s = HoData \<longrightarrow> length (ho_pending s) < DMA_BUFFERS)
     \<and> (\<forall>b. ho_pc s = HoDone b \<longrightarrow> ho_pending s = [])"

lemma length_host_out_transfers: "length (host_out_transfers mps d) \<le> 2"
  by (simp add: host_out_transfers_def)

lemma suffix_tlI: "suffix xs ys \<Longrightarrow> suffix (tl xs) ys"
  using suffix_order.trans suffix_tl by blast

lemma suffix_append_same: "suffix xs ys \<Longrightarrow> suffix (xs @ zs) (ys @ zs)"
  by (auto simp: suffix_def)

lemma host_out_data_inv:
  assumes "0 < mps" and "host_out_inv mps s" and "ho_pc s = HoData"
  shows "host_out_inv mps (host_out_data mps p s)"
proof (cases "\<not> hop_closed p \<and> (\<exists>d. hop_data p = Ready (Some d))")
  case True
  then obtain d where d: "\<not> hop_closed p" "hop_data p = Ready (Some d)" by auto
  have "suffix (ho_pending s @ host_out_transfers mps d) (ho_submitted s @ host_out_transfers mps d)"
    using assms(2) unfolding host_out_inv_def by (blast intro: suffix_append_same)
  then show ?thesis
    using d assms length_host_out_transfers [of mps d]
    by (simp add: host_out_data_def host_out_inv_def Let_def DMA_BUFFERS_def)
next
  case False
  then show ?thesis
    using assms by (auto simp: host_out_data_def host_out_inv_def split: poll.splits option.splits)
qed

lemma host_out_complete_inv:
  "host_out_inv mps s \<Longrightarrow> ho_pc s = HoComplete \<Longrightarrow> host_out_inv mps (host_out_complete p s)"
  by (auto simp: host_out_complete_def host_out_completed_def host_out_inv_def Let_def DMA_BUFFERS_def
      suffix_tlI split: poll.splits option.splits prod.splits)

lemma host_out_drain_inv:
  "host_out_inv mps s \<Longrightarrow> ho_pc s = HoDrain b \<Longrightarrow> host_out_inv mps (host_out_drain b p s)"
  by (auto simp: host_out_drain_def host_out_inv_def Let_def suffix_tlI
      split: poll.splits option.splits prod.splits)

lemma host_out_step_inv: "0 < mps \<Longrightarrow> host_out_inv mps s \<Longrightarrow> host_out_inv mps (host_out_step mps p s)"
  by (cases "ho_pc s")
    (simp_all add: host_out_step_def host_out_data_inv host_out_complete_inv host_out_drain_inv)

interpretation host_out: invariant_run "host_out_step (Suc k)" "host_out_inv (Suc k)" host_out_init for k
proof unfold_locales
  show "host_out_inv (Suc k) host_out_init"
    by (simp add: host_out_inv_def host_out_init_def DMA_BUFFERS_def)
qed (simp add: host_out_step_inv)

section \<open>Properties of the tasks\<close>

text \<open>
  C28. \<open>out_task\<close> of the native host, under any sequence of events: it submits, for the packets
  it has taken from the queue and in their order, one transfer each and an empty one behind
  every packet that is not empty and fills its last USB packet; its byte counter is the
  number of bytes of these packets modulo \<open>2^64\<close>; at most \<open>DMA_BUFFERS + 1\<close> transfers are
  pending; and when it ends none is.
\<close>

theorem host_out_accounts:
  assumes "0 < mps" and "s = fold (host_out_step mps) ps host_out_init"
  shows "ho_submitted s = concat (map (host_out_transfers mps) (ho_taken s))
    \<and> ho_total s = of_nat (length (concat (ho_taken s)))
    \<and> suffix (ho_pending s) (ho_submitted s) \<and> length (ho_pending s) \<le> DMA_BUFFERS + 1
    \<and> (\<forall>b. ho_pc s = HoDone b \<longrightarrow> ho_pending s = [])"
proof -
  obtain k where "mps = Suc k" using assms(1) gr0_implies_Suc by blast
  then have "host_out_inv mps s" using host_out.reachable_inv [of k ps] assms(2) by simp
  then show ?thesis unfolding host_out_inv_def by blast
qed

text \<open>Polls in which a packet is taken, a transfer completes, the sender is gone.\<close>

definition out_packet :: "bytes \<Rightarrow> host_out_poll" where
  "out_packet d = \<lparr>hop_closed = False, hop_data = Ready (Some d), hop_complete = Pending\<rparr>"

definition out_complete :: "transfer_error option \<times> nat \<Rightarrow> host_out_poll" where
  "out_complete c = \<lparr>hop_closed = False, hop_data = Pending, hop_complete = Ready c\<rparr>"

definition out_closed :: host_out_poll where
  "out_closed = \<lparr>hop_closed = False, hop_data = Ready None, hop_complete = Pending\<rparr>"

theorem host_out_accounts_witness:
  "ho_submitted (fold (host_out_step 2) [out_packet [1, 2]] host_out_init) = [[1, 2], []]
   \<and> ho_total (fold (host_out_step 2) [out_packet [1, 2]] host_out_init) = 2"
  using host_out_accounts [of 2 "fold (host_out_step 2) [out_packet [1, 2]] host_out_init" "[out_packet [1, 2]]"]
  by (simp add: host_out_step_defs host_out_init_def out_packet_def host_out_transfers_def)

section \<open>What was sent, and what is announced\<close>

text \<open>
  The transfers that a run sees complete without an error, each with the number of its bytes that
  were sent: what the controller reports to the turns that take a completion.
\<close>

definition completion :: "host_out_poll \<Rightarrow> host_out_state \<Rightarrow> (bytes \<times> nat) list" where
  "completion p s =
     (case (ho_pc s, ho_pending s, hop_complete p) of
        (HoComplete, d # ds, Ready (None, k)) \<Rightarrow> [(d, k)]
      | (HoDrain b, d # ds, Ready (None, k)) \<Rightarrow> [(d, k)]
      | _ \<Rightarrow> [])"

fun completions :: "nat \<Rightarrow> host_out_poll list \<Rightarrow> host_out_state \<Rightarrow> (bytes \<times> nat) list" where
  "completions mps [] s = []"
| "completions mps (p # ps) s = completion p s @ completions mps ps (host_out_step mps p s)"

definition bytes_sent :: "(bytes \<times> nat) list \<Rightarrow> nat" where
  "bytes_sent cs = sum_list (map snd cs)"

lemma completions_append:
  "completions mps (ps @ qs) s = completions mps ps s @ completions mps qs (fold (host_out_step mps) ps s)"
  by (induction ps arbitrary: s) simp_all

text \<open>While no error has ended sending, the transfers submitted are those completed and those pending.\<close>

definition accounted :: "host_out_state \<Rightarrow> (bytes \<times> nat) list \<Rightarrow> bool" where
  "accounted s cs \<longleftrightarrow>
     ho_pc s = HoDrain False \<or> ho_pc s = HoDone False \<or> map fst cs @ ho_pending s = ho_submitted s"

lemma accounted_step: "accounted s cs \<Longrightarrow> accounted (host_out_step mps p s) (cs @ completion p s)"
  by (cases "ho_pc s"; cases "ho_pending s")
    (auto simp: accounted_def completion_def host_out_step_defs Let_def
      split: poll.splits option.splits prod.splits if_splits)

lemma accounted_run: "accounted (fold (host_out_step mps) ps host_out_init) (completions mps ps host_out_init)"
proof (induction ps rule: rev_induct)
  case (snoc p ps)
  from accounted_step [OF snoc, of mps p] show ?case by (simp add: completions_append)
qed (simp add: accounted_def host_out_init_def)

lemma host_out_bytes: "length (concat (concat (map (host_out_transfers mps) ms))) = length (concat ms)"
  by (induction ms) (simp_all add: host_out_transfers_def)

lemma announced_count:
  assumes "0 < mps" and "host_out_report (fold (host_out_step mps) ps host_out_init) = Some (CloseSend True n)"
  shows "n = of_nat (length (concat (ho_taken (fold (host_out_step mps) ps host_out_init))))"
    and "length (concat (ho_taken (fold (host_out_step mps) ps host_out_init)))
      = sum_list (map (length \<circ> fst) (completions mps ps host_out_init))"
proof -
  let ?s = "fold (host_out_step mps) ps host_out_init"
  obtain k where "mps = Suc k" using assms(1) gr0_implies_Suc by blast
  then have inv: "host_out_inv mps ?s" using host_out.reachable_inv [of k ps] by simp
  have pc: "ho_pc ?s = HoDone True" and n: "n = ho_total ?s"
    using assms(2) by (auto simp: host_out_report_def split: host_out_pc.splits)
  show "n = of_nat (length (concat (ho_taken ?s)))" using inv n by (simp add: host_out_inv_def)
  have "ho_pending ?s = []" using inv pc unfolding host_out_inv_def by blast
  then have "map fst (completions mps ps host_out_init) = concat (map (host_out_transfers mps) (ho_taken ?s))"
    using accounted_run [of mps ps] pc inv by (simp add: accounted_def host_out_inv_def)
  then show "length (concat (ho_taken ?s)) = sum_list (map (length \<circ> fst) (completions mps ps host_out_init))"
    using host_out_bytes [of mps "ho_taken ?s"] by (simp add: length_concat map_map [symmetric] del: map_map)
qed

text \<open>A shortfall of one completion is a shortfall of all, when none sends more than its transfer has.\<close>

lemma short_sum:
  "\<forall>(d, k)\<in>set cs. k \<le> length d \<Longrightarrow> (d, k) \<in> set cs \<Longrightarrow> k < length d \<Longrightarrow>
     bytes_sent cs < sum_list (map (length \<circ> fst) cs)"
proof (induction cs)
  case (Cons c cs)
  have le: "bytes_sent cs \<le> sum_list (map (length \<circ> fst) cs)"
    unfolding bytes_sent_def using Cons.prems(1) by (intro sum_list_mono2) (auto simp: list_all2_conv_all_nth)
  show ?case
  proof (cases "c = (d, k)")
    case True
    then show ?thesis using le Cons.prems by (simp add: bytes_sent_def comp_def)
  next
    case False
    then have "bytes_sent cs < sum_list (map (length \<circ> fst) cs)" using Cons by (simp add: comp_def)
    moreover have "snd c \<le> length (fst c)" using Cons.prems(1) by (cases c) simp
    ultimately show ?thesis by (simp add: bytes_sent_def comp_def)
  qed
qed simp

lemma partial_send_stays:
  "\<exists>size sent. ho_error s = Some (PartialSend size sent) \<Longrightarrow>
     \<exists>size sent. ho_error (fold (host_out_step mps) ps s) = Some (PartialSend size sent)"
proof (induction ps arbitrary: s)
  case (Cons p ps)
  then have "\<exists>size sent. ho_error (host_out_step mps p s) = Some (PartialSend size sent)"
    by (auto simp: host_out_step_defs Let_def get_or_insert_def
        split: host_out_pc.splits poll.splits option.splits prod.splits)
  with Cons.IH show ?case by simp
qed simp

text \<open>The rest of a run in which the pending transfers complete and the sender is dropped.\<close>

lemma completing_run:
  "ho_pc s = HoComplete \<Longrightarrow> ho_pending s = ds \<Longrightarrow>
     fold (host_out_step mps) (map (\<lambda>d. out_complete (None, length d)) ds) s = s\<lparr>ho_pending := []\<rparr>"
proof (induction ds arbitrary: s)
  case (Cons d ds)
  then have "host_out_step mps (out_complete (None, length d)) s = s\<lparr>ho_pending := ds\<rparr>"
    by (simp add: host_out_step_defs out_complete_def Let_def)
  with Cons.IH [of "s\<lparr>ho_pending := ds\<rparr>"] Cons.prems(1) show ?case by simp
qed simp

lemma finishing_run:
  assumes "ho_pc s = HoComplete"
  shows "host_out_report (fold (host_out_step mps)
      (map (\<lambda>d. out_complete (None, length d)) (ho_pending s) @ [out_closed, out_closed, out_closed]) s)
    = Some (CloseSend True (ho_total s))"
  using assms completing_run [OF assms refl, of mps]
  by (simp add: host_out_step_defs out_closed_def host_out_report_def)

text \<open>
  C38. After a transfer of which only a part was sent, \<open>out_task\<close> records an error and goes on.
  In every run in which it waits for completions and one falls short, it can still end as
  closed by the application, announcing a count; and however it goes on, as long as no transfer
  completes with more bytes than it has, a count that it then announces to the device is that
  (modulo \<open>2 ^ 64\<close>) of all bytes taken from the queue, more than were sent, so that the device waits for bytes that never come.
\<close>

theorem host_out_counts_unsent_bytes:
  assumes "0 < mps" and "s = fold (host_out_step mps) ps host_out_init"
    and "ho_pc s = HoComplete" and "ho_pending s = d # ds" and "k < length d"
    and "t = host_out_step mps (out_complete (None, k)) s"
  shows "ho_error t = Some (PartialSend (length d) k)
    \<and> (\<exists>qs. host_out_report (fold (host_out_step mps) qs t) = Some (CloseSend True (of_nat (length (concat (ho_taken s))))))
    \<and> (\<forall>qs n. host_out_report (fold (host_out_step mps) qs t) = Some (CloseSend True n)
        \<and> (\<forall>(d', k')\<in>set (completions mps (ps @ out_complete (None, k) # qs) host_out_init). k' \<le> length d')
        \<longrightarrow> n = of_nat (length (concat (ho_taken (fold (host_out_step mps) qs t))))
          \<and> bytes_sent (completions mps (ps @ out_complete (None, k) # qs) host_out_init)
              < length (concat (ho_taken (fold (host_out_step mps) qs t)))
          \<and> (\<exists>size sent. ho_error (fold (host_out_step mps) qs t) = Some (PartialSend size sent)))"
proof -
  obtain j where "mps = Suc j" using assms(1) gr0_implies_Suc by blast
  then have inv: "host_out_inv mps s" using host_out.reachable_inv [of j ps] assms(2) by simp
  have t: "t = s\<lparr>ho_pending := ds, ho_error := Some (PartialSend (length d) k)\<rparr>"
    using assms(3-6) by (simp add: host_out_step_defs out_complete_def Let_def)
  then have "ho_pc t = HoComplete" "ho_total t = ho_total s" using assms(3) by simp_all
  from finishing_run [OF this(1), of mps, unfolded this(2)]
  have "\<exists>qs. host_out_report (fold (host_out_step mps) qs t) = Some (CloseSend True (ho_total s))"
    by blast
  then have ends: "\<exists>qs. host_out_report (fold (host_out_step mps) qs t) = Some (CloseSend True (of_nat (length (concat (ho_taken s)))))"
    using inv by (simp add: host_out_inv_def)
  let ?run = "\<lambda>qs. ps @ out_complete (None, k) # qs"
  have run: "fold (host_out_step mps) qs t = fold (host_out_step mps) (?run qs) host_out_init" for qs
    using assms(2,6) by simp
  have short: "(d, k) \<in> set (completions mps (?run qs) host_out_init)" for qs
    using assms(2-4) by (simp add: completions_append completion_def out_complete_def)
  have "n = of_nat (length (concat (ho_taken (fold (host_out_step mps) qs t))))
          \<and> bytes_sent (completions mps (?run qs) host_out_init) < length (concat (ho_taken (fold (host_out_step mps) qs t)))
          \<and> (\<exists>size sent. ho_error (fold (host_out_step mps) qs t) = Some (PartialSend size sent))"
    if report: "host_out_report (fold (host_out_step mps) qs t) = Some (CloseSend True n)"
      and le: "\<forall>(d', k')\<in>set (completions mps (?run qs) host_out_init). k' \<le> length d'" for qs n
    using announced_count [OF assms(1) report [unfolded run]] short_sum [OF le short assms(5)]
      partial_send_stays [of t mps qs] t
    unfolding run by simp
  then show ?thesis using ends t by simp
qed

theorem host_out_counts_unsent_bytes_witness:
  "\<exists>qs. host_out_report (fold (host_out_step 512) ([out_packet [1, 2, 3], out_complete (None, 1)] @ qs) host_out_init)
     = Some (CloseSend True 3)"
proof -
  let ?s = "fold (host_out_step 512) [out_packet [1, 2, 3]] host_out_init"
  have s: "ho_pc ?s = HoComplete" "ho_pending ?s = [1, 2, 3] # []" "ho_taken ?s = [[1, 2, 3]]"
    by (simp_all add: host_out_step_defs host_out_init_def out_packet_def host_out_transfers_def)
  from host_out_counts_unsent_bytes [OF _ refl s(1,2), of 1] s(3) show ?thesis by auto
qed

text \<open>A transfer arrives and is forwarded.\<close>

definition in_arrival :: "recv_packet \<Rightarrow> host_in_poll list" where
  "in_arrival p =
     [\<lparr>hip_complete = Ready \<lparr>cp_status = None, cp_actual_len = rp_actual_len p, cp_buffer = rp_buffer p,
                            cp_zero_copy = rp_is_zero_copy p\<rparr>,
       hip_tx_closed = False, hip_dead = False, hip_send = Pending\<rparr>,
      \<lparr>hip_complete = Pending, hip_tx_closed = False, hip_dead = False, hip_send = Ready True\<rparr>]"

lemma host_in_arrivals:
  "hi_pc s = HiReceive \<Longrightarrow> fold host_in_step (concat (map in_arrival ps)) s
     = s\<lparr>hi_submitted := hi_submitted s + length ps, hi_completed := hi_completed s + length ps,
         hi_sent := hi_sent s @ ps\<rparr>"
  by (induction ps arbitrary: s) (simp_all add: in_arrival_def host_in_step_defs Let_def)

text \<open>
  \<open>in_task\<close> of the native host forwards every completed transfer to the receiver's queue
  unchanged and in order, and posts a new buffer for each, so that \<open>DMA_BUFFERS + 1\<close> buffers
  are posted whenever it waits for the device.
\<close>

theorem host_in_forwards:
  "\<exists>s. fold host_in_step (concat (map in_arrival ps)) host_in_init = s
     \<and> hi_pc s = HiReceive \<and> hi_sent s = ps \<and> hi_completed s = length ps
     \<and> hi_submitted s = length ps + DMA_BUFFERS + 1 \<and> hi_error s = None"
  by (simp add: host_in_arrivals host_in_init_def)

section \<open>Properties of a connection\<close>

definition native_inv :: "nat \<Rightarrow> native_conn \<Rightarrow> bool" where
  "native_inv mps s \<longleftrightarrow>
     host_out_inv mps (nc_out s)
     \<and> closing_inv [ControlOut CLOSE []] (host_out_report (nc_out s)) (host_in_report (nc_in s))
          (nc_half_close s) (nc_log s)"

lemma report_cases:
  "host_in_report t = None \<or> (\<exists>b. host_in_report t = Some (CloseRecv b))"
  "host_out_report u = None \<or> (\<exists>b. host_out_report u = Some (CloseSend b (ho_total u)))"
  by (auto simp: host_in_report_def host_out_report_def split: host_in_pc.splits host_out_pc.splits)

lemma native_in_inv:
  assumes "native_inv mps s" and "host_in_report (nc_in s) = None"
  shows "native_inv mps (native_report (host_in_report t) (s\<lparr>nc_in := t, nc_error := e\<rparr>))"
  using report_cases(1) [of t] assms native_closing.inv_recv
  by (auto simp: native_inv_def native_report_def split: prod.split) (metis fst_conv snd_conv)

lemma native_out_inv:
  assumes "native_inv mps s" and "host_out_report (nc_out s) = None" and "host_out_inv mps u"
  shows "native_inv mps (native_report (host_out_report u) (s\<lparr>nc_out := u, nc_error := e\<rparr>))"
  using report_cases(2) [of u] assms native_closing.inv_send
  by (auto simp: native_inv_def native_report_def split: prod.split) (metis fst_conv snd_conv)

lemma host_out_inv_error [simp]: "host_out_inv mps (s\<lparr>ho_error := e\<rparr>) = host_out_inv mps s"
  by (simp add: host_out_inv_def)

lemma native_step_inv: "0 < mps \<Longrightarrow> native_inv mps s \<Longrightarrow> native_inv mps (native_step mps ev s)"
proof (cases ev)
  case (NIn p)
  then show "native_inv mps s \<Longrightarrow> ?thesis"
    using native_in_inv [of mps s] by (simp add: native_step_def Let_def)
next
  case (NOut p)
  assume "0 < mps" and inv: "native_inv mps s"
  then have "host_out_inv mps (host_out_step mps q ((nc_out s)\<lparr>ho_error := e\<rparr>))" for q e
    by (simp add: host_out_step_inv native_inv_def)
  with NOut inv show ?thesis
    using native_out_inv [of mps s] by (simp add: native_step_def Let_def)
next
  case (NStatus e)
  then show "native_inv mps s \<Longrightarrow> ?thesis"
    by (simp add: native_step_def Let_def native_inv_def)
qed

interpretation native: invariant_run "native_step (Suc k)" "native_inv (Suc k)" native_init for k
proof unfold_locales
  show "native_inv (Suc k) native_init"
    using native_closing.inv_new
    by (simp add: native_inv_def native_init_def host_in_report_def host_out_report_def
        host_in_init_def host_out_init_def host_out_inv_def DMA_BUFFERS_def)
qed (simp add: native_step_inv)

text \<open>
  C11. How a native host connection ends, for every interleaving of its tasks: CLOSE_SEND is
  sent exactly when \<open>out_task\<close> has ended because the application dropped its sender, and
  carries the number of bytes taken for sending (modulo \<open>2^64\<close>); CLOSE_RECV exactly when
  \<open>in_task\<close> has ended because the application dropped its receiver; CLOSE exactly when both
  tasks have ended, as the last request; and no request is repeated.
\<close>

theorem native_conn_closes:
  assumes "0 < mps" and "s = fold (native_step mps) evs native_init"
  shows "(\<forall>d. ControlOut CLOSE_SEND d \<in> set (nc_log s) \<longleftrightarrow>
            ho_pc (nc_out s) = HoDone True \<and> d = to_le 8 (of_nat (length (concat (ho_taken (nc_out s)))) :: u64))
    \<and> (ControlOut CLOSE_RECV [] \<in> set (nc_log s) \<longleftrightarrow> hi_pc (nc_in s) = HiDone True)
    \<and> (ControlOut CLOSE [] \<in> set (nc_log s) \<longleftrightarrow>
         (\<exists>b. ho_pc (nc_out s) = HoDone b) \<and> (\<exists>b. hi_pc (nc_in s) = HiDone b))
    \<and> distinct (nc_log s)
    \<and> (ControlOut CLOSE [] \<in> set (nc_log s) \<longrightarrow> last (nc_log s) = ControlOut CLOSE [])"
proof -
  obtain k where "mps = Suc k" using assms(1) gr0_implies_Suc by blast
  then have inv: "native_inv mps s" using native.reachable_inv [of k evs] assms(2) by simp
  then have "ho_total (nc_out s) = of_nat (length (concat (ho_taken (nc_out s))))"
    by (simp add: native_inv_def host_out_inv_def)
  moreover have "host_out_report (nc_out s) = Some (CloseSend True t) \<longleftrightarrow>
      ho_pc (nc_out s) = HoDone True \<and> t = ho_total (nc_out s)" for t
    by (auto simp: host_out_report_def split: host_out_pc.splits)
  moreover have "host_in_report (nc_in s) = Some (CloseRecv True) \<longleftrightarrow> hi_pc (nc_in s) = HiDone True"
      "host_out_report (nc_out s) \<noteq> None \<longleftrightarrow> (\<exists>b. ho_pc (nc_out s) = HoDone b)"
      "host_in_report (nc_in s) \<noteq> None \<longleftrightarrow> (\<exists>b. hi_pc (nc_in s) = HiDone b)"
    by (simp_all add: host_out_report_def host_in_report_def split: host_in_pc.splits host_out_pc.splits)
  moreover have "closing_inv [ControlOut CLOSE []] (host_out_report (nc_out s)) (host_in_report (nc_in s))
      (nc_half_close s) (nc_log s)"
    using inv by (simp add: native_inv_def)
  note native_closing.inv_log [OF this]
  ultimately show ?thesis by auto
qed

theorem native_conn_closes_witness:
  "let s = fold (native_step 512) [NOut out_closed, NOut out_closed] native_init
   in hi_pc (nc_in s) = HiReceive \<and> (ControlOut CLOSE_SEND (to_le 8 (0::u64)) \<in> set (nc_log s))"
proof -
  let ?s = "fold (native_step 512) [NOut out_closed, NOut out_closed] native_init"
  have pcs: "ho_pc (nc_out ?s) = HoDone True" "hi_pc (nc_in ?s) = HiReceive" "ho_taken (nc_out ?s) = []"
    by (simp_all add: native_step_def native_init_def host_out_step_defs host_out_init_def out_closed_def
        host_out_report_def native_report_def native_close_send_def Let_def status_init_def
        device_status_default_def host_in_init_def split: prod.splits)
  then show ?thesis
    using native_conn_closes [of 512 ?s "[NOut out_closed, NOut out_closed]"] by (simp add: Let_def)
qed

section \<open>A device that does not answer\<close>

text \<open>The error that is kept: the first one, unless a partial send overwrites it.\<close>

definition error_kept :: "native_task_error option \<Rightarrow> native_task_error option \<Rightarrow> bool" where
  "error_kept e e' \<longleftrightarrow> (e \<noteq> None \<longrightarrow> e' = e \<or> (\<exists>size' sent. e' = Some (PartialSend size' sent)))"

lemma error_kept_refl [simp]: "error_kept e e"
  by (simp add: error_kept_def)

lemma error_kept_trans: "error_kept a b \<Longrightarrow> error_kept b c \<Longrightarrow> error_kept a c"
  by (auto simp: error_kept_def)

lemma task_error_kept:
  "error_kept (hi_error t) (hi_error (host_in_step p t))"
  "error_kept (ho_error u) (ho_error (host_out_step mps q u))"
  "error_kept (ss_error v) (ss_error (status_step e v))"
  by (auto simp: error_kept_def host_in_step_defs host_out_step_defs status_step_def get_or_insert_def Let_def
      split: host_in_pc.splits host_out_pc.splits poll.splits option.splits bool.splits status_event.splits
        sum.splits prod.splits)

lemma native_step_error_kept: "error_kept (nc_error s) (nc_error (native_step mps ev s))"
  using task_error_kept(1) [of "(nc_in s)\<lparr>hi_error := nc_error s\<rparr>"]
    task_error_kept(2) [of "(nc_out s)\<lparr>ho_error := nc_error s\<rparr>" mps]
    task_error_kept(3) [of "(nc_status s)\<lparr>ss_error := nc_error s\<rparr>"]
  by (cases ev) (auto simp: native_step_def native_report_def Let_def split: option.splits prod.splits)

lemma native_run_error_kept: "error_kept (nc_error s) (nc_error (fold (native_step mps) evs s))"
  by (induction evs arbitrary: s) (auto intro: error_kept_trans native_step_error_kept)

definition idle_in :: host_in_poll where
  "idle_in = \<lparr>hip_complete = Pending, hip_tx_closed = False, hip_dead = False, hip_send = Pending\<rparr>"

text \<open>
  C31. When a STATUS request fails, the host treats the device as dead: an idle connection
  with no pending transfers then ends in one turn of each task, CLOSE is sent although
  neither direction is announced as closed, and both ends of the application get the error
  of the request (unless an earlier one was recorded).
\<close>

theorem native_dead_device:
  assumes "0 < mps" and "s = fold (native_step mps) evs native_init"
    and "hi_pc (nc_in s) = HiReceive" and "ho_pc (nc_out s) = HoData" and "ho_pending (nc_out s) = []"
    and "ss_running (nc_status s)" and "nc_error s = None"
    and "s' = fold (native_step mps) [NStatus (Answered (Inl e)), NIn idle_in, NOut q1, NOut q2] s"
  shows "nc_log s' = nc_log s @ [ControlOut CLOSE []] \<and> nc_error s' = Some (Transfer e)
    \<and> fst (host_recv True (map_option native_to_io_err (nc_error s')) r []) = Ready (Inl (transfer_to_io_err e))
    \<and> (length d \<le> hs_max_size sender \<longrightarrow>
         host_send (\<lambda>d. False) native_to_io_err (nc_error s') sender d = Inl (transfer_to_io_err e))"
proof -
  obtain k where "mps = Suc k" using assms(1) gr0_implies_Suc by blast
  then have "native_inv mps s" using native.reachable_inv [of k evs] assms(2) by simp
  then have flags: "\<not> hc_send_closed (nc_half_close s)" "\<not> hc_recv_closed (nc_half_close s)"
    using assms(3,4) by (simp_all add: native_inv_def closing_inv_def host_in_report_def host_out_report_def)
  have "nc_log s' = nc_log s @ [ControlOut CLOSE []] \<and> nc_error s' = Some (Transfer e)"
    using assms(3-8) flags
    by (simp add: native_step_def status_step_def get_or_insert_def host_in_report_def host_out_report_def
        host_in_step_defs host_out_step_defs idle_in_def native_report_def native_close_send_def
        native_close_recv_def native_close_if_both_def Let_def)
  then show ?thesis by (simp add: native_to_io_err_def host_send_def)
qed

theorem native_dead_device_witness:
  "nc_error (fold (native_step 512) [NStatus (Answered (Inl TrCancelled)), NIn idle_in, NOut out_closed, NOut out_closed]
     native_init) = Some (Transfer TrCancelled)"
  by (rule native_dead_device [of 512 native_init "[]", THEN conjunct2, THEN conjunct1])
    (simp_all add: native_init_def host_in_init_def host_out_init_def status_init_def)

end
