(* ===== verification/System.thy ===== *)
theory System
  imports Device_Connection Host_Native_Tasks
begin

text \<open>
  A native host and a device together. The interfaces of theory Packet_Interfaces are
  instantiated for both directions of a connection, so that what one application sends is
  what the other receives; the end of the send direction of the host meets the draining
  of the device; and the requests with which a host connects meet the main task.

  The wire in between is the USB controller, a function of which only the laws
  \<open>out_split_law\<close> and \<open>in_fill_law\<close> are used.
\<close>

section \<open>The two links\<close>

lemma host_out_on_wire:
  assumes "0 < mps" and "out_split_law mps split"
  shows "concat (map split (host_out_transfers mps m)) = transfers mps m"
proof (cases "m = [] \<or> \<not> mps dvd length m")
  case True
  then show ?thesis
    using out_split_rest [OF assms(2,1) True] by (auto simp: host_out_transfers_def mod_eq_0_iff_dvd)
next
  case False
  then show ?thesis
    using out_split_aligned [OF assms(2,1), of m "[]"] assms
    by (auto simp: host_out_transfers_def mod_eq_0_iff_dvd out_split_law_def)
qed

interpretation host_out_sender: packet_sender "host_out_transfers mps" mps for mps
  by unfold_locales (rule host_out_on_wire)

interpretation to_device: packet_link "host_out_transfers mps" mps "dev_recv closed err" id
    "dev_ready (mps * TRANSFER_PACKETS) L" "mps * TRANSFER_PACKETS" L
  for mps closed err L
  by unfold_locales simp

interpretation to_host: packet_link "dev_out_transfers mps (mps * TRANSFER_PACKETS)" mps
    "host_recv closed err" queue_data "host_ready (mps * TRANSFER_PACKETS) L" "mps * TRANSFER_PACKETS" L
  for mps closed err L
  by unfold_locales simp

text \<open>
  C2. From host to device: the packets that the application of the host sends, cut into
  transfers by the host's \<open>out_task\<close>, into USB packets by its controller and into transfers
  again by the device's controller, come out of the stream of the device's application
  whole, in order and nothing else, for every packet size of the bus and every packet
  length within the limit, zero and multiples of the packet size included.
\<close>

theorem host_to_device_delivery:
  assumes "0 < mps" and "out_split_law mps split" and "in_fill_law mps (mps * TRANSFER_PACKETS) fill"
    and "dev_ready (mps * TRANSFER_PACKETS) L r" and "\<forall>m\<in>set ms. length m \<le> L"
  shows "dev_stream closed None r (fill (concat (map split (concat (map (host_out_transfers mps) ms)))))
       = (map Inr ms, closed)"
  using dev_stream_run [OF assms(4,5), of closed None] to_device.wire_transfers [OF assms(1-3), of ms] by simp

theorem host_to_device_delivery_witness:
  "dev_stream True None
     \<lparr>dr_topic = [], dr_buffer = [], dr_max_size = 9, dr_max_transfer_size = 2 * TRANSFER_PACKETS\<rparr>
     (usb_fill 2 (2 * TRANSFER_PACKETS) []
       (concat (map (usb_split 2) (concat (map (host_out_transfers 2) [[1, 2], [], [3]])))))
   = ([Inr [1, 2], Inr [], Inr [3]], True)"
  using host_to_device_delivery [of 2 "usb_split 2" "usb_fill 2 (2 * TRANSFER_PACKETS) []" 9
      "\<lparr>dr_topic = [], dr_buffer = [], dr_max_size = 9, dr_max_transfer_size = 2 * TRANSFER_PACKETS\<rparr>"
      "[[1, 2], [], [3]]" True]
  by (simp add: usb_split_law usb_fill_law dev_ready_def TRANSFER_PACKETS_def)

text \<open>
  C3. From device to host: the packets that the application of the device sends, cut into
  transfers of at most \<open>TRANSFER_PACKETS\<close> USB packets by the device's \<open>out_task\<close>, come out
  of the stream of the host's application whole, in order and nothing else, whatever the
  timing with which the host's tasks hand the transfers on.
\<close>

theorem device_to_host_delivery:
  assumes "0 < mps" and "out_split_law mps split" and "in_fill_law mps (mps * TRANSFER_PACKETS) fill"
    and "host_ready (mps * TRANSFER_PACKETS) L r" and "\<forall>m\<in>set ms. length m \<le> L"
    and "queue_data q = fill (concat (map split (concat (map (dev_out_transfers mps (mps * TRANSFER_PACKETS)) ms))))"
  shows "host_stream closed None r q = (map Inr ms, closed)"
  using host_stream_run [OF assms(4,5), of q closed None] to_host.wire_transfers [OF assms(1-3), of ms] assms(6)
  by simp

theorem device_to_host_delivery_witness:
  "host_stream True None \<lparr>hr_buffer = [], hr_max_size = 9, hr_max_transfer_size = 2 * TRANSFER_PACKETS\<rparr>
     (map (\<lambda>d. [plain_packet d]) (usb_fill 2 (2 * TRANSFER_PACKETS) [] (concat (map (usb_split 2)
       (concat (map (dev_out_transfers 2 (2 * TRANSFER_PACKETS)) [[1, 2], [], [3]]))))))
   = ([Inr [1, 2], Inr [], Inr [3]], True)"
proof -
  have data: "queue_data (map (\<lambda>d. [plain_packet d]) ds) = ds" for ds by (induction ds) auto
  show ?thesis
    by (subst device_to_host_delivery [where mps = 2 and split = "usb_split 2" and L = 9
          and fill = "usb_fill 2 (2 * TRANSFER_PACKETS) []" and ms = "[[1, 2], [], [3]]"])
      (simp_all add: usb_split_law usb_fill_law host_ready_def TRANSFER_PACKETS_def data)
qed

section \<open>A regular end of the direction from host to device\<close>

text \<open>
  A regular half-close loses nothing: the host sends packets and drops its sender. The
  byte count that its \<open>out_task\<close> announces lets the device's \<open>in_task\<close>, to which it is known
  while the transfers still arrive, forward all of them and end as closed by the host; the
  device's application then reads all packets and a regular end. This holds when the last
  packet is not empty and does not fill its last transfer.
\<close>

theorem half_close_delivers_all:
  assumes "0 < mps" and "out_split_law mps split" and "in_fill_law mps (mps * TRANSFER_PACKETS) fill"
    and "dev_ready (mps * TRANSFER_PACKETS) L r" and "\<forall>m\<in>set (ms @ [m]). length m \<le> L"
    and "\<not> mps * TRANSFER_PACKETS dvd length m" and "length (concat (ms @ [m])) < 2 ^ 64"
    and "host_out_report s = Some (CloseSend True n)" and "s = fold (host_out_step mps) ps host_out_init"
    and "ho_taken s = ms @ [m]"
    and "wire = fill (concat (map split (ho_submitted s)))"
    and "t = in_task_run (concat (map (arrival (Some n)) wire) @ [idle_poll (Some n)]) (in_task_init\<lparr>in_pc := InCheck\<rparr>)"
  shows "in_pc t = InDone (Inr True) \<and> dev_stream True None r (in_sent t) = (map Inr (ms @ [m]), True)"
proof -
  let ?n = "mps * TRANSFER_PACKETS"
  obtain k where k: "mps = Suc k" using assms(1) gr0_implies_Suc by blast
  have inv: "host_out_inv mps s" using host_out.reachable_inv [of k ps] assms(9) k by simp
  then have n: "n = of_nat (length (concat (ms @ [m])))"
    and sub: "ho_submitted s = concat (map (host_out_transfers mps) (ms @ [m]))"
    using assms(8,10) by (auto simp: host_out_inv_def host_out_report_def split: host_out_pc.splits)
  have wire: "wire = concat (map (transfers ?n) (ms @ [m]))"
    using to_device.wire_transfers [OF assms(1-3), of "ms @ [m]"] assms(11) sub by simp
  have pos: "0 < ?n" using assms(1) by (simp add: TRANSFER_PACKETS_def)
  have "last (transfers ?n m) \<noteq> []" using last_transfers_Nil [OF pos, of m] assms(6) by blast
  then have last: "wire \<noteq> [] \<and> last wire \<noteq> []" by (simp add: wire)
  have len: "length (concat wire) = length (concat (ms @ [m]))"
    by (simp add: wire del: concat_append map_append)
  have "t = (in_task_init\<lparr>in_pc := InCheck\<rparr>)\<lparr>in_pc := InDone (Inr True), in_total := n, in_sent := wire\<rparr>"
    unfolding assms(12) n
    using in_task_drain_aux [of "in_task_init\<lparr>in_pc := InCheck\<rparr>" wire "length (concat (ms @ [m]))"]
      last len assms(7) by (simp add: in_inv_def sent_bytes_def in_task_init_def)
  then show ?thesis
    using dev_stream_run [OF assms(4,5), of True None] wire by simp
qed

theorem half_close_delivers_all_witness:
  "let s = fold (host_out_step 2) [out_packet [3], out_complete (None, 1), out_closed, out_closed, out_closed] host_out_init;
       wire = usb_fill 2 (2 * TRANSFER_PACKETS) [] (concat (map (usb_split 2) (ho_submitted s)))
   in in_pc (in_task_run (concat (map (arrival (Some 1)) wire) @ [idle_poll (Some 1)])
        (in_task_init\<lparr>in_pc := InCheck\<rparr>)) = InDone (Inr True)"
proof -
  let ?ps = "[out_packet [3], out_complete (None, 1), out_closed, out_closed, out_closed]"
  let ?s = "fold (host_out_step 2) ?ps host_out_init"
  have s: "host_out_report ?s = Some (CloseSend True 1)" "ho_taken ?s = [] @ [[3]]"
    by (simp_all add: host_out_step_defs host_out_init_def out_packet_def out_complete_def out_closed_def
        host_out_transfers_def host_out_report_def Let_def)
  show ?thesis
    unfolding Let_def
    by (rule half_close_delivers_all [where ms = "[]" and m = "[3]" and L = 5 and ps = ?ps
          and r = "\<lparr>dr_topic = [], dr_buffer = [], dr_max_size = 5, dr_max_transfer_size = 2 * TRANSFER_PACKETS\<rparr>",
          OF _ _ usb_fill_law _ _ _ _ s(1) refl s(2) refl refl, THEN conjunct1])
      (simp_all add: usb_split_law dev_ready_def TRANSFER_PACKETS_def)
qed

section \<open>Connecting\<close>

text \<open>The control requests of the host as events of the device's main task.\<close>

fun request_event :: "host_effect \<Rightarrow> dev_event" where
  "request_event (RequestOut c) = HostToDevice (co_request c)"
| "request_event (RequestIn c) = DeviceToHost (ci_request c)"
| "request_event _ = OtherEvent"

fun request_body :: "host_effect \<Rightarrow> bytes" where
  "request_body (RequestOut c) = co_data c"
| "request_body _ = []"

text \<open>
  The event of each request, with the environment that the device sees for it: the data of
  the request is what \<open>recv_all_async\<close> yields.
\<close>

definition deliver :: "host_effect list \<Rightarrow> dev_env list \<Rightarrow> (dev_event \<times> dev_env) list" where
  "deliver es envs =
     map2 (\<lambda>e env. (request_event e, env\<lparr>ev_body := Inr (request_body e)\<rparr>)) (requests es) envs"

text \<open>
  The requests of a successful attempt, delivered to a device that has answered for its
  capabilities, are the handshake; the limits of the host's side come from that answer and from
  the options.
\<close>

lemma deliver_native:
  assumes "native_connect_with env interface options = (es, Opens c)"
    and "ne_caps env = Inr (device_answer cfg')"
  shows "deliver es [e1, e2, e3, e4] = handshake (e1\<lparr>ev_body := Inr []\<rparr>) (e2\<lparr>ev_body := Inr []\<rparr>)
      (e3\<lparr>ev_body := Inr (host_caps_encode \<lparr>hc_max_size = of_nat (opt_max_size options)\<rparr>)\<rparr>)
      (e4\<lparr>ev_body := Inr (opt_topic options)\<rparr>)"
    and "hs_max_size (hn_sender c) = min (unat (cfg_max_size cfg')) (ne_usize_max env)"
    and "hn_receiver c = \<lparr>hr_buffer = [], hr_max_size = opt_max_size options,
           hr_max_transfer_size = hn_mps c * TRANSFER_PACKETS\<rparr>"
proof -
  let ?caps = "\<lparr>hc_max_size = of_nat (opt_max_size options)\<rparr> :: host_caps"
  obtain caps where caps: "device_caps_decode (device_answer cfg') = Inr caps"
    and reqs: "requests es =
       [RequestOut (native_control_out CLOSE 0 (ucast interface) []),
        RequestIn (native_control_in CAPABILITIES 0 (ucast interface) (of_nat CAPS_SIZE)),
        RequestOut (native_control_out CAPABILITIES 0 (ucast interface) (host_caps_encode ?caps)),
        RequestOut (native_control_out OPEN 0 (ucast interface) (opt_topic options))]"
    and host: "hs_max_size (hn_sender c) = min (unat (dc_max_size caps)) (ne_usize_max env)"
      "hn_receiver c = \<lparr>hr_buffer = [], hr_max_size = opt_max_size options,
                       hr_max_transfer_size = hn_mps c * TRANSFER_PACKETS\<rparr>"
    using connect_requests [OF assms(1)] assms(2) by auto
  show "deliver es [e1, e2, e3, e4] = handshake (e1\<lparr>ev_body := Inr []\<rparr>) (e2\<lparr>ev_body := Inr []\<rparr>)
      (e3\<lparr>ev_body := Inr (host_caps_encode ?caps)\<rparr>) (e4\<lparr>ev_body := Inr (opt_topic options)\<rparr>)"
    by (simp add: deliver_def reqs handshake_def native_control_out_def native_control_in_def)
  have "dc_max_size caps = cfg_max_size cfg'" using caps by (auto simp: device_answer_def caps_received)
  with host show "hs_max_size (hn_sender c) = min (unat (cfg_max_size cfg')) (ne_usize_max env)"
    and "hn_receiver c = \<lparr>hr_buffer = [], hr_max_size = opt_max_size options,
           hr_max_transfer_size = hn_mps c * TRANSFER_PACKETS\<rparr>" by simp_all
qed

text \<open>
  C8. A native host connects to a device: the requests of a successful attempt, handled by
  the main task of an enabled device in any state, open a new connection on both sides that
  agree. The host may send what the device is configured to receive, the device may send
  what the host's options allow (both capped by the sizes of their machines), both
  receivers use the transfer size of the other's sender, the device sees the topic, and
  the ping timeout starts.
\<close>

theorem connect_agrees:
  assumes "native_connect_with env interface options = (es, Opens c)"
    and "ne_caps env = Inr (device_answer (ev_cfg e2))"
    and "dv_mps s = Some (hn_mps c)" and "\<forall>env\<in>{e1, e2, e3, e4}. \<forall>e. ev_fail env e = None"
    and "opt_max_size options < 2 ^ 64" and "ev_cfg e4 = ev_cfg e2"
  shows "\<exists>s' fs. dev_run (deliver es [e1, e2, e3, e4]) s = Running s' fs
    \<and> last fs = Connect \<lparr>ds_max_size = min (opt_max_size options) (ev_usize_max e4)\<rparr>
        \<lparr>dr_topic = opt_topic options, dr_buffer = [],
         dr_max_size = min (unat (cfg_max_size (ev_cfg e2))) (ev_usize_max e4),
         dr_max_transfer_size = hn_mps c * TRANSFER_PACKETS\<rparr>
    \<and> hs_max_size (hn_sender c) = min (unat (cfg_max_size (ev_cfg e2))) (ne_usize_max env)
    \<and> hr_max_size (hn_receiver c) = opt_max_size options
    \<and> hr_max_transfer_size (hn_receiver c) = hn_mps c * TRANSFER_PACKETS
    \<and> dv_out_task s' = Some (out_task_init (hr_max_transfer_size (hn_receiver c)))
    \<and> dv_send_open s' \<and> dv_recv_open s' \<and> Reply (device_answer (ev_cfg e2)) \<in> set fs"
proof -
  have "unat (of_nat (opt_max_size options) :: u64) = opt_max_size options"
    using assms(5) by (simp add: unsigned_of_nat take_bit_nat_eq_self)
  then show ?thesis
    using handshake_run [of s "hn_mps c" "e1\<lparr>ev_body := Inr []\<rparr>" "e2\<lparr>ev_body := Inr []\<rparr>"
        "e3\<lparr>ev_body := Inr (host_caps_encode \<lparr>hc_max_size = of_nat (opt_max_size options)\<rparr>)\<rparr>"
        "e4\<lparr>ev_body := Inr (opt_topic options)\<rparr>"
        "\<lparr>hc_max_size = of_nat (opt_max_size options)\<rparr>" "opt_topic options"] assms(3,4,6)
      deliver_native [OF assms(1,2)]
    by auto
qed

lemma answered_native_connects:
  "\<exists>es c. native_connect_with (quiet_native\<lparr>ne_caps := Inr (device_answer cfg_default)\<rparr>) 1 options_new
     = (es, Opens c) \<and> hn_mps c = 512"
  by (simp add: native_connect_with_def quiet_native_def options_new_def native_endpoints_def after_def
      native_open_connection_def device_answer_def caps_received Let_def)

theorem connect_agrees_witness:
  "\<exists>es s' fs. dev_run (deliver es [quiet_env, quiet_env, quiet_env, quiet_env]) open_state = Running s' fs
     \<and> dv_send_open s'"
proof -
  obtain es c where c: "native_connect_with (quiet_native\<lparr>ne_caps := Inr (device_answer cfg_default)\<rparr>) 1 options_new
      = (es, Opens c)" "hn_mps c = 512"
    using answered_native_connects by blast
  obtain s' fs where "dev_run (deliver es [quiet_env, quiet_env, quiet_env, quiet_env]) open_state = Running s' fs"
      "dv_send_open s'"
    using connect_agrees [OF c(1), of quiet_env open_state quiet_env quiet_env quiet_env] c(2)
    by (auto simp: quiet_native_def options_new_def MAX_SIZE_def)
  then show ?thesis by blast
qed

section \<open>Keeping the connection alive\<close>

text \<open>
  The host asks for the status at least twice per ping timeout: from the capabilities that
  it decodes, whatever its options, it derives an interval of at most half of the timeout
  that the device is configured to enforce, provided that timeout has at least a millisecond.
\<close>

theorem status_interval_in_time:
  assumes "cfg_ping_timeout cfg' = Some t" and "from_millis 1 \<le> t"
    and "device_caps_decode (device_answer cfg') = Inr caps"
  shows "\<exists>i. status_interval caps options = Some i \<and> 2 * i \<le> t"
proof -
  have "1 \<le> as_millis t" using assms(2) by (simp add: as_millis_def from_millis_def)
  moreover define d where "d = from_millis (min (as_millis t) (2 ^ 32 - 1))"
  ultimately have "dc_ping_timeout caps = Some d" "dc_status_supported caps"
    using assms(1,3) by (auto simp: device_answer_def caps_received advertised_ping_def)
  moreover have "d \<le> t"
    unfolding d_def using from_millis_as_millis_le [of t] from_millis_mono [of "min (as_millis t) (2 ^ 32 - 1)" "as_millis t"]
    by linarith
  ultimately show ?thesis
    by (cases "opt_ping_interval options") (auto simp: status_interval_def min_def)
qed

theorem status_interval_in_time_witness:
  "\<exists>i. status_interval (device_caps_default\<lparr>dc_ping_timeout := Some (from_secs 10), dc_status_supported := True,
        dc_echo_supported := True\<rparr>) options_new = Some i \<and> 2 * i \<le> from_secs 10"
  by (rule status_interval_in_time [of cfg_default])
    (simp_all add: cfg_default_def from_millis_def from_secs_def device_answer_def caps_received
      device_caps_default_def advertised_ping_def as_millis_def)

text \<open>
  The device's half-close reaches the sender of the host: the answer of the device to
  STATUS tells the host whether the device still receives; once it says not, the next turn
  of the host's \<open>out_task\<close> stops sending, without announcing that the host is done.
\<close>

theorem status_stops_sender:
  assumes "dev_step (DeviceToHost STATUS) env s = Running s' [Reply d]"
    and "ss_running (nc_status h)" and "h1 = native_step mps (NStatus (Answered (Inr d))) h"
  shows "(st_recv_closed (ss_status (nc_status h1)) \<longleftrightarrow>
        st_recv_closed (ss_status (nc_status h)) \<or> \<not> dv_recv_open s)
    \<and> (\<not> dv_recv_open s \<and> ho_pc (nc_out h) = HoData \<longrightarrow>
        ho_pc (nc_out (native_step mps (NOut q) h1)) = HoDrain False)"
proof
  have d: "d = (if dv_recv_open s then [] else [RECV_CLOSED])"
    using assms(1) by (auto simp: dev_step_def handle_device_to_host_def handle_status_def Let_def code_consts)
  show *: "st_recv_closed (ss_status (nc_status h1)) \<longleftrightarrow>
      st_recv_closed (ss_status (nc_status h)) \<or> \<not> dv_recv_open s"
    using assms(2,3) by (auto simp: d native_step_def status_step_def status_byte_def Let_def)
  have "nc_out h1 = nc_out h" using assms(3) by (simp add: native_step_def Let_def)
  with * show "\<not> dv_recv_open s \<and> ho_pc (nc_out h) = HoData \<longrightarrow>
      ho_pc (nc_out (native_step mps (NOut q) h1)) = HoDrain False"
    by (simp add: native_step_def host_out_report_def host_out_step_defs native_report_def Let_def)
qed

theorem status_stops_sender_witness:
  "st_recv_closed (ss_status (nc_status (native_step 512 (NStatus (Answered (Inr [RECV_CLOSED]))) native_init)))"
proof -
  have "dev_step (DeviceToHost STATUS) quiet_env dev_init = Running dev_init [Reply [RECV_CLOSED]]"
    by (simp add: dev_step_def handle_device_to_host_def handle_status_def Let_def code_consts finish_def
        dev_init_def reset_deadline_def device_caps_default_def)
  from status_stops_sender [OF this, of native_init _ 512] show ?thesis
    by (simp add: native_init_def status_init_def dev_init_def)
qed

end
