(* ===== verification/Host_Web.thy ===== *)
theory Host_Web
  imports Host_Native_Tasks
begin

text \<open>
  The web backend of a host, \<open>src/host/web.rs\<close> and \<open>src/host/guard.rs\<close>: errors, the guard
  against double use of an interface, the info and probe requests, the connection attempt
  with its ECHO barrier, and the endpoint and status tasks. The browser's USB library
  supplies descriptors and results of transfers; they enter as arguments.
\<close>

section \<open>Errors and timers\<close>

datatype web_kind =
    WebUnsupported | WebAlreadyOpen | WebDisconnected | WebSecurity | WebStall | WebBabble
  | WebTransfer | WebInvalidAccess | WebOther

datatype web_error = WebError (web_kind: web_kind) string

definition web_to_io_err :: "web_error \<Rightarrow> io_error" where
  "web_to_io_err e =
     (case e of WebError k t \<Rightarrow>
        Error (case k of
            WebUnsupported \<Rightarrow> Unsupported
          | WebAlreadyOpen \<Rightarrow> ResourceBusy
          | WebDisconnected \<Rightarrow> NotFound
          | WebSecurity \<Rightarrow> PermissionDenied
          | WebStall \<Rightarrow> ConnectionAborted
          | WebBabble \<Rightarrow> ConnectionAborted
          | WebTransfer \<Rightarrow> ConnectionAborted
          | WebInvalidAccess \<Rightarrow> InvalidInput
          | WebOther \<Rightarrow> OtherKind) (Inner t))"

datatype web_task_error = WebUsb web_error | WebPartialSend nat nat

definition web_task_to_io_err :: "web_task_error \<Rightarrow> io_error" where
  "web_task_to_io_err err =
     (case err of
        WebUsb e \<Rightarrow> web_to_io_err e
      | WebPartialSend size' sent \<Rightarrow> Error WriteZero (OnlySent sent size'))"

text \<open>The milliseconds given to the browser's timer: at most \<open>i32::MAX\<close>.\<close>

definition web_sleep_ms :: "duration \<Rightarrow> nat" where
  "web_sleep_ms d = (if as_millis d \<le> 2 ^ 31 - 1 then as_millis d else 2 ^ 31 - 1)"

text \<open>\<open>timeout\<close>: the future is polled first, then the timer.\<close>

definition web_timeout :: "'a poll \<Rightarrow> bool \<Rightarrow> 'a option poll" where
  "web_timeout future timer =
     (case future of Ready x \<Rightarrow> Ready (Some x) | Pending \<Rightarrow> if timer then Ready None else Pending)"

section \<open>Guard\<close>

type_synonym in_use = "(nat \<times> u8) set"

definition guard_busy :: io_error where
  "guard_busy = Error ResourceBusy (Text ''interface is used by another UPC channel'')"

definition guard_new :: "nat \<Rightarrow> u8 \<Rightarrow> in_use \<Rightarrow> io_error + in_use" where
  "guard_new handle' interface used =
     (if (handle', interface) \<in> used then Inl guard_busy else Inr (insert (handle', interface) used))"

definition guard_drop :: "nat \<Rightarrow> u8 \<Rightarrow> in_use \<Rightarrow> in_use" where
  "guard_drop handle' interface used = used - {(handle', interface)}"

text \<open>
  The attempts to take the guard: the sets of guards in use at each attempt; \<open>None\<close> when the
  attempts given do not decide.
\<close>

fun guard_loop :: "nat \<Rightarrow> nat \<Rightarrow> u8 \<Rightarrow> in_use list \<Rightarrow> (io_error + in_use) poll" where
  "guard_loop remaining handle' interface [] = Pending"
| "guard_loop remaining handle' interface (used # later) =
     (case guard_new handle' interface used of
        Inr used' \<Rightarrow> Ready (Inr used')
      | Inl e \<Rightarrow>
          if kind e = ResourceBusy \<and> 0 < remaining
          then guard_loop (remaining - 1) handle' interface later
          else Ready (Inl e))"

section \<open>Finding, info and probe\<close>

fun web_search :: "iface_desc list \<Rightarrow> usb_class \<Rightarrow> io_error + u8" where
  "web_search [] c = Inl (Error NotFound (Text ''UPC interface not found''))"
| "web_search (i # is) c =
     (if class_code (if_class i) = class_code c \<and> sub_class (if_class i) = sub_class c
         \<and> protocol (if_class i) = protocol c
      then Inr (if_number i) else web_search is c)"

definition web_find_interface :: "iface_desc list option \<Rightarrow> usb_class \<Rightarrow> io_error + u8" where
  "web_find_interface config c =
     (case config of
        None \<Rightarrow> Inl (Error NotFound (Text ''USB device has no active configuration''))
      | Some is \<Rightarrow> web_search is c)"

text \<open>A control request of the web library has no length or data; those are arguments.\<close>

record web_request =
  wr_request :: u8
  wr_value :: u16
  wr_index :: u16

definition web_control :: "u8 \<Rightarrow> u8 \<Rightarrow> web_request" where
  "web_control request interface = \<lparr>wr_request = request, wr_value = 0, wr_index = ucast interface\<rparr>"

definition web_info ::
  "u8 \<Rightarrow> web_error option \<Rightarrow> (web_request \<Rightarrow> nat \<Rightarrow> web_error + bytes) \<Rightarrow> io_error + bytes" where
  "web_info interface claim transfer_in =
     (case claim of
        Some e \<Rightarrow> Inl (web_to_io_err e)
      | None \<Rightarrow>
          (case transfer_in (web_control INFO interface) INFO_SIZE of
             Inl e \<Rightarrow> Inl (web_to_io_err e)
           | Inr info \<Rightarrow> Inr info))"

definition web_probe ::
  "u8 \<Rightarrow> web_error option \<Rightarrow> (web_request \<Rightarrow> nat \<Rightarrow> web_error + bytes) \<Rightarrow> io_error + bool" where
  "web_probe interface claim transfer_in =
     (case claim of
        Some e \<Rightarrow> Inl (web_to_io_err e)
      | None \<Rightarrow>
          (case transfer_in (web_control PROBE interface) (length PROBE_RESPONSE) of
             Inr d \<Rightarrow> Inr (d = PROBE_RESPONSE)
           | Inl e \<Rightarrow> if web_kind e = WebStall then Inr False else Inl (web_to_io_err e)))"

section \<open>ECHO barrier\<close>

text \<open>
  What \<open>timeout(FLUSH_TIMEOUT, rx_in.recv())\<close> yields: a transfer, the end of the channel, or
  the timeout.
\<close>

datatype drained = Packet bytes | ChannelClosed | DrainTimeout

text \<open>
  The inner loop for one marker: what it ends with and what is not yet taken. \<open>None\<close> when
  the outcomes given do not decide.
\<close>

datatype round_end = MarkerSeen | ClosedSeen | TimedOutRound

fun echo_round :: "bytes \<Rightarrow> drained list \<Rightarrow> (round_end \<times> drained list) option" where
  "echo_round marker [] = None"
| "echo_round marker (Packet pkt # ds) =
     (if pkt = marker then Some (MarkerSeen, ds) else echo_round marker ds)"
| "echo_round marker (ChannelClosed # ds) = Some (ClosedSeen, ds)"
| "echo_round marker (DrainTimeout # ds) = Some (TimedOutRound, ds)"

text \<open>
  The outer loop: the markers and the result of each ECHO request are given; the requests
  sent are the markers used. It ends with the transfers not taken, with an error,
  or not at all.
\<close>

fun echo_barrier ::
  "nat \<Rightarrow> (bytes \<times> web_error option) list \<Rightarrow> drained list \<Rightarrow> bytes list \<times> (io_error + drained list) poll" where
  "echo_barrier 0 rounds ds = ([], Ready (Inl (Error TimedOut (Text ''ECHO barrier failed''))))"
| "echo_barrier (Suc retries) [] ds = ([], Pending)"
| "echo_barrier (Suc retries) ((marker, Some e) # rounds) ds = ([marker], Ready (Inl (web_to_io_err e)))"
| "echo_barrier (Suc retries) ((marker, None) # rounds) ds =
     (case echo_round marker ds of
        None \<Rightarrow> ([marker], Pending)
      | Some (MarkerSeen, ds') \<Rightarrow> ([marker], Ready (Inr ds'))
      | Some (ClosedSeen, ds') \<Rightarrow> ([marker], Ready (Inr ds'))
      | Some (TimedOutRound, ds') \<Rightarrow>
          (case echo_barrier retries rounds ds' of (ms, r) \<Rightarrow> (marker # ms, r)))"

text \<open>The length of a marker: shorter than a USB packet, so that it is a transfer of its own.\<close>

definition marker_length :: "nat \<Rightarrow> nat" where
  "marker_length mps = mps - 1"

text \<open>Without ECHO: transfers are discarded until none arrives in time.\<close>

fun timeout_drain :: "drained list \<Rightarrow> drained list poll" where
  "timeout_drain [] = Pending"
| "timeout_drain (Packet pkt # ds) = timeout_drain ds"
| "timeout_drain (_ # ds) = Ready ds"

section \<open>Connecting\<close>

definition web_endpoints ::
  "nat \<Rightarrow> u8 \<Rightarrow> iface_desc list option \<Rightarrow> io_error + (nat \<times> u8 \<times> u8)" where
  "web_endpoints usize_max interface config =
     (case config of
        None \<Rightarrow> Inl (Error NotFound (Text ''USB device has no active configuration''))
      | Some is \<Rightarrow>
          (case find (\<lambda>i. if_number i = interface) is of
             None \<Rightarrow> Inl (Error NotFound (Text ''specified interface not found''))
           | Some i \<Rightarrow>
               (case scan_endpoints (if_endpoints i) (usize_max, None, None) of
                  (mps, Some ep_in, Some ep_out) \<Rightarrow> Inr (mps, ep_in, ep_out)
                | _ \<Rightarrow> Inl (Error NotFound (Text ''endpoints not found'')))))"

datatype web_effect =
    WRelease
  | WClaim
  | WClearHalt direction
  | WControlOut web_request bytes
  | WControlIn web_request nat

record web_env =
  we_usize_max :: nat
  we_handle :: nat
  we_guards :: "in_use list"
  we_config :: "iface_desc list option"
  we_claim :: "web_error option"
  we_clear_in :: "web_error option"
  we_clear_out :: "web_error option"
  we_close :: "web_error option"
  we_caps :: "web_error + bytes"
  we_echoes :: "(bytes \<times> web_error option) list"
  we_received :: "drained list"
  we_open :: "web_error option"

text \<open>
  The removal of stale transfers, with what is left in the queue afterwards. \<open>we_echoes\<close> is
  what the random source yields for each marker, cut to the length of a marker, and the
  result of the request with it.
\<close>

definition web_drain :: "web_env \<Rightarrow> u8 \<Rightarrow> nat \<Rightarrow> device_caps \<Rightarrow> web_effect list \<times> (io_error + drained list) poll" where
  "web_drain env interface mps caps =
     (if dc_echo_supported caps then
        (case echo_barrier 50 (map (\<lambda>(random, r). (take (marker_length mps) random, r)) (we_echoes env))
            (we_received env) of
           (markers, r) \<Rightarrow> (map (\<lambda>m. WControlOut (web_control ECHO interface) m) markers, r))
      else ([], (case timeout_drain (we_received env) of Pending \<Rightarrow> Pending | Ready ds \<Rightarrow> Ready (Inr ds))))"

definition web_open_connection ::
  "web_env \<Rightarrow> u8 \<Rightarrow> upc_options \<Rightarrow> nat \<Rightarrow> u8 \<Rightarrow> u8 \<Rightarrow> web_effect list \<times> connect_outcome" where
  "web_open_connection env interface options mps ep_in ep_out =
     after [WControlIn (web_control CAPABILITIES interface) CAPS_SIZE]
       (case (case we_caps env of Inr d \<Rightarrow> device_caps_decode d | Inl e \<Rightarrow> Inr device_caps_default) of
          Inl e \<Rightarrow> ([], Fails e)
        | Inr caps \<Rightarrow>
            let host_caps = \<lparr>hc_max_size = of_nat (opt_max_size options)\<rparr>
            in after [WControlOut (web_control CAPABILITIES interface) (host_caps_encode host_caps)]
              (case web_drain env interface mps caps of
                 (es, Pending) \<Rightarrow> (es, StillWaiting)
               | (es, Ready (Inl e)) \<Rightarrow> (es, Fails e)
               | (es, Ready (Inr ds)) \<Rightarrow>
                   after es
                    (try_call [WControlOut (web_control OPEN interface) (opt_topic options)]
                      (map_option web_to_io_err (we_open env))
                      ([], Opens
                        \<lparr>hn_sender = \<lparr>hs_max_size = usize_saturating (we_usize_max env) (dc_max_size caps)\<rparr>,
                         hn_receiver = \<lparr>hr_buffer = [], hr_max_size = opt_max_size options,
                                        hr_max_transfer_size = mps * TRANSFER_PACKETS\<rparr>,
                         hn_interval = status_interval caps options,
                         hn_mps = mps, hn_ep_in = ep_in, hn_ep_out = ep_out\<rparr>))))"

definition web_connect_with :: "web_env \<Rightarrow> u8 \<Rightarrow> upc_options \<Rightarrow> web_effect list \<times> connect_outcome" where
  "web_connect_with env interface options =
     (if INFO_SIZE < length (opt_topic options) then ([], Panics)
      else
       (case guard_loop 100 (we_handle env) interface (we_guards env) of
          Pending \<Rightarrow> ([], StillWaiting)
        | Ready (Inl e) \<Rightarrow> ([], Fails e)
        | Ready (Inr used) \<Rightarrow>
       (case web_endpoints (we_usize_max env) interface (we_config env) of
          Inl e \<Rightarrow> ([], Fails e)
        | Inr (mps, ep_in, ep_out) \<Rightarrow>
            after [WRelease]
           (try_call [WClaim] (map_option web_to_io_err (we_claim env))
           (try_call [WClearHalt DirIn] (map_option web_to_io_err (we_clear_in env))
           (try_call [WClearHalt DirOut] (map_option web_to_io_err (we_clear_out env))
           (try_call [WControlOut (web_control CLOSE interface) []]
              (map_option web_to_io_err (we_close env))
              (web_open_connection env interface options mps ep_in ep_out))))))))"

definition web_connect :: "web_env \<Rightarrow> u8 \<Rightarrow> bytes \<Rightarrow> web_effect list \<times> connect_outcome" where
  "web_connect env interface topic = web_connect_with env interface (with_topic topic options_new)"

section \<open>Tasks\<close>

text \<open>\<open>in_task\<close>: the receiver's end and a dead device are seen before a transfer.\<close>

datatype web_in_pc = WiReceive | WiForward bytes | WiDone bool

record web_in_state =
  wi_pc :: web_in_pc
  wi_sent :: "recv_packet list"
  wi_error :: "web_task_error option"

record web_in_poll =
  wip_tx_closed :: bool
  wip_dead :: bool
  wip_transfer :: "(web_error + bytes) poll"
  wip_send :: "bool poll"

text \<open>The web backend's \<open>RecvPacket\<close>: all bytes, never zero-copy.\<close>

definition web_packet :: "bytes \<Rightarrow> recv_packet" where
  "web_packet d = \<lparr>rp_buffer = d, rp_actual_len = length d, rp_is_zero_copy = False\<rparr>"

definition web_in_receive :: "web_in_poll \<Rightarrow> web_in_state \<Rightarrow> web_in_state" where
  "web_in_receive p s =
     (if wip_tx_closed p then s\<lparr>wi_pc := WiDone True\<rparr>
      else if wip_dead p then s\<lparr>wi_pc := WiDone False\<rparr>
      else case wip_transfer p of
        Pending \<Rightarrow> s
      | Ready (Inr buf) \<Rightarrow> s\<lparr>wi_pc := WiForward buf\<rparr>
      | Ready (Inl e) \<Rightarrow>
          if web_kind e = WebStall then s\<lparr>wi_pc := WiDone False\<rparr>
          else s\<lparr>wi_pc := WiDone False, wi_error := get_or_insert (WebUsb e) (wi_error s)\<rparr>)"

definition web_in_step :: "web_in_poll \<Rightarrow> web_in_state \<Rightarrow> web_in_state" where
  "web_in_step p s =
     (case wi_pc s of
        WiReceive \<Rightarrow> web_in_receive p s
      | WiForward buf \<Rightarrow>
          (case wip_send p of
             Ready True \<Rightarrow> s\<lparr>wi_pc := WiReceive, wi_sent := wi_sent s @ [web_packet buf]\<rparr>
           | Ready False \<Rightarrow> s\<lparr>wi_pc := WiDone True\<rparr>
           | Pending \<Rightarrow> s)
      | WiDone host_initiated \<Rightarrow> s)"

text \<open>\<open>out_task\<close>: one transfer at a time.\<close>

datatype web_out_pc = WoData | WoSend bytes | WoTerminate | WoDone bool | WoPanic

record web_out_state =
  wo_pc :: web_out_pc
  wo_total :: u64
  wo_taken :: "bytes list"
  wo_sent :: "bytes list"
  wo_error :: "web_task_error option"

datatype web_out_event = Next bool "bytes option poll" | Transferred "web_error + nat"

definition web_out_init :: web_out_state where
  "web_out_init = \<lparr>wo_pc = WoData, wo_total = 0, wo_taken = [], wo_sent = [], wo_error = None\<rparr>"

definition web_out_fail :: "web_error \<Rightarrow> web_out_state \<Rightarrow> web_out_state" where
  "web_out_fail e s =
     (if web_kind e = WebStall then s\<lparr>wo_pc := WoDone False\<rparr>
      else s\<lparr>wo_pc := WoDone False, wo_error := get_or_insert (WebUsb e) (wo_error s)\<rparr>)"

definition web_out_step :: "nat \<Rightarrow> web_out_event \<Rightarrow> web_out_state \<Rightarrow> web_out_state" where
  "web_out_step mps ev s =
     (case (wo_pc s, ev) of
        (WoData, Next closed data) \<Rightarrow>
          if closed then s\<lparr>wo_pc := WoDone False\<rparr>
          else (case data of
            Pending \<Rightarrow> s
          | Ready None \<Rightarrow> s\<lparr>wo_pc := WoDone True\<rparr>
          | Ready (Some d) \<Rightarrow>
              s\<lparr>wo_pc := WoSend d, wo_total := wo_total s + of_nat (length d), wo_taken := wo_taken s @ [d]\<rparr>)
      | (WoSend d, Transferred (Inr sent)) \<Rightarrow>
          if sent = length d then
            let s = s\<lparr>wo_sent := wo_sent s @ [d]\<rparr>
            in if d \<noteq> [] \<and> mps = 0 then s\<lparr>wo_pc := WoPanic\<rparr>
               else if d \<noteq> [] \<and> length d mod mps = 0 then s\<lparr>wo_pc := WoTerminate\<rparr>
               else s\<lparr>wo_pc := WoData\<rparr>
          else s\<lparr>wo_pc := WoDone False, wo_error := Some (WebPartialSend (length d) sent)\<rparr>
      | (WoSend d, Transferred (Inl e)) \<Rightarrow> web_out_fail e s
      | (WoTerminate, Transferred (Inr sent)) \<Rightarrow> s\<lparr>wo_pc := WoData, wo_sent := wo_sent s @ [[]]\<rparr>
      | (WoTerminate, Transferred (Inl e)) \<Rightarrow> web_out_fail e s
      | _ \<Rightarrow> s)"

text \<open>\<open>status_task\<close>.\<close>

record web_status_state =
  ws_status :: device_status
  ws_running :: bool
  ws_error :: "web_task_error option"

datatype web_status_event = WebTasksGone | WebAnswered "web_error + bytes"

definition web_status_step :: "web_status_event \<Rightarrow> web_status_state \<Rightarrow> web_status_state" where
  "web_status_step ev s =
     (if \<not> ws_running s then s
      else case ev of
        WebTasksGone \<Rightarrow> s\<lparr>ws_running := False\<rparr>
      | WebAnswered (Inr d) \<Rightarrow> s\<lparr>ws_status := fold status_byte d (ws_status s)\<rparr>
      | WebAnswered (Inl e) \<Rightarrow>
          s\<lparr>ws_error := get_or_insert (WebUsb e) (ws_error s),
            ws_status := (ws_status s)\<lparr>st_dead := True\<rparr>, ws_running := False\<rparr>)"

section \<open>Properties of the barrier\<close>

lemma echo_round_shape:
  "echo_round marker ds = Some (MarkerSeen, ds') \<Longrightarrow>
     \<exists>stale. ds = map Packet stale @ Packet marker # ds' \<and> marker \<notin> set stale"
proof (induction marker ds rule: echo_round.induct)
  case (2 marker pkt ds)
  show ?case
  proof (cases "pkt = marker")
    case True
    with 2 show ?thesis by (intro exI [of _ "[]"]) simp
  next
    case False
    with 2 obtain stale where "ds = map Packet stale @ Packet marker # ds'" "marker \<notin> set stale" by auto
    with False show ?thesis by (intro exI [of _ "pkt # stale"]) simp
  qed
qed auto

lemma echo_round_closed: "echo_round marker ds = Some (ClosedSeen, ds') \<Longrightarrow> \<exists>pre. ds = pre @ ChannelClosed # ds'"
proof (induction marker ds rule: echo_round.induct)
  case (2 marker pkt ds)
  then obtain pre where "ds = pre @ ChannelClosed # ds'" by (auto split: if_splits)
  then have "Packet pkt # ds = (Packet pkt # pre) @ ChannelClosed # ds'" by simp
  then show ?case by blast
next
  case (3 marker ds)
  then have "ChannelClosed # ds = [] @ ChannelClosed # ds'" by simp
  then show ?case by blast
qed auto

lemma echo_round_timeout: "echo_round marker ds = Some (TimedOutRound, ds') \<Longrightarrow> \<exists>pre. ds = pre @ ds'"
proof (induction marker ds rule: echo_round.induct)
  case (2 marker pkt ds)
  then obtain pre where "ds = pre @ ds'" by (auto split: if_splits)
  then have "Packet pkt # ds = (Packet pkt # pre) @ ds'" by simp
  then show ?case by blast
next
  case (4 marker ds)
  then have "DrainTimeout # ds = [DrainTimeout] @ ds'" by simp
  then show ?case by blast
qed auto

lemma echo_round_finds: "marker \<notin> set stale \<Longrightarrow>
  echo_round marker (map Packet stale @ Packet marker # ds) = Some (MarkerSeen, ds)"
  by (induction stale) auto

lemma echo_barrier_ends:
  "echo_barrier n rounds ds = (ms, Ready (Inr ds')) \<Longrightarrow>
     length ms \<le> n \<and> ms \<noteq> [] \<and> (\<exists>pre. ds = pre @ Packet (last ms) # ds' \<or> ds = pre @ ChannelClosed # ds')"
proof (induction n rounds ds arbitrary: ms rule: echo_barrier.induct)
  case (4 retries marker rounds ds)
  consider "echo_round marker ds = Some (MarkerSeen, ds')" "ms = [marker]"
    | "echo_round marker ds = Some (ClosedSeen, ds')" "ms = [marker]"
    | ds1 ms1 where "echo_round marker ds = Some (TimedOutRound, ds1)"
      "echo_barrier retries rounds ds1 = (ms1, Ready (Inr ds'))" "ms = marker # ms1"
    using "4.prems" by (auto split: option.splits prod.splits round_end.splits)
  then show ?case
  proof cases
    case 1
    then show ?thesis using echo_round_shape [OF 1(1)] by auto
  next
    case 2
    then show ?thesis using echo_round_closed [OF 2(1)] by auto
  next
    case 3
    obtain pre where pre: "ds = pre @ ds1" using echo_round_timeout [OF 3(1)] by blast
    from "4.IH" [OF 3(1) refl refl 3(2)] obtain pre' where
      "length ms1 \<le> retries" "ms1 \<noteq> []" "ds1 = pre' @ Packet (last ms1) # ds' \<or> ds1 = pre' @ ChannelClosed # ds'"
      by auto
    with pre 3(3) have "length ms \<le> Suc retries \<and> ms \<noteq> []
        \<and> (ds = (pre @ pre') @ Packet (last ms) # ds' \<or> ds = (pre @ pre') @ ChannelClosed # ds')"
      by auto
    then show ?thesis by blast
  qed
qed auto

text \<open>
  The ECHO barrier of the web host. When it succeeds on an open channel, everything up to
  and including the transfer that equals its last marker has been discarded and nothing
  behind it; it sends at most as many ECHO requests as it has retries. And it succeeds in
  the first round, whatever stale transfers are queued, when the echo arrives behind them
  in time and none of them equals the marker.
\<close>

theorem echo_barrier_separates:
  "(\<forall>ms ds'. echo_barrier n rounds ds = (ms, Ready (Inr ds')) \<and> ChannelClosed \<notin> set ds \<longrightarrow>
       length ms \<le> n \<and> (\<exists>pre. ds = pre @ Packet (last ms) # ds'))
   \<and> (marker \<notin> set stale \<longrightarrow>
       echo_barrier (Suc n) ((marker, None) # rounds) (map Packet stale @ Packet marker # fresh)
         = ([marker], Ready (Inr fresh)))"
proof (intro conjI allI impI)
  fix ms ds' assume "echo_barrier n rounds ds = (ms, Ready (Inr ds')) \<and> ChannelClosed \<notin> set ds"
  with echo_barrier_ends [of n rounds ds ms ds'] show "length ms \<le> n" "\<exists>pre. ds = pre @ Packet (last ms) # ds'"
    by fastforce+
next
  assume "marker \<notin> set stale"
  then show "echo_barrier (Suc n) ((marker, None) # rounds) (map Packet stale @ Packet marker # fresh)
      = ([marker], Ready (Inr fresh))"
    by (simp add: echo_round_finds)
qed

theorem echo_barrier_separates_witness:
  "echo_barrier 50 [([9, 9], None)] (map Packet [[1], [2]] @ Packet [9, 9] # [Packet [3]])
     = ([[9, 9]], Ready (Inr [Packet [3]]))"
  using echo_barrier_separates [of 49 "[]" "[]" "[9, 9]" "[[1], [2]]" "[Packet [3]]"] by simp

section \<open>Properties of the tasks\<close>

definition web_out_inv :: "nat \<Rightarrow> web_out_state \<Rightarrow> bool" where
  "web_out_inv mps s \<longleftrightarrow>
     wo_pc s \<noteq> WoPanic
     \<and> wo_total s = of_nat (length (concat (wo_taken s)))
     \<and> (case wo_pc s of
          WoData \<Rightarrow> wo_sent s = concat (map (host_out_transfers mps) (wo_taken s)) \<and> wo_error s = None
        | WoSend d \<Rightarrow> wo_taken s \<noteq> [] \<and> last (wo_taken s) = d \<and> wo_error s = None
            \<and> wo_sent s = concat (map (host_out_transfers mps) (butlast (wo_taken s)))
        | WoTerminate \<Rightarrow> wo_error s = None
            \<and> wo_sent s @ [[]] = concat (map (host_out_transfers mps) (wo_taken s))
        | WoDone b \<Rightarrow> b \<longrightarrow> wo_error s = None
            \<and> wo_sent s = concat (map (host_out_transfers mps) (wo_taken s))
        | WoPanic \<Rightarrow> True)"

lemma butlast_last_concat:
  "xs \<noteq> [] \<Longrightarrow> concat (map f xs) = concat (map f (butlast xs)) @ f (last xs)"
  by (induction xs rule: rev_induct) simp_all

lemma web_out_step_inv:
  assumes "0 < mps" and "web_out_inv mps s"
  shows "web_out_inv mps (web_out_step mps ev s)"
proof (cases "wo_pc s")
  case WoData
  then show ?thesis
    using assms(2) by (cases ev) (auto simp: web_out_inv_def web_out_step_def split: poll.splits option.splits)
next
  case (WoSend d)
  then have all: "concat (map (host_out_transfers mps) (wo_taken s)) = wo_sent s @ host_out_transfers mps d"
    using assms(2) butlast_last_concat [of "wo_taken s" "host_out_transfers mps"]
    by (auto simp: web_out_inv_def)
  show ?thesis
  proof (cases ev)
    case (Transferred r)
    with WoSend assms all show ?thesis
      by (cases r) (auto simp: web_out_inv_def web_out_step_def web_out_fail_def host_out_transfers_def Let_def)
  qed (use WoSend assms in \<open>auto simp: web_out_step_def\<close>)
next
  case WoTerminate
  show ?thesis
  proof (cases ev)
    case (Transferred r)
    with WoTerminate assms show ?thesis
      by (cases r) (auto simp: web_out_inv_def web_out_step_def web_out_fail_def)
  qed (use WoTerminate assms in \<open>auto simp: web_out_step_def\<close>)
qed (use assms in \<open>auto simp: web_out_inv_def web_out_step_def split: web_out_event.splits\<close>)

interpretation web_out: invariant_run "web_out_step (Suc k)" "web_out_inv (Suc k)" web_out_init for k
proof unfold_locales
  show "web_out_inv (Suc k) web_out_init" by (simp add: web_out_inv_def web_out_init_def)
qed (simp add: web_out_step_inv)

text \<open>
  When \<open>out_task\<close> of the web host ends because the application dropped its sender, every
  packet taken from the queue has been sent in full, with its empty transfer where one is
  due, no error is recorded, and the byte count it announces is that of these packets
  (modulo \<open>2^64\<close>).
\<close>

theorem web_out_all_sent:
  assumes "0 < mps" and "s = fold (web_out_step mps) evs web_out_init" and "wo_pc s = WoDone True"
  shows "wo_sent s = concat (map (host_out_transfers mps) (wo_taken s)) \<and> wo_error s = None
    \<and> wo_total s = of_nat (length (concat (wo_taken s)))"
proof -
  obtain k where "mps = Suc k" using assms(1) gr0_implies_Suc by blast
  then have "web_out_inv mps s" using web_out.reachable_inv [of k evs] assms(2) by simp
  then show ?thesis unfolding web_out_inv_def using assms(3) by simp
qed

theorem web_out_all_sent_witness:
  "wo_sent (fold (web_out_step 2) [Next False (Ready (Some [1, 2])), Transferred (Inr 2), Transferred (Inr 0),
      Next False (Ready None)] web_out_init) = [[1, 2], []]"
proof -
  let ?evs = "[Next False (Ready (Some [1, 2])), Transferred (Inr 2), Transferred (Inr 0), Next False (Ready None)]"
  let ?s = "fold (web_out_step 2) ?evs web_out_init"
  have pc: "wo_pc ?s = WoDone True" "wo_taken ?s = [[1, 2]]"
    by (simp_all add: web_out_step_def web_out_init_def Let_def)
  show ?thesis
    using web_out_all_sent [OF _ refl pc(1)] pc(2) by (simp add: host_out_transfers_def)
qed

end
