(* ===== verification/Host_Web_Connection.thy ===== *)
theory Host_Web_Connection
  imports Host_Web
begin

text \<open>
  A connection of the web host, \<open>src/host/web.rs\<close>: its three tasks, which share the error, the
  device's status and the half-close handle, and every interleaving of them. The structure is
  that of the native host; the handle also releases the interface at the end.
\<close>

section \<open>The tasks together\<close>

definition web_in_init :: web_in_state where
  "web_in_init = \<lparr>wi_pc = WiReceive, wi_sent = [], wi_error = None\<rparr>"

definition web_status_init :: web_status_state where
  "web_status_init = \<lparr>ws_status = device_status_default, ws_running = True, ws_error = None\<rparr>"

text \<open>What a task reports to the half-close handle when it ends.\<close>

definition web_in_report :: "web_in_state \<Rightarrow> close_call option" where
  "web_in_report s = (case wi_pc s of WiDone host_initiated \<Rightarrow> Some (CloseRecv host_initiated) | _ \<Rightarrow> None)"

definition web_out_report :: "web_out_state \<Rightarrow> close_call option" where
  "web_out_report s =
     (case wo_pc s of WoDone host_initiated \<Rightarrow> Some (CloseSend host_initiated (wo_total s)) | _ \<Rightarrow> None)"

record web_conn =
  wc_in :: web_in_state
  wc_out :: web_out_state
  wc_status :: web_status_state
  wc_error :: "web_task_error option"
  wc_half_close :: half_close
  wc_log :: "host_request list"

text \<open>A turn of a task, given what it awaits; the status it sees is filled in by the step.\<close>

datatype web_event = WIn web_in_poll | WOut web_out_event | WStatus web_status_event

definition web_init :: web_conn where
  "web_init =
     \<lparr>wc_in = web_in_init, wc_out = web_out_init, wc_status = web_status_init, wc_error = None,
      wc_half_close = half_close_new, wc_log = []\<rparr>"

definition web_report :: "close_call option \<Rightarrow> web_conn \<Rightarrow> web_conn" where
  "web_report c s =
     (case c of
        None \<Rightarrow> s
      | Some c \<Rightarrow>
          (case hc_call web_close_send web_close_recv c (wc_half_close s) of
             (h, out) \<Rightarrow> s\<lparr>wc_half_close := h, wc_log := wc_log s @ out\<rparr>))"

fun with_status :: "device_status \<Rightarrow> web_out_event \<Rightarrow> web_out_event" where
  "with_status st (Next closed data) = Next (st_recv_closed st \<or> st_dead st) data"
| "with_status st (Transferred r) = Transferred r"

definition web_step :: "nat \<Rightarrow> web_event \<Rightarrow> web_conn \<Rightarrow> web_conn" where
  "web_step mps ev s =
     (case ev of
        WIn p \<Rightarrow>
          if web_in_report (wc_in s) \<noteq> None then s
          else let t = web_in_step (p\<lparr>wip_dead := st_dead (ws_status (wc_status s))\<rparr>)
                         ((wc_in s)\<lparr>wi_error := wc_error s\<rparr>)
               in web_report (web_in_report t) (s\<lparr>wc_in := t, wc_error := wi_error t\<rparr>)
      | WOut e \<Rightarrow>
          if web_out_report (wc_out s) \<noteq> None then s
          else let t = web_out_step mps (with_status (ws_status (wc_status s)) e)
                         ((wc_out s)\<lparr>wo_error := wc_error s\<rparr>)
               in web_report (web_out_report t) (s\<lparr>wc_out := t, wc_error := wo_error t\<rparr>)
      | WStatus e \<Rightarrow>
          let t = web_status_step e ((wc_status s)\<lparr>ws_error := wc_error s\<rparr>)
          in s\<lparr>wc_status := t, wc_error := ws_error t\<rparr>)"

section \<open>How a connection ends\<close>

text \<open>The invariant of \<open>out_task\<close>, whatever error other tasks have recorded.\<close>

definition web_out_core :: "nat \<Rightarrow> web_out_state \<Rightarrow> bool" where
  "web_out_core mps s \<longleftrightarrow> web_out_inv mps (s\<lparr>wo_error := None\<rparr>)"

lemma web_out_core_error [simp]: "web_out_core mps (s\<lparr>wo_error := e\<rparr>) = web_out_core mps s"
  by (simp add: web_out_core_def)

lemma web_out_inv_no_error: "web_out_inv mps s \<Longrightarrow> web_out_inv mps (s\<lparr>wo_error := None\<rparr>)"
  by (simp add: web_out_inv_def split: web_out_pc.splits)

lemma web_out_step_error:
  "(web_out_step mps ev s)\<lparr>wo_error := None\<rparr> = (web_out_step mps ev (s\<lparr>wo_error := None\<rparr>))\<lparr>wo_error := None\<rparr>"
  by (simp add: web_out_step_def web_out_fail_def Let_def
      split: web_out_pc.split web_out_event.split poll.split option.split sum.split)

lemma web_out_step_core: "0 < mps \<Longrightarrow> web_out_core mps s \<Longrightarrow> web_out_core mps (web_out_step mps ev s)"
  unfolding web_out_core_def web_out_step_error [of mps ev s]
  by (rule web_out_inv_no_error [OF web_out_step_inv])

definition web_inv :: "nat \<Rightarrow> web_conn \<Rightarrow> bool" where
  "web_inv mps s \<longleftrightarrow>
     web_out_core mps (wc_out s)
     \<and> closing_inv [ControlOut CLOSE [], ReleaseInterface] (web_out_report (wc_out s)) (web_in_report (wc_in s))
          (wc_half_close s) (wc_log s)"

lemma web_report_cases:
  "web_in_report t = None \<or> (\<exists>b. web_in_report t = Some (CloseRecv b))"
  "web_out_report u = None \<or> (\<exists>b. web_out_report u = Some (CloseSend b (wo_total u)))"
  by (auto simp: web_in_report_def web_out_report_def split: web_in_pc.splits web_out_pc.splits)

lemma web_in_inv:
  assumes "web_inv mps s" and "web_in_report (wc_in s) = None"
  shows "web_inv mps (web_report (web_in_report t) (s\<lparr>wc_in := t, wc_error := e\<rparr>))"
  using web_report_cases(1) [of t] assms web_closing.inv_recv
  by (auto simp: web_inv_def web_report_def split: prod.split) (metis fst_conv snd_conv)

lemma web_out_conn_inv:
  assumes "web_inv mps s" and "web_out_report (wc_out s) = None" and "web_out_core mps u"
  shows "web_inv mps (web_report (web_out_report u) (s\<lparr>wc_out := u, wc_error := e\<rparr>))"
  using web_report_cases(2) [of u] assms web_closing.inv_send
  by (auto simp: web_inv_def web_report_def split: prod.split) (metis fst_conv snd_conv)

interpretation web: invariant_run "web_step (Suc k)" "web_inv (Suc k)" web_init for k
proof unfold_locales
  show "web_inv (Suc k) web_init"
    using web_closing.inv_new
    by (simp add: web_inv_def web_init_def web_in_init_def web_out_init_def web_in_report_def web_out_report_def
        web_out_core_def web_out_inv_def)
next
  fix s ev assume inv: "web_inv (Suc k) s"
  show "web_inv (Suc k) (web_step (Suc k) ev s)"
  proof (cases ev)
    case (WIn p)
    then show ?thesis using inv web_in_inv [of "Suc k" s] by (simp add: web_step_def Let_def)
  next
    case (WOut e)
    have "web_out_core (Suc k) (web_out_step (Suc k) e' ((wc_out s)\<lparr>wo_error := x\<rparr>))" for e' x
      using inv by (intro web_out_step_core) (simp_all add: web_inv_def)
    with WOut inv show ?thesis using web_out_conn_inv [of "Suc k" s] by (simp add: web_step_def Let_def)
  next
    case (WStatus e)
    then show ?thesis using inv by (simp add: web_step_def Let_def web_inv_def)
  qed
qed

text \<open>
  C13. How a web host connection ends, for every interleaving of its tasks: CLOSE_SEND is sent
  exactly when \<open>out_task\<close> has ended because the application dropped its sender, and then every
  packet taken was sent in full and the announced count is theirs; CLOSE_RECV exactly when
  \<open>in_task\<close> has ended because the application dropped its receiver; CLOSE exactly when both
  have ended, followed by the release of the interface as the last action, and nothing is
  repeated.
\<close>

theorem web_conn_closes:
  assumes "0 < mps" and "s = fold (web_step mps) evs web_init"
  shows "(\<forall>d. ControlOut CLOSE_SEND d \<in> set (wc_log s) \<longleftrightarrow>
            wo_pc (wc_out s) = WoDone True \<and> d = to_le 8 (of_nat (length (concat (wo_taken (wc_out s)))) :: u64))
    \<and> (wo_pc (wc_out s) = WoDone True \<longrightarrow>
         wo_sent (wc_out s) = concat (map (host_out_transfers mps) (wo_taken (wc_out s))))
    \<and> (ControlOut CLOSE_RECV [] \<in> set (wc_log s) \<longleftrightarrow> wi_pc (wc_in s) = WiDone True)
    \<and> (ControlOut CLOSE [] \<in> set (wc_log s) \<longleftrightarrow>
         (\<exists>b. wo_pc (wc_out s) = WoDone b) \<and> (\<exists>b. wi_pc (wc_in s) = WiDone b))
    \<and> distinct (wc_log s)
    \<and> (ControlOut CLOSE [] \<in> set (wc_log s) \<longrightarrow>
         (\<exists>pre. wc_log s = pre @ [ControlOut CLOSE [], ReleaseInterface]))"
proof -
  obtain k where "mps = Suc k" using assms(1) gr0_implies_Suc by blast
  then have inv: "web_inv mps s" using web.reachable_inv [of k evs] assms(2) by simp
  then have out: "web_out_inv mps ((wc_out s)\<lparr>wo_error := None\<rparr>)" by (simp add: web_inv_def web_out_core_def)
  have "wo_total (wc_out s) = of_nat (length (concat (wo_taken (wc_out s))))"
    using out by (simp add: web_out_inv_def)
  moreover have "wo_pc (wc_out s) = WoDone True \<Longrightarrow>
      wo_sent (wc_out s) = concat (map (host_out_transfers mps) (wo_taken (wc_out s)))"
    using out by (simp add: web_out_inv_def)
  moreover have "web_out_report (wc_out s) = Some (CloseSend True t) \<longleftrightarrow>
      wo_pc (wc_out s) = WoDone True \<and> t = wo_total (wc_out s)" for t
    by (auto simp: web_out_report_def split: web_out_pc.splits)
  moreover have "web_in_report (wc_in s) = Some (CloseRecv True) \<longleftrightarrow> wi_pc (wc_in s) = WiDone True"
      "web_out_report (wc_out s) \<noteq> None \<longleftrightarrow> (\<exists>b. wo_pc (wc_out s) = WoDone b)"
      "web_in_report (wc_in s) \<noteq> None \<longleftrightarrow> (\<exists>b. wi_pc (wc_in s) = WiDone b)"
    by (simp_all add: web_out_report_def web_in_report_def split: web_in_pc.splits web_out_pc.splits)
  moreover have "closing_inv [ControlOut CLOSE [], ReleaseInterface] (web_out_report (wc_out s))
      (web_in_report (wc_in s)) (wc_half_close s) (wc_log s)"
    using inv by (simp add: web_inv_def)
  note web_closing.inv_log [OF this]
  ultimately show ?thesis by simp
qed

theorem web_conn_closes_witness:
  "\<exists>s :: web_conn. wo_pc (wc_out s) = WoDone True \<and> ControlOut CLOSE_SEND (to_le 8 (2 :: u64)) \<in> set (wc_log s)"
proof -
  let ?evs = "[WOut (Next False (Ready (Some [1, 2]))), WOut (Transferred (Inr 2)), WOut (Next False (Ready None))]"
  obtain s where s: "s = fold (web_step 512) ?evs web_init" by simp
  have "wo_pc (wc_out s) = WoDone True" "wo_taken (wc_out s) = [[1, 2]]"
    by (simp_all add: s web_step_def web_init_def web_out_init_def web_out_step_def web_out_report_def
        web_report_def web_status_init_def device_status_default_def Let_def web_close_send_def half_close_new_def
        split: prod.split)
  then show ?thesis using web_conn_closes [OF _ s] by (intro exI [of _ s]) simp
qed

section \<open>A connection attempt that fails\<close>

text \<open>
  The tasks run before the connection is opened. When the attempt fails after it has started
  them, both ends of the application are dropped: the receiver is gone, and no packet was
  ever sent.
\<close>

lemma web_out_idle:
  assumes "web_out_core mps s" and "wo_taken s = []"
  shows "wo_pc s = WoData \<or> (\<exists>b. wo_pc s = WoDone b)"
  using assms by (cases "wo_pc s") (auto simp: web_out_core_def web_out_inv_def)

text \<open>
  A failed attempt of the web host to connect leaves nothing behind: whatever its tasks
  have done until the attempt failed, one more turn of each ends both, sends CLOSE and
  releases the interface, as the last actions.
\<close>

theorem web_failed_connect_releases:
  assumes "0 < mps" and "s = fold (web_step mps) evs web_init" and "wo_taken (wc_out s) = []"
    and "wip_tx_closed p" and "wip_send p = Ready False"
    and "s' = fold (web_step mps) [WIn p, WOut (Next closed (Ready None))] s"
  shows "(\<exists>b. wi_pc (wc_in s') = WiDone b) \<and> (\<exists>b. wo_pc (wc_out s') = WoDone b)
    \<and> (\<exists>pre. wc_log s' = pre @ [ControlOut CLOSE [], ReleaseInterface])"
proof -
  obtain k where k: "mps = Suc k" using assms(1) gr0_implies_Suc by blast
  have inv: "web_inv mps s" using web.reachable_inv [of k evs] assms(2) k by simp
  define s1 where "s1 = web_step mps (WIn p) s"
  have s': "s' = web_step mps (WOut (Next closed (Ready None))) s1" using assms(6) by (simp add: s1_def)
  have inv': "web_inv mps s'" using web.run_inv [of k s] inv k assms(6) by blast
  have in_done: "\<exists>b. wi_pc (wc_in s1) = WiDone b" and out: "wc_out s1 = wc_out s"
    using assms(4,5)
    by (auto simp: s1_def web_step_def web_in_report_def web_in_step_def web_in_receive_def web_report_def Let_def
        split: web_in_pc.split prod.split)
  have "wo_pc (wc_out s1) = WoData \<or> (\<exists>b. wo_pc (wc_out s1) = WoDone b)"
    using web_out_idle [of mps "wc_out s"] inv assms(3) by (simp add: web_inv_def out)
  then have out_done: "\<exists>b. wo_pc (wc_out s') = WoDone b" and "wc_in s' = wc_in s1"
    by (auto simp: s' web_step_def web_out_report_def web_out_step_def web_report_def Let_def split: prod.split)
  with in_done have in_done': "\<exists>b. wi_pc (wc_in s') = WiDone b" by simp
  have "closing_inv [ControlOut CLOSE [], ReleaseInterface] (web_out_report (wc_out s')) (web_in_report (wc_in s'))
      (wc_half_close s') (wc_log s')"
    using inv' by (simp add: web_inv_def)
  note log = web_closing.inv_log [OF this]
  have "web_out_report (wc_out s') \<noteq> None" "web_in_report (wc_in s') \<noteq> None"
    using out_done in_done' by (auto simp: web_out_report_def web_in_report_def)
  then have "\<exists>pre. wc_log s' = pre @ [ControlOut CLOSE [], ReleaseInterface]" using log by simp
  with out_done in_done' show ?thesis by blast
qed

theorem web_failed_connect_releases_witness:
  "\<exists>pre. wc_log (fold (web_step 512)
      [WIn \<lparr>wip_tx_closed = True, wip_dead = False, wip_transfer = Pending, wip_send = Ready False\<rparr>,
       WOut (Next False (Ready None))] web_init) = pre @ [ControlOut CLOSE [], ReleaseInterface]"
  by (rule web_failed_connect_releases [where evs = "[]" and mps = 512 and s = web_init, THEN conjunct2, THEN conjunct2])
    (simp_all add: web_init_def web_out_init_def)

end
