(* ===== verification/System_Close.thy ===== *)
theory System_Close
  imports System Host_Web_Connection
begin

text \<open>
  How a connection ends on both sides: the end of the device's send direction as the host
  sees it, and the end of a host's connection as the device's main task sees it.
\<close>

section \<open>A regular end of the direction from device to host\<close>

text \<open>The completion with which the host learns that the device has halted its endpoint.\<close>

definition halted :: host_in_poll where
  "halted = \<lparr>hip_complete = Ready \<lparr>cp_status = Some TrStall, cp_actual_len = 0, cp_buffer = [], cp_zero_copy = False\<rparr>,
     hip_tx_closed = False, hip_dead = False, hip_send = Pending\<rparr>"

lemma out_task_end:
  assumes "dv_out_task d = Some t" and "out_pc t = OutFlush" and "\<forall>e. ev_fail env e = None"
  shows "\<exists>d'. dev_step (OutTask (OpDone (Inr ()))) env d = Running d' [LockTx, ControlTx, HaltTx] \<and> \<not> dv_send_open d'
     \<and> dv_recv_open d' = dv_recv_open d \<and> dv_in_task d' = dv_in_task d"
  using assms
  by (simp add: dev_step_def poll_out_task_def out_task_step.simps handle_out_done_def Let_def finish_def tx_locked_def)

text \<open>
  C7. The mirror image of the regular half-close: the application of the device sends packets
  and drops its sender. \<open>out_task\<close> ends after its last transfer, the main task closes the send
  direction and halts the endpoint, in every state in which that task is the one it runs, and
  leaves the receive direction and its task as they are; the host's \<open>in_task\<close> takes this as a regular end, without
  an error and without announcing anything, and the application of the host reads all packets,
  of every length up to its limit, and then the end of the stream. No call of the device fails here.
\<close>

theorem device_half_close_delivers:
  assumes "0 < mps" and "out_split_law mps split" and "in_fill_law mps (mps * TRANSFER_PACKETS) fill"
    and "host_ready (mps * TRANSFER_PACKETS) L r" and "\<forall>m\<in>set ms. length m \<le> L"
    and "t = out_task_run (Started (Inr mps) # concat (map (packet_events mps (mps * TRANSFER_PACKETS)) ms)
               @ [Received None]) (out_task_init (mps * TRANSFER_PACKETS))"
    and "dv_out_task d = Some t" and "\<forall>e. ev_fail env e = None"
    and "map rp_data ps = fill (concat (map split (concat (map op_transfer (out_ops t)))))"
    and "h = fold host_in_step (concat (map in_arrival ps) @ [halted]) host_in_init" and "concat q = hi_sent h"
  shows "(\<exists>d'. dev_step (OutTask (OpDone (Inr ()))) env d = Running d' [LockTx, ControlTx, HaltTx] \<and> \<not> dv_send_open d'
        \<and> dv_recv_open d' = dv_recv_open d \<and> dv_in_task d' = dv_in_task d)
    \<and> host_in_report h = Some (CloseRecv False) \<and> hi_error h = None
    \<and> host_stream True None r q = (map Inr ms, True)"
proof -
  let ?n = "mps * TRANSFER_PACKETS"
  have "0 < ?n" using assms(1) by (simp add: TRANSFER_PACKETS_def)
  from out_task_drained [OF assms(1) this, of ms] obtain ops where
    t: "t = \<lparr>out_pc = OutFlush, out_ops = ops, out_max_transfer_size = ?n\<rparr>"
    and ops: "concat (map op_transfer ops) = concat (map (dev_out_transfers mps ?n) ms)"
    using assms(6) by auto
  have h: "h = host_in_init\<lparr>hi_pc := HiDone False, hi_submitted := hi_submitted host_in_init + length ps,
      hi_completed := length ps + 1, hi_sent := ps\<rparr>"
    unfolding assms(10) by (simp add: host_in_arrivals host_in_init_def halted_def host_in_step_defs)
  have "queue_data q = fill (concat (map split (concat (map (dev_out_transfers mps ?n) ms))))"
    using assms(9,11) by (simp add: queue_data_def h t ops)
  then have "host_stream True None r q = (map Inr ms, True)"
    using host_stream_run [OF assms(4,5), of q True None] to_host.wire_transfers [OF assms(1-3), of ms] by simp
  moreover have "\<exists>d'. dev_step (OutTask (OpDone (Inr ()))) env d = Running d' [LockTx, ControlTx, HaltTx] \<and> \<not> dv_send_open d'
      \<and> dv_recv_open d' = dv_recv_open d \<and> dv_in_task d' = dv_in_task d"
    using out_task_end [OF assms(7) _ assms(8)] t by simp
  ultimately show ?thesis by (simp add: h host_in_report_def host_in_init_def)
qed

theorem device_half_close_delivers_witness:
  "\<exists>t :: out_state. \<exists>h :: host_in_state.
     (\<exists>d'. dev_step (OutTask (OpDone (Inr ()))) quiet_env (open_state\<lparr>dv_out_task := Some t\<rparr>)
              = Running d' [LockTx, ControlTx, HaltTx] \<and> \<not> dv_send_open d' \<and> dv_recv_open d')
     \<and> concat (map op_transfer (out_ops t)) = [[1, 2], [], [3]]
     \<and> host_in_report h = Some (CloseRecv False)
     \<and> host_stream True None \<lparr>hr_buffer = [], hr_max_size = 9, hr_max_transfer_size = 2 * TRANSFER_PACKETS\<rparr> [hi_sent h]
         = ([Inr [1, 2], Inr [3]], True)"
proof -
  let ?n = "2 * TRANSFER_PACKETS"
  let ?r = "\<lparr>hr_buffer = [], hr_max_size = 9, hr_max_transfer_size = ?n\<rparr>"
  obtain t where t: "t = out_task_run (Started (Inr 2) # concat (map (packet_events 2 ?n) [[1, 2], [3]]) @ [Received None])
      (out_task_init ?n)" by simp
  define wire where "wire = usb_fill 2 ?n [] (concat (map (usb_split 2) (concat (map op_transfer (out_ops t)))))"
  obtain h where h: "h = fold host_in_step (concat (map in_arrival (map plain_packet wire)) @ [halted]) host_in_init"
    by simp
  have data: "rp_data \<circ> plain_packet = id" by (rule ext) simp
  have ops: "concat (map op_transfer (out_ops t)) = [[1, 2], [], [3]]"
    by (simp add: t packet_events_def out_packet_ops_returns out_task_init_def out_task_step.simps TRANSFER_PACKETS_def
        parts.simps numeral_2_eq_2)
  let ?d = "open_state\<lparr>dv_out_task := Some t\<rparr>"
  have "(\<exists>d'. dev_step (OutTask (OpDone (Inr ()))) quiet_env ?d = Running d' [LockTx, ControlTx, HaltTx] \<and> \<not> dv_send_open d'
        \<and> dv_recv_open d' = dv_recv_open ?d \<and> dv_in_task d' = dv_in_task ?d)
      \<and> host_in_report h = Some (CloseRecv False) \<and> hi_error h = None
      \<and> host_stream True None ?r [hi_sent h] = (map Inr [[1, 2], [3]], True)"
    by (rule device_half_close_delivers [where mps = 2 and L = 9 and ms = "[[1, 2], [3]]" and ps = "map plain_packet wire"
          and split = "usb_split 2" and fill = "usb_fill 2 ?n []" and d = ?d
          and env = quiet_env, OF _ usb_split_law usb_fill_law _ _ t _ _ _ h])
      (simp_all add: host_ready_def TRANSFER_PACKETS_def data wire_def)
  then show ?thesis using ops by (intro exI [of _ t] exI [of _ h]) auto
qed

section \<open>The end of a host's connection\<close>

text \<open>The control requests that the device's main task handles in a run, with their data.\<close>

definition asked :: "(dev_event \<times> dev_env) list \<Rightarrow> host_request list" where
  "asked tr =
     concat (map (\<lambda>(ev, env). case ev of
        HostToDevice r \<Rightarrow> [ControlOut r (case ev_body env of Inr d \<Rightarrow> d | Inl e \<Rightarrow> [])]
      | _ \<Rightarrow> []) tr)"

lemma asked_simps [simp]:
  "asked [] = []" "asked (a @ b) = asked a @ asked b"
  "asked ((HostToDevice r, env) # tr) = ControlOut r (case ev_body env of Inr d \<Rightarrow> d | Inl e \<Rightarrow> []) # asked tr"
  by (simp_all add: asked_def)

lemma asked_Cons_Nil: "asked (x # tr) = [] \<longleftrightarrow> asked [x] = [] \<and> asked tr = []"
  by (simp add: asked_def)

lemma asked_last:
  "asked tr = xs @ [ControlOut r b] \<Longrightarrow> \<exists>tr1 env tr2. tr = tr1 @ (HostToDevice r, env) # tr2 \<and> asked tr2 = []"
proof (induction tr rule: rev_induct)
  case (snoc x tr)
  show ?case
  proof (cases "asked [x] = []")
    case True
    with snoc obtain tr1 env tr2 where "tr = tr1 @ (HostToDevice r, env) # tr2" "asked tr2 = []" by auto
    with True show ?thesis by (intro exI [of _ tr1] exI [of _ env] exI [of _ "tr2 @ [x]"]) simp
  next
    case False
    then obtain r' env where x: "x = (HostToDevice r', env)"
      by (cases x) (auto simp: asked_def split: dev_event.splits)
    with snoc.prems show ?thesis by (intro exI [of _ tr] exI [of _ env] exI [of _ "[]"]) auto
  qed
qed simp

lemma dev_run_append:
  "dev_run (a @ b) s = Running s'' es \<Longrightarrow>
     \<exists>s' fs gs. dev_run a s = Running s' fs \<and> dev_run b s' = Running s'' gs"
proof (induction a arbitrary: s es)
  case (Cons x a)
  obtain ev env where x: "x = (ev, env)" by (cases x)
  from Cons.prems obtain s1 e1 e2 where "dev_step ev env s = Running s1 e1" "dev_run (a @ b) s1 = Running s'' e2"
    unfolding x append_Cons by (rule dev_run_ConsE)
  with Cons.IH show ?case unfolding x by (meson dev_run_Cons)
qed simp

lemma close_closes:
  "dev_step (HostToDevice CLOSE) env s = Running s' es \<Longrightarrow> dev_conn s' = (False, False)"
  by (auto simp: dev_step_def handle_host_to_device_def handle_close_def Let_def code_consts dev_conn_def)

lemma closed_stays:
  "dev_run tr s = Running s' es \<Longrightarrow> dev_reachable s \<Longrightarrow> dev_conn s = (False, False) \<Longrightarrow> asked tr = []
     \<Longrightarrow> dev_conn s' = (False, False)"
proof (induction tr arbitrary: s es)
  case (Cons x tr)
  obtain ev env where x: "x = (ev, env)" by (cases x)
  from Cons.prems(1) obtain s1 e1 e2 where step: "dev_step ev env s = Running s1 e1" and run: "dev_run tr s1 = Running s' e2"
    unfolding x by (rule dev_run_ConsE)
  have "dev_conn s1 = conn_next (conn_event_of ev env s) (False, False)"
    using dev_step_conn [OF step] Cons.prems(3) by simp
  moreover have "ev \<noteq> HostToDevice r" for r using Cons.prems(4) by (auto simp: x)
  ultimately have "dev_conn s1 = (False, False)" by (auto simp: conn_event_of_def split: dev_event.splits)
  moreover have "asked tr = []" using Cons.prems(4) by (simp add: asked_Cons_Nil [of x tr])
  ultimately show ?case using Cons.IH run dev_reachable.step [OF Cons.prems(2) step] by blast
qed simp

definition control_requests :: "host_request list \<Rightarrow> host_request list" where
  "control_requests log = filter (\<lambda>m. m \<noteq> ReleaseInterface) log"

lemma closing_log:
  assumes "0 < mps"
    and "log = nc_log (fold (native_step mps) evs native_init) \<or> log = wc_log (fold (web_step mps) wevs web_init)"
    and "ControlOut CLOSE [] \<in> set log"
  shows "\<exists>told. control_requests log = told @ [ControlOut CLOSE []]"
proof -
  obtain k where k: "mps = Suc k" using assms(1) gr0_implies_Suc by blast
  from assms(2) show ?thesis
  proof
    let ?s = "fold (native_step mps) evs native_init"
    assume log: "log = nc_log ?s"
    have "native_inv mps ?s" using native.reachable_inv [of k evs] k by simp
    then have "closing_inv [ControlOut CLOSE []] (host_out_report (nc_out ?s)) (host_in_report (nc_in ?s))
        (nc_half_close ?s) log"
      by (simp add: native_inv_def log)
    from native_closing.inv_log [OF this] assms(3) obtain told where "log = told @ [ControlOut CLOSE []]" by auto
    then show ?thesis by (auto simp: control_requests_def)
  next
    let ?s = "fold (web_step mps) wevs web_init"
    assume log: "log = wc_log ?s"
    have "web_inv mps ?s" using web.reachable_inv [of k wevs] k by simp
    then have "closing_inv [ControlOut CLOSE [], ReleaseInterface] (web_out_report (wc_out ?s)) (web_in_report (wc_in ?s))
        (wc_half_close ?s) log"
      by (simp add: web_inv_def log)
    from web_closing.inv_log [OF this] assms(3) obtain told where
      "log = told @ [ControlOut CLOSE [], ReleaseInterface]" by auto
    then show ?thesis by (auto simp: control_requests_def)
  qed
qed

text \<open>
  C12. When both directions of a host's connection have ended, the device has no connection
  either: the control requests that a native or a web host sends until its CLOSE, handled by
  the main task of a device in any reachable state among any other events, leave both
  directions of the device closed and its endpoint tasks gone.
\<close>

theorem host_end_closes_device:
  assumes "0 < mps"
    and "log = nc_log (fold (native_step mps) evs native_init) \<or> log = wc_log (fold (web_step mps) wevs web_init)"
    and "ControlOut CLOSE [] \<in> set log"
    and "dev_reachable d" and "asked tr = control_requests log" and "dev_run tr d = Running d' es"
  shows "\<not> dv_send_open d' \<and> \<not> dv_recv_open d' \<and> dv_in_task d' = None \<and> dv_out_task d' = None"
proof -
  obtain told where "asked tr = told @ [ControlOut CLOSE []]"
    using closing_log [OF assms(1-3)] assms(5) by auto
  from asked_last [OF this] obtain tr1 env tr2 where tr: "tr = tr1 @ (HostToDevice CLOSE, env) # tr2" "asked tr2 = []"
    by blast
  obtain d1 fs gs where run1: "dev_run tr1 d = Running d1 fs"
    and run2: "dev_run ((HostToDevice CLOSE, env) # tr2) d1 = Running d' gs"
    using dev_run_append assms(6) unfolding tr(1) by blast
  from run2 obtain d2 e1 e2 where step: "dev_step (HostToDevice CLOSE) env d1 = Running d2 e1"
    and rest: "dev_run tr2 d2 = Running d' e2" by (rule dev_run_ConsE)
  have reach: "dev_reachable d2" using dev_run_reachable [OF run1 assms(4)] step by (rule dev_reachable.step)
  have "dev_conn d' = (False, False)"
    using closed_stays [OF rest reach close_closes [OF step] tr(2)] .
  moreover have "dev_inv d'" by (rule dev_reachable_inv [OF dev_run_reachable [OF rest reach]])
  ultimately show ?thesis by (simp add: dev_conn_def dev_inv_def)
qed

theorem host_end_closes_device_witness:
  "\<exists>log d' es. ControlOut CLOSE_SEND (to_le 8 (0 :: u64)) \<in> set log
     \<and> dev_run (map (\<lambda>m. case m of ControlOut r b \<Rightarrow> (HostToDevice r, quiet_env\<lparr>ev_body := Inr b\<rparr>)
           | ReleaseInterface \<Rightarrow> (OtherEvent, quiet_env)) log) open_state = Running d' es
     \<and> \<not> dv_send_open d' \<and> \<not> dv_recv_open d'"
proof -
  let ?evs = "[NOut out_closed, NOut out_closed, NIn (idle_in\<lparr>hip_tx_closed := True\<rparr>)]"
  let ?s = "fold (native_step 512) ?evs native_init"
  let ?log = "[ControlOut CLOSE_SEND (to_le 8 (0 :: u64)), ControlOut CLOSE_RECV [], ControlOut CLOSE []]"
  let ?tr = "map (\<lambda>m. case m of ControlOut r b \<Rightarrow> (HostToDevice r, quiet_env\<lparr>ev_body := Inr b\<rparr>)
           | ReleaseInterface \<Rightarrow> (OtherEvent, quiet_env)) ?log"
  have log: "?log = nc_log ?s"
    by (simp add: native_step_def native_init_def host_out_step_defs host_out_init_def out_closed_def
        host_in_step_defs host_in_init_def idle_in_def host_out_report_def host_in_report_def native_report_def
        native_close_send_def native_close_recv_def native_close_if_both_def half_close_new_def status_init_def
        device_status_default_def Let_def)
  have asked: "asked ?tr = control_requests ?log" by (simp add: control_requests_def)
  obtain d' es where run: "dev_run ?tr open_state = Running d' es"
    by (simp add: dev_run.simps dev_step_def handle_host_to_device_def handle_close_send_def handle_close_recv_def
        handle_close_def Let_def finish_def quiet_env_def rx_locked_def tx_locked_def open_state_def code_consts
        reset_effects_def stop_tasks_def in_holds_lock_def)
  have "\<not> dv_send_open d' \<and> \<not> dv_recv_open d' \<and> dv_in_task d' = None \<and> dv_out_task d' = None"
    by (rule host_end_closes_device [OF _ disjI1 [OF log] _ open_state_reachable asked run]) simp_all
  with run show ?thesis by (intro exI [of _ ?log] exI [of _ d'] exI [of _ es]) simp
qed

end
