(* ===== verification/System_Web.thy ===== *)
theory System_Web
  imports System_Close
begin

text \<open>
  A web host and a device at the start of a connection: the transfers that an earlier
  connection has left behind, the ECHO barrier that removes them with the help of the
  device's main task, and the connection that then opens on both sides.
\<close>

section \<open>Stale packets\<close>

text \<open>
  Whatever packets are on the wire, the transfer that a short packet completes ends with it;
  a transfer shorter than a USB packet is one packet.
\<close>

lemma in_fill_until_short:
  assumes "in_fill_law mps (k * mps) fill" and "0 < mps" and "0 < k" and "length p < mps"
    and "list_all (\<lambda>q. length q \<le> mps) qs" and "list_all (\<lambda>q. length q = mps) ps" and "length ps < k"
  shows "\<exists>ts t. (\<forall>rest. fill (ps @ qs @ p # rest) = ts @ (t @ p) # fill rest)
     \<and> (\<forall>u\<in>set ts. length u < mps \<longrightarrow> u \<in> set qs) \<and> (t = [] \<or> mps \<le> length t)"
  using assms(5-7)
proof (induction qs arbitrary: ps)
  case Nil
  have len: "length (concat ps) = length ps * mps" using Nil(2) by (induction ps) auto
  then have "length (concat ps) < k * mps" using Nil(3) assms(2) by simp
  then have "fill (ps @ p # rest) = (concat ps @ p) # fill rest" for rest
    using assms(1,4) Nil(2) by (simp add: in_fill_law_def)
  moreover have "concat ps = [] \<or> mps \<le> length (concat ps)" using len by (cases ps) auto
  ultimately show ?case by (intro exI [of _ "[]"] exI [of _ "concat ps"]) simp
next
  case (Cons q qs)
  have len: "length (concat ps) = length ps * mps" using Cons.prems(2) by (induction ps) auto
  then have room: "length (concat ps) < k * mps" using Cons.prems(3) assms(2) by simp
  have len': "length (concat (ps @ [q])) = length ps * mps + length q" using len by simp
  show ?case
  proof (cases "length q < mps \<or> length q = mps \<and> Suc (length ps) = k")
    case True
    then have step: "fill (ps @ q # rest) = concat (ps @ [q]) # fill rest" for rest
      using assms(1) Cons.prems(2) room len' by (auto simp: in_fill_law_def)
    from Cons.IH [of "[]"] Cons.prems assms(3) obtain ts t where
      ih: "\<forall>rest. fill (qs @ p # rest) = ts @ (t @ p) # fill rest"
        "\<forall>u\<in>set ts. length u < mps \<longrightarrow> u \<in> set qs" "t = [] \<or> mps \<le> length t" by auto
    have "length (concat (ps @ [q])) < mps \<Longrightarrow> concat (ps @ [q]) = q"
      using len' len by (cases ps) auto
    with step ih show ?thesis
      by (intro exI [of _ "concat (ps @ [q]) # ts"] exI [of _ t]) auto
  next
    case False
    then have "length q = mps" "Suc (length ps) < k" using Cons.prems by auto
    with Cons.IH [of "ps @ [q]"] Cons.prems obtain ts t where
      "\<forall>rest. fill (ps @ q # qs @ p # rest) = ts @ (t @ p) # fill rest"
      "\<forall>u\<in>set ts. length u < mps \<longrightarrow> u \<in> set qs" "t = [] \<or> mps \<le> length t" by auto
    then show ?thesis by (intro exI [of _ ts] exI [of _ t]) auto
  qed
qed

section \<open>The barrier and the device\<close>

text \<open>
  What the host's queue yields while markers are echoed onto a wire that still holds packets:
  after each marker the transfers it completes, and a timeout before the next marker.
\<close>

fun echoed :: "(bytes \<Rightarrow> bytes list) \<Rightarrow> (bytes list \<Rightarrow> bytes list) \<Rightarrow> bytes list \<Rightarrow> bytes list \<Rightarrow> drained list" where
  "echoed split fill wire [] = []"
| "echoed split fill wire [m] = map Packet (fill (wire @ split m))"
| "echoed split fill wire (m # ms) =
     map Packet (fill (wire @ split m)) @ DrainTimeout # echoed split fill [] ms"

fun drained_transfers :: "drained list \<Rightarrow> bytes list" where
  "drained_transfers [] = []"
| "drained_transfers (Packet d # ds) = d # drained_transfers ds"
| "drained_transfers (_ # ds) = drained_transfers ds"

lemma drained_transfers_append [simp]:
  "drained_transfers (as @ bs) = drained_transfers as @ drained_transfers bs"
  by (induction as rule: drained_transfers.induct) auto

lemma drained_transfers_Packet [simp]: "drained_transfers (map Packet ts) = ts"
  by (induction ts) auto

lemma echo_round_misses:
  "marker \<notin> set ts \<Longrightarrow> echo_round marker (map Packet ts @ DrainTimeout # ds) = Some (TimedOutRound, ds)"
  by (induction ts) auto

lemma out_split_short: "out_split_law mps split \<Longrightarrow> length m < mps \<Longrightarrow> split m = [m]"
  by (cases m) (auto simp: out_split_law_def)

lemma echo_barrier_cleans:
  assumes "out_split_law mps split" and "in_fill_law mps (mps * TRANSFER_PACKETS) fill" and "0 < mps"
    and "list_all (\<lambda>p. length p \<le> mps) stale" and "length m1 < mps" and "length m2 < mps" and "m1 \<notin> set stale"
  shows "\<exists>used. (used = [m1] \<or> used = [m1, m2])
    \<and> (\<forall>n rounds ds. echo_barrier (Suc (Suc n)) ((m1, None) # (m2, None) # rounds) (echoed split fill stale used @ ds)
           = (used, Ready (Inr ds)))
    \<and> (\<forall>rest. fill (stale @ concat (map split used) @ rest)
           = drained_transfers (echoed split fill stale used) @ fill rest)"
proof -
  have fill: "in_fill_law mps (TRANSFER_PACKETS * mps) fill" "fill [] = []"
    using assms(2) by (simp_all add: mult.commute in_fill_law_def)
  have k: "0 < TRANSFER_PACKETS" by (simp add: TRANSFER_PACKETS_def)
  have split: "split m1 = [m1]" "split m2 = [m2]" using out_split_short [OF assms(1)] assms(5,6) by auto
  obtain ts t where first: "\<And>rest. fill (stale @ m1 # rest) = ts @ (t @ m1) # fill rest"
      "\<forall>u\<in>set ts. length u < mps \<longrightarrow> u \<in> set stale" "t = [] \<or> mps \<le> length t"
    using in_fill_until_short [OF fill(1) assms(3) k assms(5,4), of "[]"] k by auto
  have second: "fill (m2 # rest) = m2 # fill rest" for rest
    using in_fill_until_short [OF fill(1) assms(3) k assms(6), of "[]" "[]"] fill(1) assms(3,6) k
    by (auto simp: in_fill_law_def dest: spec [of _ "[]"])
  have "m1 \<notin> set ts" using first(2) assms(5,7) by blast
  show ?thesis
  proof (cases "t = []")
    case True
    then show ?thesis
      using first(1) fill(2) split echo_round_finds [OF \<open>m1 \<notin> set ts\<close>] by (intro exI [of _ "[m1]"]) simp
  next
    case False
    with first(3) assms(3) have "m1 \<notin> set (ts @ [t @ m1])" using \<open>m1 \<notin> set ts\<close> by auto
    from echo_round_misses [OF this] show ?thesis
      using first(1) second fill(2) split by (intro exI [of _ "[m1, m2]"]) simp
  qed
qed

text \<open>
  C10. A web host starts clean: whatever USB packets an earlier connection has left on the way
  to the host, among them the beginning of a packet that never ends, the ECHO barrier with
  a device that sends every marker back removes all of them and nothing else, within two
  markers (the first may arrive merged with a rest; the second cannot), provided that no stale
  packet happens to equal the first marker. What the application of the device sends then is
  read whole and in order by the application of the host.
\<close>

theorem web_starts_clean:
  assumes "0 < mps" and "out_split_law mps split" and "in_fill_law mps (mps * TRANSFER_PACKETS) fill"
    and "list_all (\<lambda>p. length p \<le> mps) stale" and "m1 \<notin> set stale"
    and "m1 = take (marker_length mps) random1" and "m2 = take (marker_length mps) random2"
    and "host_ready (mps * TRANSFER_PACKETS) L r" and "\<forall>m\<in>set ms. length m \<le> L"
    and "fresh = concat (map split (concat (map (dev_out_transfers mps (mps * TRANSFER_PACKETS)) ms)))"
  shows "\<exists>used. (used = [m1] \<or> used = [m1, m2])
    \<and> (\<forall>ds. echo_barrier 50 ((m1, None) # (m2, None) # rounds) (echoed split fill stale used @ ds)
           = (used, Ready (Inr ds)))
    \<and> (\<forall>q. fill (stale @ concat (map split used) @ fresh)
             = drained_transfers (echoed split fill stale used) @ queue_data q
           \<longrightarrow> host_stream closed None r q = (map Inr ms, closed))"
proof -
  have short: "length m1 < mps" "length m2 < mps" using assms(1,6,7) by (auto simp: marker_length_def)
  obtain used where used: "used = [m1] \<or> used = [m1, m2]"
    "\<And>n ds. echo_barrier (Suc (Suc n)) ((m1, None) # (m2, None) # rounds) (echoed split fill stale used @ ds)
       = (used, Ready (Inr ds))"
    "\<And>rest. fill (stale @ concat (map split used) @ rest)
       = drained_transfers (echoed split fill stale used) @ fill rest"
    using echo_barrier_cleans [OF assms(2,3,1,4) short assms(5)] by blast
  have fresh: "fill fresh = concat (map (transfers (mps * TRANSFER_PACKETS)) ms)"
    using to_host.wire_transfers [OF assms(1-3), of ms] assms(10) by simp
  have stream: "host_stream closed None r q = (map Inr ms, closed)" if "queue_data q = fill fresh" for q
    using host_stream_run [OF assms(8,9), of q closed None] that fresh by simp
  show ?thesis
    using used(1) used(2) [of 48] used(3) [of fresh] stream
    by (intro exI [of _ used]) (simp add: numeral_eq_Suc)
qed

theorem web_starts_clean_witness:
  "\<exists>used. (used = [[7]] \<or> used = [[7], [8]])
     \<and> (\<forall>ds. echo_barrier 50 [([7], None), ([8], None)]
           (echoed (usb_split 2) (usb_fill 2 (2 * TRANSFER_PACKETS) []) [[1, 2], [3], [4, 5]] used @ ds)
         = (used, Ready (Inr ds)))"
  using web_starts_clean [of 2 "usb_split 2" "usb_fill 2 (2 * TRANSFER_PACKETS) []" "[[1, 2], [3], [4, 5]]" "[7]" "[7]" "[8]" "[8]" 9
      "\<lparr>hr_buffer = [], hr_max_size = 9, hr_max_transfer_size = 2 * TRANSFER_PACKETS\<rparr>" "[[1], [2, 3]]" _ "[]" True]
  by (auto simp: usb_split_law usb_fill_law host_ready_def marker_length_def TRANSFER_PACKETS_def)

section \<open>Connecting\<close>

text \<open>The control requests of a connection attempt as events of the device's main task, with their data.\<close>

fun web_requests :: "web_effect list \<Rightarrow> (dev_event \<times> bytes) list" where
  "web_requests [] = []"
| "web_requests (WControlOut c d # es) = (HostToDevice (wr_request c), d) # web_requests es"
| "web_requests (WControlIn c n # es) = (DeviceToHost (wr_request c), []) # web_requests es"
| "web_requests (_ # es) = web_requests es"

lemma wr_request_web_control [simp]: "wr_request (web_control request interface) = request"
  by (simp add: web_control_def)

lemma web_requests_append [simp]: "web_requests (es @ fs) = web_requests es @ web_requests fs"
  by (induction es rule: web_requests.induct) auto

lemma web_requests_echoes [simp]:
  "web_requests (map (\<lambda>m. WControlOut (web_control ECHO i) m) ms) = map (Pair (HostToDevice ECHO)) ms"
  by (induction ms) auto

definition web_deliver :: "web_effect list \<Rightarrow> dev_env list \<Rightarrow> (dev_event \<times> dev_env) list" where
  "web_deliver es envs = map2 (\<lambda>(ev, d) env. (ev, env\<lparr>ev_body := Inr d\<rparr>)) (web_requests es) envs"

lemma web_connect_requests:
  assumes "web_connect_with env interface options = (es, Opens c)"
    and "we_caps env = Inr (device_answer cfg')"
  shows "\<exists>ms ds. echo_barrier 50 (map (\<lambda>(random, r). (take (marker_length (hn_mps c)) random, r)) (we_echoes env))
        (we_received env) = (ms, Ready (Inr ds))
    \<and> web_requests es =
       [(HostToDevice CLOSE, []), (DeviceToHost CAPABILITIES, []),
        (HostToDevice CAPABILITIES, host_caps_encode \<lparr>hc_max_size = of_nat (opt_max_size options)\<rparr>)]
       @ map (Pair (HostToDevice ECHO)) ms @ [(HostToDevice OPEN, opt_topic options)]
    \<and> hs_max_size (hn_sender c) = min (unat (cfg_max_size cfg')) (we_usize_max env)
    \<and> hn_receiver c = \<lparr>hr_buffer = [], hr_max_size = opt_max_size options,
                       hr_max_transfer_size = hn_mps c * TRANSFER_PACKETS\<rparr>"
proof -
  have snd: "snd (web_connect_with env interface options) = Opens c" using assms(1) by simp
  obtain mps ep_in ep_out used where eps:
      "web_endpoints (we_usize_max env) interface (we_config env) = Inr (mps, ep_in, ep_out)"
      "guard_loop 100 (we_handle env) interface (we_guards env) = Ready (Inr used)"
    using snd by (auto simp: web_connect_with_def split: if_splits sum.splits poll.splits)
  have ok: "\<not> INFO_SIZE < length (opt_topic options)" "we_claim env = None" "we_clear_in env = None"
      "we_clear_out env = None" "we_close env = None"
    and opened: "snd (web_open_connection env interface options mps ep_in ep_out) = Opens c"
    using snd eps by (auto simp: web_connect_with_def split: if_splits)
  have es: "es = [WRelease, WClaim, WClearHalt DirIn, WClearHalt DirOut, WControlOut (web_control CLOSE interface) []]
      @ fst (web_open_connection env interface options mps ep_in ep_out)"
    using assms(1) eps ok by (simp add: web_connect_with_def after_def)
  obtain caps where caps: "device_caps_decode (device_answer cfg') = Inr caps" "dc_echo_supported caps"
      "dc_max_size caps = cfg_max_size cfg'"
    by (simp add: device_answer_def caps_received)
  show ?thesis
    using opened assms(2) caps unfolding es
    by (auto simp: web_open_connection_def web_drain_def Let_def usize_saturating_min
        split: prod.splits poll.splits sum.splits)
qed

text \<open>A device without a connection answers every ECHO by sending the data back.\<close>

definition echo_effects :: "bytes \<Rightarrow> dev_effect list" where
  "echo_effects m = [RecvAll, LockTx, EchoSend m, EchoFlush]"

lemma dev_run_echoes:
  assumes "\<not> dv_send_open s" and "\<not> dv_recv_open s" and "\<not> tx_locked s"
  shows "length envs = length ms \<Longrightarrow> \<forall>env\<in>set envs. \<forall>e. ev_fail env e = None \<Longrightarrow>
     dev_run (map2 (\<lambda>(ev, d) env. (ev, env\<lparr>ev_body := Inr d\<rparr>)) (map (Pair (HostToDevice ECHO)) ms) envs) s
       = Running s (concat (map echo_effects ms))"
proof (induction envs ms rule: list_induct2)
  case (Cons env envs m ms)
  then have "dev_step (HostToDevice ECHO) (env\<lparr>ev_body := Inr m\<rparr>) s = Running s (echo_effects m)"
    using assms
    by (simp add: dev_step_def handle_host_to_device_def handle_echo_def finish_def code_consts echo_effects_def)
  with Cons show ?case by (simp add: dev_run_Cons)
qed simp

lemma dev_run_appendI:
  "dev_run a s = Running s1 fs \<Longrightarrow> dev_run b s1 = Running s2 gs \<Longrightarrow> dev_run (a @ b) s = Running s2 (fs @ gs)"
proof (induction a arbitrary: s fs)
  case (Cons x a)
  obtain ev env where x: "x = (ev, env)" by (cases x)
  from Cons.prems(1) obtain s' e1 e2 where "dev_step ev env s = Running s' e1" "dev_run a s' = Running s1 e2"
      "fs = e1 @ e2"
    unfolding x by (rule dev_run_ConsE)
  with Cons show ?case by (simp add: x dev_run_Cons)
qed simp

text \<open>The markers that the device sends back in a run.\<close>

fun echoes_sent :: "dev_effect list \<Rightarrow> bytes list" where
  "echoes_sent [] = []"
| "echoes_sent (EchoSend m # es) = m # echoes_sent es"
| "echoes_sent (_ # es) = echoes_sent es"

lemma echoes_sent_append [simp]: "echoes_sent (es @ fs) = echoes_sent es @ echoes_sent fs"
  by (induction es rule: echoes_sent.induct) auto

lemma echoes_sent_effects [simp]: "echoes_sent (concat (map echo_effects ms)) = ms"
  by (induction ms) (simp_all add: echo_effects_def)

lemma prepare_run:
  assumes "\<forall>env\<in>{e1, e2, e3}. \<forall>e. ev_fail env e = None"
  shows "\<exists>s' fs. dev_run [(HostToDevice CLOSE, e1\<lparr>ev_body := Inr []\<rparr>), (DeviceToHost CAPABILITIES, e2\<lparr>ev_body := Inr []\<rparr>),
        (HostToDevice CAPABILITIES, e3\<lparr>ev_body := Inr (host_caps_encode caps)\<rparr>)] s = Running s' fs
    \<and> \<not> dv_send_open s' \<and> \<not> dv_recv_open s' \<and> \<not> tx_locked s' \<and> \<not> rx_locked s' \<and> dv_mps s' = dv_mps s
    \<and> dv_host_caps s' = caps \<and> echoes_sent fs = [] \<and> Reply (device_answer (ev_cfg e2)) \<in> set fs"
  using assms
  by (simp add: dev_run.simps(2) dev_step_def handle_host_to_device_def handle_device_to_host_def handle_close_def
      handle_device_caps_def handle_host_caps_def Let_def finish_def code_consts stop_tasks_def reset_effects_def
      tx_locked_def rx_locked_def caps_received device_answer_def)

lemma open_step:
  assumes "\<not> dv_send_open s" "\<not> dv_recv_open s" "\<not> tx_locked s" "\<not> rx_locked s" "dv_mps s = Some mps"
    and "\<forall>e. ev_fail env e = None" and "ev_body env = Inr topic"
  shows "\<exists>fs s'. dev_run [(HostToDevice OPEN, env)] s = Running s' (fs @ [Connect
          \<lparr>ds_max_size = min (unat (hc_max_size (dv_host_caps s))) (ev_usize_max env)\<rparr>
          \<lparr>dr_topic = topic, dr_buffer = [], dr_max_size = min (unat (cfg_max_size (ev_cfg env))) (ev_usize_max env),
           dr_max_transfer_size = mps * TRANSFER_PACKETS\<rparr>])
    \<and> echoes_sent fs = [] \<and> dv_in_task s' = Some in_task_init
    \<and> dv_out_task s' = Some (out_task_init (mps * TRANSFER_PACKETS)) \<and> dv_send_open s' \<and> dv_recv_open s'"
  using assms
  by (intro exI [of _ "[LockRx, PrepareRx (cfg_recv_pool_size (ev_cfg env)) (mps * TRANSFER_PACKETS), RecvAll]"])
    (simp add: dev_run.simps(2) dev_step_def handle_host_to_device_def handle_open_def Let_def finish_def code_consts
      connection_def usize_saturating_min reset_deadline_def split: option.split)

lemma echo_handshake_run:
  assumes "dv_mps s = Some mps" and "length envs = length ms + 4"
    and "\<forall>e\<in>set envs. ev_cfg e = cfg' \<and> ev_usize_max e = M \<and> (\<forall>x. ev_fail e x = None)"
    and "reqs = [(HostToDevice CLOSE, []), (DeviceToHost CAPABILITIES, []), (HostToDevice CAPABILITIES, host_caps_encode caps)]
       @ map (Pair (HostToDevice ECHO)) ms @ [(HostToDevice OPEN, topic)]"
  shows "\<exists>s' fs. dev_run (map2 (\<lambda>(ev, d) env. (ev, env\<lparr>ev_body := Inr d\<rparr>)) reqs envs) s = Running s' fs
    \<and> last fs = Connect \<lparr>ds_max_size = min (unat (hc_max_size caps)) M\<rparr>
        \<lparr>dr_topic = topic, dr_buffer = [], dr_max_size = min (unat (cfg_max_size cfg')) M,
         dr_max_transfer_size = mps * TRANSFER_PACKETS\<rparr>
    \<and> dv_in_task s' = Some in_task_init \<and> dv_out_task s' = Some (out_task_init (mps * TRANSFER_PACKETS))
    \<and> dv_send_open s' \<and> dv_recv_open s' \<and> Reply (device_answer cfg') \<in> set fs \<and> echoes_sent fs = ms"
proof -
  obtain a b d rest where "envs = a # b # d # rest" "length rest = Suc (length ms)"
    using assms(2) by (auto simp: length_Suc_conv numeral_eq_Suc)
  then obtain e1 e2 e3 echoes e4 where envs: "envs = [e1, e2, e3] @ echoes @ [e4]" "length echoes = length ms"
    by (cases rest rule: rev_cases) auto
  have ok: "\<forall>env\<in>{e1, e2, e3}. \<forall>e. ev_fail env e = None" "\<forall>env\<in>set echoes. \<forall>e. ev_fail env e = None"
      "\<forall>e. ev_fail (e4\<lparr>ev_body := Inr topic\<rparr>) e = None" "ev_cfg e2 = cfg'" "ev_cfg e4 = cfg'" "ev_usize_max e4 = M"
    using assms(3) by (simp_all add: envs)
  obtain s1 fs1 where run1: "dev_run [(HostToDevice CLOSE, e1\<lparr>ev_body := Inr []\<rparr>), (DeviceToHost CAPABILITIES, e2\<lparr>ev_body := Inr []\<rparr>),
        (HostToDevice CAPABILITIES, e3\<lparr>ev_body := Inr (host_caps_encode caps)\<rparr>)] s = Running s1 fs1"
    and s1: "\<not> dv_send_open s1" "\<not> dv_recv_open s1" "\<not> tx_locked s1" "\<not> rx_locked s1" "dv_mps s1 = Some mps"
      "dv_host_caps s1 = caps" "echoes_sent fs1 = []" "Reply (device_answer cfg') \<in> set fs1"
    using prepare_run [OF ok(1), of caps s] assms(1) ok(4) by auto
  obtain fs s' where run3: "dev_run [(HostToDevice OPEN, e4\<lparr>ev_body := Inr topic\<rparr>)] s1 = Running s' (fs @ [Connect
          \<lparr>ds_max_size = min (unat (hc_max_size caps)) M\<rparr>
          \<lparr>dr_topic = topic, dr_buffer = [], dr_max_size = min (unat (cfg_max_size cfg')) M,
           dr_max_transfer_size = mps * TRANSFER_PACKETS\<rparr>])"
    and s': "echoes_sent fs = []" "dv_in_task s' = Some in_task_init"
      "dv_out_task s' = Some (out_task_init (mps * TRANSFER_PACKETS))" "dv_send_open s'" "dv_recv_open s'"
    using open_step [OF s1(1-5) ok(3), of topic] ok(5,6) s1(6) by auto
  show ?thesis
    using dev_run_appendI [OF run1 dev_run_appendI [OF dev_run_echoes [OF s1(1-3) envs(2) ok(2)] run3]] s1 s'
    by (simp add: assms(4) envs)
qed

text \<open>
  C9. A web host connects to a device: the requests of a successful attempt, handled by the
  main task of an enabled device in any state, open a new connection on both sides that
  agree on limits, transfer sizes and topic, as with a native host; and before OPEN the
  device has sent back exactly the markers of the ECHO barrier, in their order.
\<close>

theorem web_connect_agrees:
  assumes "web_connect_with env interface options = (es, Opens c)"
    and "we_caps env = Inr (device_answer cfg')" and "dv_mps s = Some (hn_mps c)"
    and "length envs = length (web_requests es)"
    and "\<forall>e\<in>set envs. ev_cfg e = cfg' \<and> ev_usize_max e = M \<and> (\<forall>x. ev_fail e x = None)"
    and "opt_max_size options < 2 ^ 64"
  shows "\<exists>s' fs. dev_run (web_deliver es envs) s = Running s' fs
    \<and> last fs = Connect \<lparr>ds_max_size = min (opt_max_size options) M\<rparr>
        \<lparr>dr_topic = opt_topic options, dr_buffer = [],
         dr_max_size = min (unat (cfg_max_size cfg')) M,
         dr_max_transfer_size = hn_mps c * TRANSFER_PACKETS\<rparr>
    \<and> hs_max_size (hn_sender c) = min (unat (cfg_max_size cfg')) (we_usize_max env)
    \<and> hr_max_size (hn_receiver c) = opt_max_size options
    \<and> hr_max_transfer_size (hn_receiver c) = hn_mps c * TRANSFER_PACKETS
    \<and> dv_in_task s' = Some in_task_init
    \<and> dv_out_task s' = Some (out_task_init (hr_max_transfer_size (hn_receiver c)))
    \<and> dv_send_open s' \<and> dv_recv_open s' \<and> Reply (device_answer cfg') \<in> set fs
    \<and> (\<exists>ds. echo_barrier 50 (map (\<lambda>(random, r). (take (marker_length (hn_mps c)) random, r)) (we_echoes env))
          (we_received env) = (echoes_sent fs, Ready (Inr ds)))"
proof -
  let ?caps = "\<lparr>hc_max_size = of_nat (opt_max_size options)\<rparr> :: host_caps"
  obtain ms ds where
      barrier: "echo_barrier 50 (map (\<lambda>(random, r). (take (marker_length (hn_mps c)) random, r)) (we_echoes env))
        (we_received env) = (ms, Ready (Inr ds))"
    and reqs: "web_requests es = [(HostToDevice CLOSE, []), (DeviceToHost CAPABILITIES, []),
        (HostToDevice CAPABILITIES, host_caps_encode ?caps)]
       @ map (Pair (HostToDevice ECHO)) ms @ [(HostToDevice OPEN, opt_topic options)]"
    and host: "hs_max_size (hn_sender c) = min (unat (cfg_max_size cfg')) (we_usize_max env)"
      "hn_receiver c = \<lparr>hr_buffer = [], hr_max_size = opt_max_size options,
                       hr_max_transfer_size = hn_mps c * TRANSFER_PACKETS\<rparr>"
    using web_connect_requests [OF assms(1,2)] by blast
  have "length envs = length ms + 4" using assms(4) reqs by simp
  moreover have "unat (of_nat (opt_max_size options) :: u64) = opt_max_size options"
    using assms(6) by (simp add: unsigned_of_nat take_bit_nat_eq_self)
  ultimately show ?thesis
    using echo_handshake_run [OF assms(3) _ assms(5) reqs] host barrier by (auto simp: web_deliver_def)
qed

text \<open>An attempt in which everything succeeds and the first marker comes back.\<close>

definition quiet_web :: web_env where
  "quiet_web =
     \<lparr>we_usize_max = 2 ^ 32 - 1, we_handle = 0, we_guards = [{}],
      we_config = Some [\<lparr>if_number = 1, if_class = vendor_specific 1 2,
        if_endpoints = [\<lparr>ed_direction = DirIn, ed_type = Bulk, ed_mps = 512, ed_address = 0x81\<rparr>,
                        \<lparr>ed_direction = DirOut, ed_type = Bulk, ed_mps = 512, ed_address = 0x01\<rparr>]\<rparr>],
      we_claim = None, we_clear_in = None, we_clear_out = None, we_close = None,
      we_caps = Inr (device_answer cfg_default), we_echoes = [(replicate 511 7, None)],
      we_received = [Packet (replicate 511 7)], we_open = None\<rparr>"

lemma echo_barrier_first: "echo_barrier 50 ((m, None) # rounds) (Packet m # ds) = ([m], Ready (Inr ds))"
  by (simp add: numeral_eq_Suc)

lemma quiet_web_connects:
  "\<exists>es c. web_connect_with quiet_web 1 options_new = (es, Opens c) \<and> hn_mps c = 512 \<and> length (web_requests es) = 5"
  by (simp add: web_connect_with_def quiet_web_def options_new_def web_endpoints_def after_def guard_new_def
      web_open_connection_def web_drain_def device_answer_def caps_received marker_length_def Let_def echo_barrier_first)

theorem web_connect_agrees_witness:
  "\<exists>es envs s' fs. dev_run (web_deliver es envs) open_state = Running s' fs \<and> dv_send_open s'"
proof -
  obtain es c where c: "web_connect_with quiet_web 1 options_new = (es, Opens c)" "hn_mps c = 512"
      "length (web_requests es) = 5"
    using quiet_web_connects by blast
  let ?envs = "replicate 5 quiet_env"
  obtain s' fs where "dev_run (web_deliver es ?envs) open_state = Running s' fs" "dv_send_open s'"
    using web_connect_agrees [OF c(1), of cfg_default open_state ?envs "2 ^ 64 - 1"] c(2,3)
    by (auto simp: quiet_web_def options_new_def MAX_SIZE_def)
  then show ?thesis by blast
qed

end
