(* ===== verification/System_Alive.thy ===== *)
theory System_Alive
  imports System
begin

text \<open>
  Keeping a connection alive: the host derives the interval of its STATUS requests from the
  capabilities of the device, and the main task of the device restarts its ping timeout at
  each of them. A host whose requests arrive within twice that interval is never timed out,
  whatever else happens in between.
\<close>

section \<open>Requests in time\<close>

text \<open>
  A run of the main task in which the time does not go back and every event comes less than \<open>g\<close>
  after the last STATUS request before it, the first of them having come at \<open>t\<close>.
\<close>

fun polled :: "nat \<Rightarrow> nat \<Rightarrow> (dev_event \<times> dev_env) list \<Rightarrow> bool" where
  "polled g t [] = True"
| "polled g t ((ev, env) # evs) \<longleftrightarrow>
     t \<le> ev_now env \<and> ev_now env < t + g
     \<and> polled g (if ev = DeviceToHost STATUS then ev_now env else t) evs"

text \<open>The events by which a host begins another connection.\<close>

definition reconnects :: "dev_event \<Rightarrow> bool" where
  "reconnects ev \<longleftrightarrow> ev = HostToDevice OPEN \<or> ev = DeviceToHost CAPABILITIES"

fun not_timeout :: "dev_event \<times> dev_env \<Rightarrow> bool" where
  "not_timeout (ev, env) \<longleftrightarrow> ev \<noteq> TimeoutSleep"

text \<open>Only the exchange of capabilities sets the ping timeout, and only OPEN and STATUS the deadline.\<close>

lemma dev_step_ping_timeout:
  "dev_step ev env s = Running s' es \<Longrightarrow> \<not> reconnects ev \<Longrightarrow> dv_ping_timeout s' = dv_ping_timeout s"
  by (cases ev)
    (auto simp: dev_step_def reconnects_def handle_host_to_device_def handle_device_to_host_def
      handle_close_def handle_close_send_def handle_close_recv_def handle_host_caps_def handle_echo_def
      handle_status_def reset_deadline_def supervision_defs poll_in_task_def poll_out_task_def Let_def
      split: if_splits sum.splits option.splits in_pc.splits out_pc.splits)

text \<open>What every step keeps while the host polls in time: the timeout, and a deadline it will not reach.\<close>

lemma polled_step:
  assumes "dev_step ev env s = Running s' es" and "\<not> reconnects ev"
    and "dv_ping_timeout s = Some d" and "dv_deadline s = Some (t + d)"
  shows "dv_ping_timeout s' = Some d"
    and "dv_deadline s' = Some ((if ev = DeviceToHost STATUS then ev_now env else t) + d)"
  using assms dev_step_ping_timeout [OF assms(1)] status_deadline [OF assms(3), of env s' es]
    dev_step_deadline [OF assms(1)]
  by (auto simp: reconnects_def keeps_alive_def)

lemma polled_not_due:
  "dv_deadline s = Some (t + d) \<Longrightarrow> ev_now env < t + g \<Longrightarrow> g \<le> d \<Longrightarrow> \<not> timeout_due env s"
  by (simp add: timeout_due_def)

lemma polled_run:
  assumes "g \<le> d"
  shows "polled g t evs \<Longrightarrow> \<forall>e\<in>set evs. \<not> reconnects (fst e) \<Longrightarrow> dv_ping_timeout s = Some d \<Longrightarrow>
     dv_deadline s = Some (t + d) \<Longrightarrow> dev_run evs s = dev_run (filter not_timeout evs) s"
proof (induction evs arbitrary: t s)
  case (Cons e evs)
  obtain ev env where e: "e = (ev, env)" by fastforce
  show ?case
  proof (cases "ev = TimeoutSleep")
    case True
    then have "dev_step ev env s = Running s []"
      using polled_not_due [OF Cons.prems(4) _ assms, of env] Cons.prems(1) by (simp add: dev_step_def e)
    moreover have "dev_run evs s = dev_run (filter not_timeout evs) s"
      using Cons.IH [of t s] Cons.prems True by (simp add: e)
    ultimately show ?thesis
      using True by (simp add: e dev_run.simps(2) split: dev_result.split)
  next
    case False
    have "dev_run evs s' = dev_run (filter not_timeout evs) s'" if "dev_step ev env s = Running s' es" for s' es
      using Cons.IH [of "if ev = DeviceToHost STATUS then ev_now env else t" s'] Cons.prems
        polled_step [OF that _ Cons.prems(3,4)] by (simp add: e)
    then show ?thesis
      using False by (simp add: e dev_run.simps(2) split: dev_result.split)
  qed
qed simp

section \<open>A polling host is never timed out\<close>

text \<open>
  C34. The host keeps its connection alive: it derives the interval of its STATUS requests from
  the capabilities of the device. If from OPEN or a STATUS request at time \<open>t\<close> on each of them
  reaches the device less than two intervals after the last one, then the timeout branch of the
  main task never acts, whatever the other requests, the bus and the endpoint tasks do in
  between: the run is the one without that branch, up to the connection after it.
\<close>

theorem host_keeps_alive:
  assumes "cfg_ping_timeout cfg' = Some d" and "from_millis 1 \<le> d"
    and "device_caps_decode (device_answer cfg') = Inr caps"
    and "dv_ping_timeout s = Some d" and "dv_deadline s = Some (t + d)"
    and "\<forall>e\<in>set evs. \<not> reconnects (fst e)"
  shows "\<exists>i. status_interval caps options = Some i \<and> 2 * i \<le> d
     \<and> (polled (2 * i) t evs \<longrightarrow> dev_run evs s = dev_run (filter not_timeout evs) s)"
proof -
  obtain i where "status_interval caps options = Some i" "2 * i \<le> d"
    using status_interval_in_time [OF assms(1-3)] by blast
  with polled_run [OF this(2) _ assms(6,4,5)] show ?thesis by blast
qed

theorem host_keeps_alive_witness:
  "\<exists>i. status_interval (device_caps_default\<lparr>dc_ping_timeout := Some (from_secs 10), dc_status_supported := True,
        dc_echo_supported := True\<rparr>) options_new = Some i
     \<and> (let evs = [(DeviceToHost STATUS, quiet_env\<lparr>ev_now := from_secs 9\<rparr>),
              (TimeoutSleep, quiet_env\<lparr>ev_now := from_secs 18\<rparr>)]
        in polled (2 * i) 0 evs \<and> dev_run evs open_state = dev_run [hd evs] open_state)"
proof -
  let ?caps = "device_caps_default\<lparr>dc_ping_timeout := Some (from_secs 10), dc_status_supported := True,
        dc_echo_supported := True\<rparr>"
  let ?evs = "[(DeviceToHost STATUS, quiet_env\<lparr>ev_now := from_secs 9\<rparr>),
              (TimeoutSleep, quiet_env\<lparr>ev_now := from_secs 18\<rparr>)]"
  have "\<exists>i. status_interval ?caps options_new = Some i \<and> 2 * i \<le> from_secs 10
     \<and> (polled (2 * i) 0 ?evs \<longrightarrow> dev_run ?evs open_state = dev_run (filter not_timeout ?evs) open_state)"
    by (rule host_keeps_alive [of cfg_default])
      (simp_all add: cfg_default_def from_millis_def from_secs_def device_answer_def caps_received reconnects_def
        device_caps_default_def advertised_ping_def as_millis_def open_state_def code_consts)
  moreover have "polled (2 * i) 0 ?evs" if "status_interval ?caps options_new = Some i" for i
    using that by (auto simp: status_interval_def options_new_def from_secs_def)
  ultimately show ?thesis by (auto simp: Let_def)
qed

end
