(* ===== verification/System_Flow.thy ===== *)
theory System_Flow
  imports System
begin

text \<open>
  The direction from host to device as one system: the application of the host, its bounded
  queue, \<open>out_task\<close>, the bus, the buffers that the device has posted, \<open>in_task\<close>, the bounded
  queue of the device and its application. The tasks and the receiver are the definitions of
  the other theories; what they await is read from the other parts of the system, so that
  nothing about the timing is assumed: every part takes its turns in any order.

  The bus moves one USB packet at a time, as \<open>usb_split\<close> and \<open>usb_fill\<close> cut and join
  transfers; a transfer of the host completes when all its packets have been moved.
\<close>

section \<open>The bus\<close>

text \<open>A packet arrives in the buffer being filled; a short packet or a full buffer completes it.\<close>

definition usb_feed :: "nat \<Rightarrow> nat \<Rightarrow> bytes \<Rightarrow> bytes \<times> bytes list \<Rightarrow> bytes \<times> bytes list" where
  "usb_feed mps cap p c =
     (case c of (acc, ts) \<Rightarrow>
        if length p < mps \<or> cap \<le> length (acc @ p) then ([], ts @ [acc @ p]) else (acc @ p, ts))"

text \<open>The number of transfers whose packets are among the first \<open>k\<close>.\<close>

fun acked :: "nat \<Rightarrow> bytes list \<Rightarrow> nat \<Rightarrow> nat" where
  "acked mps [] k = 0"
| "acked mps (t # ts) k =
     (if length (usb_split mps t) \<le> k then Suc (acked mps ts (k - length (usb_split mps t))) else 0)"

definition usb_packets :: "nat \<Rightarrow> bytes list \<Rightarrow> bytes list" where
  "usb_packets mps ts = concat (map (usb_split mps) ts)"

section \<open>The system\<close>

record flow =
  fl_app :: "bytes list"
  fl_dropped :: bool
  fl_queue :: "bytes list"
  fl_out :: host_out_state
  fl_moved :: nat
  fl_filling :: bytes
  fl_filled :: "bytes list"
  fl_close :: "u64 option"
  fl_changed :: bool
  fl_in :: in_state
  fl_transfers :: "bytes list"
  fl_recv :: dev_receiver
  fl_got :: "(io_error + bytes) list"
  fl_end :: bool

text \<open>
  The application of the host has a list of packets to send and then drops its sender. The
  watch of CLOSE_SEND keeps whether its value has been seen.
\<close>

definition flow_init :: "dev_receiver \<Rightarrow> bytes list \<Rightarrow> flow" where
  "flow_init r ms =
     \<lparr>fl_app = ms, fl_dropped = False, fl_queue = [], fl_out = host_out_init, fl_moved = 0, fl_filling = [],
      fl_filled = [], fl_close = None, fl_changed = False, fl_in = in_task_init, fl_transfers = [],
      fl_recv = r, fl_got = [], fl_end = False\<rparr>"

datatype flow_event = AppSend | HostOut | UsbPacket | Announce | DevIn | AppRecv

definition flow_app_send :: "flow \<Rightarrow> flow" where
  "flow_app_send s =
     (case fl_app s of
        m # ms \<Rightarrow> if length (fl_queue s) < QUEUE_LEN then s\<lparr>fl_app := ms, fl_queue := fl_queue s @ [m]\<rparr> else s
      | [] \<Rightarrow> s\<lparr>fl_dropped := True\<rparr>)"

text \<open>What \<open>out_task\<close> would see, and its turn; a packet it takes leaves the queue.\<close>

definition out_completed :: "host_out_state \<Rightarrow> nat" where
  "out_completed t = length (ho_submitted t) - length (ho_pending t)"

definition flow_out_poll :: "nat \<Rightarrow> flow \<Rightarrow> host_out_poll" where
  "flow_out_poll mps s =
     \<lparr>hop_closed = False,
      hop_data = (case fl_queue s of m # ms \<Rightarrow> Ready (Some m) | [] \<Rightarrow> if fl_dropped s then Ready None else Pending),
      hop_complete =
        (if out_completed (fl_out s) < acked mps (ho_submitted (fl_out s)) (fl_moved s)
         then Ready (None, length (hd (ho_pending (fl_out s)))) else Pending)\<rparr>"

definition flow_host_out :: "nat \<Rightarrow> flow \<Rightarrow> flow" where
  "flow_host_out mps s =
     (let t = host_out_step mps (flow_out_poll mps s) (fl_out s)
      in s\<lparr>fl_out := t, fl_queue := drop (length (ho_taken t) - length (ho_taken (fl_out s))) (fl_queue s)\<rparr>)"

definition flow_usb_packet :: "nat \<Rightarrow> nat \<Rightarrow> flow \<Rightarrow> flow" where
  "flow_usb_packet mps buffers s =
     (let ps = usb_packets mps (ho_submitted (fl_out s))
      in if fl_moved s < length ps \<and> length (fl_filled s) < buffers
         then (case usb_feed mps (mps * TRANSFER_PACKETS) (ps ! fl_moved s) (fl_filling s, fl_filled s) of
                 (acc, ts) \<Rightarrow> s\<lparr>fl_moved := fl_moved s + 1, fl_filling := acc, fl_filled := ts\<rparr>)
         else s)"

definition in_ended :: "in_state \<Rightarrow> bool" where
  "in_ended t \<longleftrightarrow> (\<exists>r. in_pc t = InDone r)"

text \<open>The request with which the end of \<open>out_task\<close> is reported reaches the watch of \<open>in_task\<close>.\<close>

definition flow_announce :: "flow \<Rightarrow> flow" where
  "flow_announce s =
     (case host_out_report (fl_out s) of
        Some (CloseSend True n) \<Rightarrow>
          if fl_close s = None \<and> \<not> in_ended (fl_in s) then s\<lparr>fl_close := Some n, fl_changed := True\<rparr> else s
      | _ \<Rightarrow> s)"

definition flow_in_poll :: "flow \<Rightarrow> in_poll" where
  "flow_in_poll s =
     \<lparr>ip_close = fl_close s, ip_changed = fl_changed s,
      ip_reserve = (if length (fl_transfers s) < QUEUE_LEN then Ready True else Pending),
      ip_recv = (case fl_filled s of t # ts \<Rightarrow> Ready (Inr (Some t)) | [] \<Rightarrow> Pending),
      ip_tx_closed = False\<rparr>"

text \<open>The branch of \<open>close_rx.changed()\<close> marks the value as seen.\<close>

definition flow_dev_in :: "flow \<Rightarrow> flow" where
  "flow_dev_in s =
     (let t = in_task_step (flow_in_poll s) (fl_in s); new = drop (length (in_sent (fl_in s))) (in_sent t)
      in s\<lparr>fl_in := t, fl_filled := drop (length new) (fl_filled s), fl_transfers := fl_transfers s @ new,
           fl_changed := fl_changed s
             \<and> \<not> (in_pc (fl_in s) \<in> {InReserve, InReceive} \<and> in_pc t = InCheck \<and> new = [])\<rparr>)"

definition flow_app_recv :: "flow \<Rightarrow> flow" where
  "flow_app_recv s =
     (if fl_end s then s
      else case dev_recv (in_ended (fl_in s)) None (fl_recv s) (fl_transfers s) of (res, r, q) \<Rightarrow>
        let s = s\<lparr>fl_recv := r, fl_transfers := q\<rparr>
        in (case res of
              Pending \<Rightarrow> s
            | Ready (Inr (Some m)) \<Rightarrow> s\<lparr>fl_got := fl_got s @ [Inr m]\<rparr>
            | Ready (Inr None) \<Rightarrow> s\<lparr>fl_end := True\<rparr>
            | Ready (Inl e) \<Rightarrow> s\<lparr>fl_got := fl_got s @ [Inl e], fl_end := True\<rparr>))"

definition flow_step :: "nat \<Rightarrow> nat \<Rightarrow> flow_event \<Rightarrow> flow \<Rightarrow> flow" where
  "flow_step mps buffers ev s =
     (case ev of
        AppSend \<Rightarrow> flow_app_send s
      | HostOut \<Rightarrow> flow_host_out mps s
      | UsbPacket \<Rightarrow> flow_usb_packet mps buffers s
      | Announce \<Rightarrow> flow_announce s
      | DevIn \<Rightarrow> flow_dev_in s
      | AppRecv \<Rightarrow> flow_app_recv s)"

section \<open>Laws of the bus\<close>

lemma usb_feed_fill:
  "fold (usb_feed mps cap) ps (acc, ts) = (acc', ts') \<Longrightarrow>
     ts @ usb_fill mps cap acc (ps @ rest) = ts' @ usb_fill mps cap acc' rest"
proof (induction ps arbitrary: acc ts)
  case (Cons p ps)
  then show ?case by (force simp: usb_feed_def split: if_splits)
qed simp

lemma usb_feed_bytes:
  "fold (usb_feed mps cap) ps (acc, ts) = (acc', ts') \<Longrightarrow> concat ts' @ acc' = concat ts @ acc @ concat ps"
proof (induction ps arbitrary: acc ts)
  case (Cons p ps)
  then show ?case by (force simp: usb_feed_def split: if_splits)
qed simp

lemma usb_feed_front:
  "fold (usb_feed mps cap) ps (acc, us @ ts) = (case fold (usb_feed mps cap) ps (acc, ts) of (a, ts) \<Rightarrow> (a, us @ ts))"
proof (induction ps arbitrary: acc ts)
  case (Cons p ps)
  show ?case using Cons.IH [of "[]" "ts @ [acc @ p]"] Cons.IH [of "acc @ p" ts] by (simp add: usb_feed_def)
qed simp

lemma acked_le: "acked mps ts k \<le> length ts"
  by (induction mps ts k rule: acked.induct) auto

lemma acked_mono: "k \<le> l \<Longrightarrow> acked mps ts k \<le> acked mps ts l"
proof (induction ts arbitrary: k l)
  case (Cons t ts)
  then show ?case by (simp add: diff_le_mono)
qed simp

lemma acked_append: "acked mps ts k \<le> acked mps (ts @ us) k"
  by (induction mps ts k rule: acked.induct) auto

lemma usb_packets_simps [simp]:
  "usb_packets mps [] = []" "usb_packets mps (t # ts) = usb_split mps t @ usb_packets mps ts"
  "usb_packets mps (ts @ us) = usb_packets mps ts @ usb_packets mps us"
  by (simp_all add: usb_packets_def)

lemma acked_all: "acked mps ts (length (usb_packets mps ts)) = length ts"
  by (induction ts) auto

lemma usb_split_not_Nil: "usb_split mps t \<noteq> []"
  by (simp add: usb_split.simps [of mps t])

lemma acked_length: "acked mps ts k = length ts \<Longrightarrow> length (usb_packets mps ts) \<le> k"
proof (induction mps ts k rule: acked.induct)
  case (2 mps t ts k)
  then show ?case by (auto split: if_splits)
qed simp

section \<open>The parts in step\<close>

text \<open>A turn of the host's \<open>out_task\<close>: nothing, a packet is taken, a transfer completes, or it goes on.\<close>

lemma flow_host_out_cases:
  assumes "0 < mps"
  obtains (idle) "flow_host_out mps s = s"
  | (take) m q where "ho_pc (fl_out s) = HoData" "fl_queue s = m # q"
      "flow_host_out mps s = s\<lparr>fl_out := (fl_out s)\<lparr>ho_total := ho_total (fl_out s) + of_nat (length m),
         ho_taken := ho_taken (fl_out s) @ [m], ho_pc := HoComplete,
         ho_pending := ho_pending (fl_out s) @ host_out_transfers mps m,
         ho_submitted := ho_submitted (fl_out s) @ host_out_transfers mps m\<rparr>, fl_queue := q\<rparr>"
  | (complete) "ho_pc (fl_out s) = HoComplete \<or> (\<exists>b. ho_pc (fl_out s) = HoDrain b)" "ho_pending (fl_out s) \<noteq> []"
      "out_completed (fl_out s) < acked mps (ho_submitted (fl_out s)) (fl_moved s)"
      "flow_host_out mps s = s\<lparr>fl_out := (fl_out s)\<lparr>ho_pending := tl (ho_pending (fl_out s))\<rparr>\<rparr>"
  | (ready) "ho_pc (fl_out s) = HoComplete" "flow_host_out mps s = s\<lparr>fl_out := (fl_out s)\<lparr>ho_pc := HoData\<rparr>\<rparr>"
  | (dropped) "ho_pc (fl_out s) = HoData" "fl_queue s = []" "fl_dropped s"
      "flow_host_out mps s = s\<lparr>fl_out := (fl_out s)\<lparr>ho_pc := HoDrain True\<rparr>\<rparr>"
  | (ended) b where "ho_pc (fl_out s) = HoDrain b" "ho_pending (fl_out s) = []"
      "flow_host_out mps s = s\<lparr>fl_out := (fl_out s)\<lparr>ho_pc := HoDone b\<rparr>\<rparr>"
proof (cases "ho_pc (fl_out s)")
  case HoData
  note step = flow_host_out_def flow_out_poll_def host_out_step_def host_out_data_def Let_def HoData
  show ?thesis
  proof (cases "fl_queue s")
    case Nil
    show ?thesis
    proof (cases "fl_dropped s")
      case True
      with HoData Nil show ?thesis by (intro dropped) (simp_all add: step)
    next
      case False
      with Nil show ?thesis by (intro idle) (simp add: step)
    qed
  next
    case (Cons m q)
    with HoData assms show ?thesis by (intro take) (simp_all add: step)
  qed
next
  case HoComplete
  note step = flow_host_out_def flow_out_poll_def host_out_step_def host_out_complete_def host_out_completed_def Let_def HoComplete
  show ?thesis
  proof (cases "ho_pending (fl_out s) = []")
    case True
    with HoComplete show ?thesis by (intro ready) (simp_all add: step)
  next
    case pending: False
    show ?thesis
    proof (cases "out_completed (fl_out s) < acked mps (ho_submitted (fl_out s)) (fl_moved s)")
      case True
      with HoComplete pending show ?thesis by (intro complete) (simp_all add: step)
    next
      case False
      with HoComplete pending idle ready show ?thesis
        by (cases "DMA_BUFFERS \<le> length (ho_pending (fl_out s))") (simp_all add: step)
    qed
  qed
next
  case (HoDrain b)
  note step = flow_host_out_def flow_out_poll_def host_out_step_def host_out_drain_def Let_def HoDrain
  show ?thesis
  proof (cases "ho_pending (fl_out s) = []")
    case True
    with HoDrain show ?thesis by (intro ended) (simp_all add: step)
  next
    case pending: False
    show ?thesis
    proof (cases "out_completed (fl_out s) < acked mps (ho_submitted (fl_out s)) (fl_moved s)")
      case True
      with HoDrain pending show ?thesis by (intro complete) (simp_all add: step)
    next
      case False
      with HoDrain pending show ?thesis by (intro idle) (simp add: step)
    qed
  qed
next
  case (HoDone b)
  then show ?thesis by (intro idle) (simp add: flow_host_out_def host_out_step_def Let_def)
next
  case HoPanic
  then show ?thesis by (intro idle) (simp add: flow_host_out_def host_out_step_def Let_def)
qed

text \<open>A turn of the device's \<open>in_task\<close>.\<close>

lemma flow_dev_in_turns:
  "in_pc (fl_in s) = InLock \<Longrightarrow> flow_dev_in s = s\<lparr>fl_in := (fl_in s)\<lparr>in_pc := InCheck\<rparr>\<rparr>"
  "in_pc (fl_in s) = InCheck \<Longrightarrow> fl_close s = Some (in_total (fl_in s)) \<Longrightarrow>
     flow_dev_in s = s\<lparr>fl_in := (fl_in s)\<lparr>in_pc := InDone (Inr True)\<rparr>\<rparr>"
  "in_pc (fl_in s) = InCheck \<Longrightarrow> fl_close s \<noteq> Some (in_total (fl_in s)) \<Longrightarrow>
     flow_dev_in s = s\<lparr>fl_in := (fl_in s)\<lparr>in_pc := InReserve\<rparr>\<rparr>"
  "in_pc (fl_in s) = InReserve \<Longrightarrow> length (fl_transfers s) < QUEUE_LEN \<Longrightarrow>
     flow_dev_in s = s\<lparr>fl_in := (fl_in s)\<lparr>in_pc := InReceive\<rparr>\<rparr>"
  "in_pc (fl_in s) = InReserve \<and> \<not> length (fl_transfers s) < QUEUE_LEN
     \<or> in_pc (fl_in s) = InReceive \<and> fl_filled s = [] \<Longrightarrow> fl_changed s \<Longrightarrow>
     flow_dev_in s = s\<lparr>fl_in := (fl_in s)\<lparr>in_pc := InCheck\<rparr>, fl_changed := False\<rparr>"
  "in_pc (fl_in s) = InReserve \<and> \<not> length (fl_transfers s) < QUEUE_LEN
     \<or> in_pc (fl_in s) = InReceive \<and> fl_filled s = [] \<Longrightarrow> \<not> fl_changed s \<Longrightarrow> flow_dev_in s = s"
  "in_pc (fl_in s) = InReceive \<Longrightarrow> fl_filled s = t # ts \<Longrightarrow>
     flow_dev_in s = s\<lparr>fl_in := (fl_in s)\<lparr>in_pc := InCheck, in_total := in_total (fl_in s) + of_nat (length t),
       in_sent := in_sent (fl_in s) @ [t]\<rparr>, fl_filled := ts, fl_transfers := fl_transfers s @ [t]\<rparr>"
  "in_pc (fl_in s) = InDone r \<Longrightarrow> flow_dev_in s = s"
  by (auto simp: flow_dev_in_def flow_in_poll_def in_task_step_def in_task_check_def in_task_reserve_def
      in_task_receive_def Let_def)

lemma flow_dev_in_cases:
  obtains (idle) "flow_dev_in s = s"
  | (start) "in_pc (fl_in s) = InLock" "flow_dev_in s = s\<lparr>fl_in := (fl_in s)\<lparr>in_pc := InCheck\<rparr>\<rparr>"
  | (ended) "in_pc (fl_in s) = InCheck" "fl_close s = Some (in_total (fl_in s))"
      "flow_dev_in s = s\<lparr>fl_in := (fl_in s)\<lparr>in_pc := InDone (Inr True)\<rparr>\<rparr>"
  | (check) "in_pc (fl_in s) = InCheck" "fl_close s \<noteq> Some (in_total (fl_in s))"
      "flow_dev_in s = s\<lparr>fl_in := (fl_in s)\<lparr>in_pc := InReserve\<rparr>\<rparr>"
  | (reserve) "in_pc (fl_in s) = InReserve" "length (fl_transfers s) < QUEUE_LEN"
      "flow_dev_in s = s\<lparr>fl_in := (fl_in s)\<lparr>in_pc := InReceive\<rparr>\<rparr>"
  | (changed) "in_pc (fl_in s) = InReserve \<or> in_pc (fl_in s) = InReceive" "fl_changed s"
      "flow_dev_in s = s\<lparr>fl_in := (fl_in s)\<lparr>in_pc := InCheck\<rparr>, fl_changed := False\<rparr>"
  | (receive) t ts where "in_pc (fl_in s) = InReceive" "fl_filled s = t # ts"
      "flow_dev_in s = s\<lparr>fl_in := (fl_in s)\<lparr>in_pc := InCheck, in_total := in_total (fl_in s) + of_nat (length t),
         in_sent := in_sent (fl_in s) @ [t]\<rparr>, fl_filled := ts, fl_transfers := fl_transfers s @ [t]\<rparr>"
proof -
  have blocked: thesis if "in_pc (fl_in s) = InReserve \<and> \<not> length (fl_transfers s) < QUEUE_LEN
      \<or> in_pc (fl_in s) = InReceive \<and> fl_filled s = []"
    using flow_dev_in_turns(5,6) [OF that] that idle changed by blast
  show thesis
  proof (cases "in_pc (fl_in s)")
    case InCheck
    then show ?thesis using flow_dev_in_turns(2,3) [OF InCheck] ended check by blast
  next
    case InReserve
    then show ?thesis using flow_dev_in_turns(4) [OF InReserve] reserve blocked by blast
  next
    case InReceive
    then show ?thesis using flow_dev_in_turns(7) [OF InReceive] receive blocked by (cases "fl_filled s") blast+
  qed (use flow_dev_in_turns(1,8) start idle in blast)+
qed

text \<open>A turn of the device's application.\<close>

lemma dev_recv_part:
  assumes "dr_max_transfer_size r = n" and "list_all (\<lambda>t. length t = n) fs" and "length l < n"
    and "length (dr_buffer r @ concat fs @ l) \<le> dr_max_size r" and "prefix q (fs @ l # R)"
  shows "list_all (\<lambda>t. length t = n) q
      \<and> dev_recv closed None r q
          = (if closed then Ready (Inr None) else Pending, r\<lparr>dr_buffer := dr_buffer r @ concat q\<rparr>, [])
    \<or> (\<exists>q'. q = fs @ l # q'
        \<and> dev_recv closed None r q = (Ready (Inr (Some (dr_buffer r @ concat fs @ l))), r\<lparr>dr_buffer := []\<rparr>, q'))"
  using assms
proof (induction fs arbitrary: q r)
  case Nil
  then show ?case by (cases q) (auto simp: dev_recv_complete)
next
  case (Cons f fs)
  show ?case
  proof (cases q)
    case (Cons t q')
    with Cons.prems have t: "t = f" "length f = n" "prefix q' (fs @ l # R)" by auto
    let ?r = "r\<lparr>dr_buffer := dr_buffer r @ f\<rparr>"
    have "dev_recv closed None r (f # q') = dev_recv closed None ?r q'"
      using Cons.prems t by (intro dev_recv_continue) auto
    moreover have "length (dr_buffer ?r @ concat fs @ l) \<le> dr_max_size ?r" using Cons.prems(4) by simp
    ultimately show ?thesis
      using Cons.IH [of ?r q'] Cons.prems t Cons by auto
  qed simp
qed

lemma full_prefix:
  "list_all (\<lambda>t. length t = n) part \<Longrightarrow> length l < n \<Longrightarrow> prefix (part @ q) (fs @ l # R) \<Longrightarrow>
     \<exists>fs'. fs = part @ fs' \<and> prefix q (fs' @ l # R)"
proof (induction part arbitrary: fs)
  case (Cons p part)
  then show ?case by (cases fs) auto
qed simp

text \<open>
  The device's application has received packets and holds the first transfers, all of them
  full, of the next.
\<close>

definition flow_app_ok :: "nat \<Rightarrow> nat \<Rightarrow> bytes list \<Rightarrow> flow \<Rightarrow> bool" where
  "flow_app_ok n L sent s \<longleftrightarrow>
     (\<exists>g ms part. sent = g @ ms \<and> fl_got s = map Inr g
        \<and> in_sent (fl_in s) = concat (map (transfers n) g) @ part @ fl_transfers s
        \<and> dr_buffer (fl_recv s) = concat part \<and> list_all (\<lambda>t. length t = n) part
        \<and> dr_max_transfer_size (fl_recv s) = n \<and> dr_max_size (fl_recv s) = L)"

lemma flow_app_recv_ok:
  assumes "0 < n" and "flow_app_ok n L sent s" and "\<forall>m\<in>set sent. length m \<le> L"
    and "prefix (in_sent (fl_in s)) (concat (map (transfers n) sent))"
  shows "flow_app_ok n L sent (flow_app_recv s)
    \<and> (flow_app_recv s = s \<and> (fl_transfers s = [] \<and> \<not> in_ended (fl_in s) \<or> fl_end s)
       \<or> (\<exists>r q g e. flow_app_recv s = s\<lparr>fl_recv := r, fl_transfers := q, fl_got := g, fl_end := e\<rparr>
            \<and> \<not> fl_end s \<and> length q \<le> length (fl_transfers s)
            \<and> (length q = length (fl_transfers s) \<longrightarrow> e) \<and> (e \<longrightarrow> in_ended (fl_in s) \<and> q = [])))"
proof (cases "fl_end s")
  case True
  with assms show ?thesis by (simp add: flow_app_recv_def)
next
  case False
  let ?q = "fl_transfers s" and ?r = "fl_recv s" and ?c = "in_ended (fl_in s)"
  from assms(2) obtain g ms part where ok: "sent = g @ ms" "fl_got s = map Inr g"
    "in_sent (fl_in s) = concat (map (transfers n) g) @ part @ ?q" "dr_buffer ?r = concat part"
    "list_all (\<lambda>t. length t = n) part" "dr_max_transfer_size ?r = n" "dr_max_size ?r = L"
    by (auto simp: flow_app_ok_def)
  from assms(4) ok have pre: "prefix (part @ ?q) (concat (map (transfers n) ms))" by simp
  have "list_all (\<lambda>t. length t = n) ?q
        \<and> dev_recv ?c None ?r ?q = (if ?c then Ready (Inr None) else Pending, ?r\<lparr>dr_buffer := dr_buffer ?r @ concat ?q\<rparr>, [])
      \<or> (\<exists>m ms' q'. ms = m # ms' \<and> part @ ?q = transfers n m @ q'
           \<and> dev_recv ?c None ?r ?q = (Ready (Inr (Some m)), ?r\<lparr>dr_buffer := []\<rparr>, q') \<and> length q' < length ?q)"
  proof (cases ms)
    case Nil
    with pre show ?thesis by simp
  next
    case (Cons m ms')
    define fs l where "fs = butlast (transfers n m)" and "l = last (transfers n m)"
    then have t: "transfers n m = fs @ [l]" by simp
    have full: "list_all (\<lambda>t. length t = n) fs" "length l < n"
      using transfers_shape [OF assms(1), of m] by (simp_all add: fs_def l_def)
    from pre have pre': "prefix (part @ ?q) (fs @ l # concat (map (transfers n) ms'))" by (simp add: Cons t)
    obtain fs' where fs: "fs = part @ fs'" and q: "prefix ?q (fs' @ l # concat (map (transfers n) ms'))"
      using full_prefix [OF ok(5) full(2) pre'] by blast
    have m: "m = concat part @ concat fs' @ l" using concat_transfers [of n m] by (simp add: t fs)
    then have "length (dr_buffer ?r @ concat fs' @ l) \<le> dr_max_size ?r"
      using assms(3) ok(1,4,7) Cons by auto
    from dev_recv_part [OF ok(6) _ full(2) this q, of ?c] show ?thesis
      using full(1) ok(4) t by (auto simp: fs Cons m [symmetric])
  qed
  then show ?thesis
  proof
    assume wait: "list_all (\<lambda>t. length t = n) ?q
        \<and> dev_recv ?c None ?r ?q = (if ?c then Ready (Inr None) else Pending, ?r\<lparr>dr_buffer := dr_buffer ?r @ concat ?q\<rparr>, [])"
    let ?r' = "?r\<lparr>dr_buffer := dr_buffer ?r @ concat ?q\<rparr>"
    have step: "flow_app_recv s = s\<lparr>fl_recv := ?r', fl_transfers := [], fl_got := fl_got s, fl_end := ?c\<rparr>"
      using wait False by (cases ?c) (simp_all add: flow_app_recv_def Let_def)
    have "flow_app_ok n L sent (flow_app_recv s)"
      unfolding flow_app_ok_def step
      using wait ok by (intro exI [of _ g] exI [of _ ms] exI [of _ "part @ ?q"]) simp
    moreover have "flow_app_recv s = s" if "?q = []" "\<not> ?c"
      using that False by (cases s) (simp add: flow_app_recv_def)
    moreover have "length [] \<le> length ?q" "length [] = length ?q \<longleftrightarrow> ?q = []" by auto
    ultimately show ?thesis using step False by blast
  next
    assume "\<exists>m ms' q'. ms = m # ms' \<and> part @ ?q = transfers n m @ q'
           \<and> dev_recv ?c None ?r ?q = (Ready (Inr (Some m)), ?r\<lparr>dr_buffer := []\<rparr>, q') \<and> length q' < length ?q"
    then obtain m ms' q' where take: "ms = m # ms'" "part @ ?q = transfers n m @ q'"
      "dev_recv ?c None ?r ?q = (Ready (Inr (Some m)), ?r\<lparr>dr_buffer := []\<rparr>, q')" "length q' < length ?q"
      by blast
    have step: "flow_app_recv s = s\<lparr>fl_recv := ?r\<lparr>dr_buffer := []\<rparr>, fl_transfers := q',
        fl_got := fl_got s @ [Inr m], fl_end := False\<rparr>"
      using take False by (simp add: flow_app_recv_def Let_def)
    have "flow_app_ok n L sent (flow_app_recv s)"
      unfolding flow_app_ok_def step
      using take ok by (intro exI [of _ "g @ [m]"] exI [of _ ms'] exI [of _ "[]"]) simp
    moreover have "length q' \<le> length ?q" "length q' \<noteq> length ?q" using take(4) by simp_all
    ultimately show ?thesis using step False by blast
  qed
qed

section \<open>The invariant\<close>

text \<open>The host: packets are in the application, in its queue or taken; it closes only when all are taken.\<close>

definition flow_host_ok :: "nat \<Rightarrow> bytes list \<Rightarrow> flow \<Rightarrow> bool" where
  "flow_host_ok mps sent s \<longleftrightarrow>
     host_out_inv mps (fl_out s) \<and> ho_taken (fl_out s) @ fl_queue s @ fl_app s = sent
     \<and> (fl_dropped s \<longrightarrow> fl_app s = []) \<and> length (fl_queue s) \<le> QUEUE_LEN
     \<and> (\<forall>b. ho_pc (fl_out s) = HoDrain b \<or> ho_pc (fl_out s) = HoDone b \<longrightarrow> b \<and> fl_dropped s \<and> fl_queue s = [])"

text \<open>
  The bus: what it has moved is what the device's buffers and \<open>in_task\<close> hold; no transfer of
  the host has completed before its packets were moved.
\<close>

definition flow_bus_ok :: "nat \<Rightarrow> nat \<Rightarrow> flow \<Rightarrow> bool" where
  "flow_bus_ok mps buffers s \<longleftrightarrow>
     (let ps = usb_packets mps (ho_submitted (fl_out s))
      in fl_moved s \<le> length ps
       \<and> fold (usb_feed mps (mps * TRANSFER_PACKETS)) (take (fl_moved s) ps) ([], [])
           = (fl_filling s, in_sent (fl_in s) @ fl_filled s)
       \<and> length (fl_filled s) \<le> buffers
       \<and> out_completed (fl_out s) \<le> acked mps (ho_submitted (fl_out s)) (fl_moved s))"

text \<open>
  The device's \<open>in_task\<close>: it ends only with the announced count, and waits with this count
  only while the announcement is still to be seen.
\<close>

definition flow_in_ok :: "flow \<Rightarrow> bool" where
  "flow_in_ok s \<longleftrightarrow>
     in_inv (fl_in s) \<and> length (fl_transfers s) \<le> QUEUE_LEN
     \<and> (in_pc (fl_in s) = InReceive \<longrightarrow> length (fl_transfers s) < QUEUE_LEN)
     \<and> (\<forall>n. fl_close s = Some n \<longrightarrow> ho_pc (fl_out s) = HoDone True \<and> n = ho_total (fl_out s))
     \<and> (\<forall>r. in_pc (fl_in s) = InDone r \<longrightarrow> r = Inr True \<and> fl_close s = Some (in_total (fl_in s)))
     \<and> ((in_pc (fl_in s) = InReserve \<or> in_pc (fl_in s) = InReceive) \<and> fl_close s = Some (in_total (fl_in s))
         \<longrightarrow> fl_changed s)
     \<and> (fl_changed s \<longrightarrow> fl_close s \<noteq> None)
     \<and> (fl_end s \<longrightarrow> in_ended (fl_in s) \<and> fl_transfers s = [])"

definition flow_inv :: "nat \<Rightarrow> nat \<Rightarrow> nat \<Rightarrow> bytes list \<Rightarrow> flow \<Rightarrow> bool" where
  "flow_inv mps buffers L sent s \<longleftrightarrow>
     flow_host_ok mps sent s \<and> flow_bus_ok mps buffers s \<and> flow_in_ok s
     \<and> flow_app_ok (mps * TRANSFER_PACKETS) L sent s \<and> (\<forall>m\<in>set sent. length m \<le> L)"

definition device_transfers :: "nat \<Rightarrow> bytes list \<Rightarrow> bytes list" where
  "device_transfers mps ms = concat (map (transfers (mps * TRANSFER_PACKETS)) ms)"

lemma usb_fill_packets:
  "0 < mps \<Longrightarrow> usb_fill mps (mps * TRANSFER_PACKETS) [] (usb_packets mps (concat (map (host_out_transfers mps) ms)))
     = device_transfers mps ms"
  unfolding usb_packets_def device_transfers_def
  by (rule to_device.wire_transfers [OF _ usb_split_law usb_fill_law])

text \<open>What has arrived is a part of what was sent, and all of it once every packet has been moved.\<close>

lemma flow_arrived:
  assumes "0 < mps" and "flow_host_ok mps sent s" and "flow_bus_ok mps buffers s"
  shows "prefix (in_sent (fl_in s) @ fl_filled s) (device_transfers mps (ho_taken (fl_out s)))"
    and "fl_moved s = length (usb_packets mps (ho_submitted (fl_out s))) \<Longrightarrow>
       in_sent (fl_in s) @ fl_filled s = device_transfers mps (ho_taken (fl_out s))"
    and "prefix (device_transfers mps (ho_taken (fl_out s))) (device_transfers mps sent)"
proof -
  let ?ps = "usb_packets mps (ho_submitted (fl_out s))" and ?k = "fl_moved s"
  have all: "usb_fill mps (mps * TRANSFER_PACKETS) [] ?ps = device_transfers mps (ho_taken (fl_out s))"
    using assms(1,2) by (simp add: flow_host_ok_def host_out_inv_def usb_fill_packets)
  have fed: "fold (usb_feed mps (mps * TRANSFER_PACKETS)) (take ?k ?ps) ([], []) = (fl_filling s, in_sent (fl_in s) @ fl_filled s)"
    using assms(3) by (simp add: flow_bus_ok_def Let_def)
  from usb_feed_fill [OF fed, of "drop ?k ?ps"] show
    "prefix (in_sent (fl_in s) @ fl_filled s) (device_transfers mps (ho_taken (fl_out s)))"
    by (simp add: all prefix_def)
  show "in_sent (fl_in s) @ fl_filled s = device_transfers mps (ho_taken (fl_out s))" if "?k = length ?ps"
    using usb_feed_fill [OF fed, of "[]"] that by (simp add: all)
  show "prefix (device_transfers mps (ho_taken (fl_out s))) (device_transfers mps sent)"
    using assms(2) by (auto simp: flow_host_ok_def device_transfers_def)
qed

section \<open>The work that is left\<close>

fun host_out_work :: "host_out_pc \<Rightarrow> nat" where
  "host_out_work HoComplete = 3"
| "host_out_work HoData = 2"
| "host_out_work (HoDrain b) = 1"
| "host_out_work _ = 0"

fun in_work :: "in_pc \<Rightarrow> nat" where
  "in_work InLock = 3"
| "in_work InCheck = 2"
| "in_work InReserve = 1"
| "in_work _ = 0"

fun close_work :: "u64 option \<Rightarrow> bool \<Rightarrow> nat" where
  "close_work None changed = 4"
| "close_work (Some n) changed = (if changed then 3 else 0)"

text \<open>How many of \<open>n\<close> steps are left after \<open>k\<close> of them.\<close>

definition steps_left :: "nat \<Rightarrow> nat \<Rightarrow> nat" where
  "steps_left n k = n - k"

lemma steps_left_less: "k < l \<Longrightarrow> k < n \<Longrightarrow> steps_left n l < steps_left n k"
  by (simp add: steps_left_def diff_less_mono2)

lemma steps_left_Suc: "k < n \<Longrightarrow> steps_left n k = Suc (steps_left n (Suc k))"
  by (simp add: steps_left_def)

definition flow_work :: "nat \<Rightarrow> bytes list \<Rightarrow> flow \<Rightarrow> nat" where
  "flow_work mps sent s =
     (let ts = concat (map (host_out_transfers mps) sent); n = length (device_transfers mps sent)
      in length (fl_app s) + of_bool (\<not> fl_dropped s)
       + (2 * steps_left (length sent) (length (ho_taken (fl_out s))) + host_out_work (ho_pc (fl_out s)))
       + steps_left (length ts) (out_completed (fl_out s))
       + steps_left (length (usb_packets mps ts)) (fl_moved s)
       + close_work (fl_close s) (fl_changed s)
       + (3 * steps_left n (length (in_sent (fl_in s))) + in_work (in_pc (fl_in s)))
       + steps_left n (length (in_sent (fl_in s)) - length (fl_transfers s))
       + of_bool (\<not> fl_end s))"

text \<open>The parts of the invariant that a change does not touch.\<close>

lemma flow_frames [simp]:
  "flow_bus_ok mps buffers (s\<lparr>fl_app := a\<rparr>) = flow_bus_ok mps buffers s"
  "flow_bus_ok mps buffers (s\<lparr>fl_queue := q\<rparr>) = flow_bus_ok mps buffers s"
  "flow_bus_ok mps buffers (s\<lparr>fl_dropped := x\<rparr>) = flow_bus_ok mps buffers s"
  "flow_bus_ok mps buffers (s\<lparr>fl_close := c\<rparr>) = flow_bus_ok mps buffers s"
  "flow_bus_ok mps buffers (s\<lparr>fl_changed := x\<rparr>) = flow_bus_ok mps buffers s"
  "flow_bus_ok mps buffers (s\<lparr>fl_transfers := q\<rparr>) = flow_bus_ok mps buffers s"
  "flow_bus_ok mps buffers (s\<lparr>fl_recv := r\<rparr>) = flow_bus_ok mps buffers s"
  "flow_bus_ok mps buffers (s\<lparr>fl_got := g\<rparr>) = flow_bus_ok mps buffers s"
  "flow_bus_ok mps buffers (s\<lparr>fl_end := x\<rparr>) = flow_bus_ok mps buffers s"
  "flow_in_ok (s\<lparr>fl_app := a\<rparr>) = flow_in_ok s" "flow_in_ok (s\<lparr>fl_queue := q\<rparr>) = flow_in_ok s"
  "flow_in_ok (s\<lparr>fl_dropped := x\<rparr>) = flow_in_ok s" "flow_in_ok (s\<lparr>fl_moved := k\<rparr>) = flow_in_ok s"
  "flow_in_ok (s\<lparr>fl_filling := t\<rparr>) = flow_in_ok s" "flow_in_ok (s\<lparr>fl_filled := ts\<rparr>) = flow_in_ok s"
  "flow_in_ok (s\<lparr>fl_recv := r\<rparr>) = flow_in_ok s" "flow_in_ok (s\<lparr>fl_got := g\<rparr>) = flow_in_ok s"
  "flow_host_ok mps sent (s\<lparr>fl_moved := k\<rparr>) = flow_host_ok mps sent s"
  "flow_host_ok mps sent (s\<lparr>fl_filling := t\<rparr>) = flow_host_ok mps sent s"
  "flow_host_ok mps sent (s\<lparr>fl_filled := ts\<rparr>) = flow_host_ok mps sent s"
  "flow_host_ok mps sent (s\<lparr>fl_close := c\<rparr>) = flow_host_ok mps sent s"
  "flow_host_ok mps sent (s\<lparr>fl_changed := x\<rparr>) = flow_host_ok mps sent s"
  "flow_host_ok mps sent (s\<lparr>fl_in := i\<rparr>) = flow_host_ok mps sent s"
  "flow_host_ok mps sent (s\<lparr>fl_transfers := q\<rparr>) = flow_host_ok mps sent s"
  "flow_host_ok mps sent (s\<lparr>fl_recv := r\<rparr>) = flow_host_ok mps sent s"
  "flow_host_ok mps sent (s\<lparr>fl_got := g\<rparr>) = flow_host_ok mps sent s"
  "flow_host_ok mps sent (s\<lparr>fl_end := x\<rparr>) = flow_host_ok mps sent s"
  "flow_app_ok n L sent (s\<lparr>fl_app := a\<rparr>) = flow_app_ok n L sent s"
  "flow_app_ok n L sent (s\<lparr>fl_queue := q\<rparr>) = flow_app_ok n L sent s"
  "flow_app_ok n L sent (s\<lparr>fl_dropped := x\<rparr>) = flow_app_ok n L sent s"
  "flow_app_ok n L sent (s\<lparr>fl_out := out\<rparr>) = flow_app_ok n L sent s"
  "flow_app_ok n L sent (s\<lparr>fl_moved := k\<rparr>) = flow_app_ok n L sent s"
  "flow_app_ok n L sent (s\<lparr>fl_filling := t'\<rparr>) = flow_app_ok n L sent s"
  "flow_app_ok n L sent (s\<lparr>fl_filled := ts\<rparr>) = flow_app_ok n L sent s"
  "flow_app_ok n L sent (s\<lparr>fl_close := c\<rparr>) = flow_app_ok n L sent s"
  "flow_app_ok n L sent (s\<lparr>fl_changed := x\<rparr>) = flow_app_ok n L sent s"
  by (simp_all add: flow_host_ok_def flow_bus_ok_def flow_in_ok_def flow_app_ok_def)

definition flow_progress :: "nat \<Rightarrow> nat \<Rightarrow> nat \<Rightarrow> bytes list \<Rightarrow> flow \<Rightarrow> flow \<Rightarrow> bool" where
  "flow_progress mps buffers L sent s s' \<longleftrightarrow>
     flow_inv mps buffers L sent s' \<and> (s' = s \<or> flow_work mps sent s' < flow_work mps sent s)"

lemma flow_progress_refl: "flow_inv mps buffers L sent s \<Longrightarrow> flow_progress mps buffers L sent s s"
  by (simp add: flow_progress_def)

lemma flow_app_send_progress:
  assumes "flow_inv mps buffers L sent s"
  shows "flow_progress mps buffers L sent s (flow_app_send s)"
proof (cases "fl_app s")
  case Nil
  show ?thesis
  proof (cases "fl_dropped s")
    case True
    then have "flow_app_send s = s" using Nil by (cases s) (simp add: flow_app_send_def)
    with assms show ?thesis by (simp add: flow_progress_refl)
  next
    case False
    then show ?thesis
      using assms Nil by (simp add: flow_progress_def flow_app_send_def flow_inv_def flow_host_ok_def flow_work_def Let_def)
  qed
next
  case (Cons m ms)
  then have "ho_pc (fl_out s) \<noteq> HoDrain b" "ho_pc (fl_out s) \<noteq> HoDone b" "\<not> fl_dropped s" for b
    using assms by (auto simp: flow_inv_def flow_host_ok_def)
  then show ?thesis
    using assms Cons by (simp add: flow_progress_def flow_app_send_def flow_inv_def flow_host_ok_def flow_work_def Let_def)
qed

lemma flow_announce_progress:
  assumes "flow_inv mps buffers L sent s"
  shows "flow_progress mps buffers L sent s (flow_announce s)"
proof (cases "ho_pc (fl_out s) = HoDone True \<and> fl_close s = None \<and> \<not> in_ended (fl_in s)")
  case True
  then have "flow_announce s = s\<lparr>fl_close := Some (ho_total (fl_out s)), fl_changed := True\<rparr>"
    by (simp add: flow_announce_def host_out_report_def)
  then show ?thesis
    using assms True by (auto simp: flow_progress_def flow_inv_def flow_in_ok_def flow_work_def Let_def in_ended_def)
next
  case False
  then have "flow_announce s = s"
    by (auto simp: flow_announce_def host_out_report_def split: host_out_pc.splits bool.splits)
  with assms show ?thesis by (simp add: flow_progress_refl)
qed

lemma flow_usb_packet_progress:
  assumes "0 < mps" and "flow_inv mps buffers L sent s"
  shows "flow_progress mps buffers L sent s (flow_usb_packet mps buffers s)"
proof -
  let ?ps = "usb_packets mps (ho_submitted (fl_out s))" and ?k = "fl_moved s" and ?n = "mps * TRANSFER_PACKETS"
  show ?thesis
  proof (cases "?k < length ?ps \<and> length (fl_filled s) < buffers")
    case False
    then have "flow_usb_packet mps buffers s = s" by (auto simp: flow_usb_packet_def Let_def)
    with assms(2) show ?thesis by (simp add: flow_progress_refl)
  next
    case True
    obtain acc ts where feed: "usb_feed mps ?n (?ps ! ?k) (fl_filling s, fl_filled s) = (acc, ts)" by fastforce
    have step: "flow_usb_packet mps buffers s = s\<lparr>fl_moved := ?k + 1, fl_filling := acc, fl_filled := ts\<rparr>"
      using True feed by (simp add: flow_usb_packet_def Let_def)
    have ok: "flow_host_ok mps sent s" "flow_bus_ok mps buffers s" using assms(2) by (simp_all add: flow_inv_def)
    have "fold (usb_feed mps ?n) (take ?k ?ps) ([], []) = (fl_filling s, in_sent (fl_in s) @ fl_filled s)"
      using ok(2) by (simp add: flow_bus_ok_def Let_def)
    moreover have "usb_feed mps ?n (?ps ! ?k) (fl_filling s, in_sent (fl_in s) @ fl_filled s) = (acc, in_sent (fl_in s) @ ts)"
      using usb_feed_front [of mps ?n "[?ps ! ?k]" "fl_filling s" "in_sent (fl_in s)" "fl_filled s"] feed by simp
    ultimately have fed: "fold (usb_feed mps ?n) (take (Suc ?k) ?ps) ([], []) = (acc, in_sent (fl_in s) @ ts)"
      using True by (simp add: take_Suc_conv_app_nth)
    have "length ts \<le> Suc (length (fl_filled s))" using feed by (auto simp: usb_feed_def split: if_splits)
    then have bus: "flow_bus_ok mps buffers (s\<lparr>fl_moved := ?k + 1, fl_filling := acc, fl_filled := ts\<rparr>)"
      using ok(2) True fed acked_mono [of ?k "Suc ?k" mps "ho_submitted (fl_out s)"]
      by (simp add: flow_bus_ok_def Let_def)
    obtain us where "concat (map (host_out_transfers mps) sent) = ho_submitted (fl_out s) @ us"
      using ok(1) by (fastforce simp: flow_host_ok_def host_out_inv_def)
    then have "?k < length (usb_packets mps (concat (map (host_out_transfers mps) sent)))" using True by simp
    from steps_left_less [OF lessI this] have "flow_work mps sent (flow_usb_packet mps buffers s) < flow_work mps sent s"
      by (simp add: step flow_work_def Let_def)
    then show ?thesis
      using assms(2) bus by (simp add: flow_progress_def step flow_inv_def)
  qed
qed

lemma out_completed_simps [simp]:
  "out_completed (t\<lparr>ho_pc := pc\<rparr>) = out_completed t" "out_completed (t\<lparr>ho_total := n\<rparr>) = out_completed t"
  "out_completed (t\<lparr>ho_taken := ms\<rparr>) = out_completed t"
  by (simp_all add: out_completed_def)

lemma flow_host_out_progress:
  assumes "0 < mps" and "flow_inv mps buffers L sent s"
  shows "flow_progress mps buffers L sent s (flow_host_out mps s)"
proof -
  have ok: "flow_host_ok mps sent s" "flow_bus_ok mps buffers s" "flow_in_ok s" using assms(2) by (simp_all add: flow_inv_def)
  have inv: "host_out_inv mps (fl_out s)" using ok(1) by (simp add: flow_host_ok_def)
  have inv': "host_out_inv mps (fl_out (flow_host_out mps s))"
    using host_out_step_inv [OF assms(1) inv] by (simp add: flow_host_out_def Let_def)
  have unclosed: "fl_close s = None" "fl_changed s = False" if "ho_pc (fl_out s) \<noteq> HoDone True"
    using ok(3) that by (auto simp: flow_in_ok_def)
  from assms(1) show ?thesis
  proof (cases rule: flow_host_out_cases [where s = s])
    case idle
    with assms(2) show ?thesis by (simp add: flow_progress_refl)
  next
    case (take m q)
    let ?s = "flow_host_out mps s" and ?hs = "host_out_transfers mps m"
    have "flow_bus_ok mps buffers ?s"
      using ok(2) le_trans [OF _ acked_append [of mps "ho_submitted (fl_out s)" "fl_moved s" ?hs]]
      by (simp add: take(3) flow_bus_ok_def out_completed_def Let_def)
    moreover have "flow_host_ok mps sent ?s" "flow_in_ok ?s"
      using ok(1,3) inv' take(1,2) unclosed by (simp_all add: take(3) flow_host_ok_def flow_in_ok_def)
    moreover have "length (ho_taken (fl_out s)) < length sent" using ok(1) take(2) by (auto simp: flow_host_ok_def)
    then have "flow_work mps sent ?s < flow_work mps sent s"
      using take(1) by (simp add: take(3) flow_work_def Let_def steps_left_Suc [of "length (ho_taken (fl_out s))"] out_completed_def)
    ultimately show ?thesis using assms(2) by (simp add: flow_progress_def flow_inv_def take(3))
  next
    case complete
    let ?s = "flow_host_out mps s" and ?t = "fl_out s"
    have len: "length (ho_pending ?t) \<le> length (ho_submitted ?t)"
      using inv suffix_length_le by (auto simp: host_out_inv_def)
    have step: "out_completed (?t\<lparr>ho_pending := tl (ho_pending ?t)\<rparr>) = Suc (out_completed ?t)"
      using len complete(2) by (cases "ho_pending ?t") (simp_all add: out_completed_def Suc_diff_le)
    have "length (ho_submitted ?t) \<le> length (concat (map (host_out_transfers mps) sent))"
      using ok(1) by (auto simp: flow_host_ok_def host_out_inv_def)
    then have "out_completed ?t < length (concat (map (host_out_transfers mps) sent))"
      using complete(3) acked_le [of mps "ho_submitted ?t" "fl_moved s"] by linarith
    then have "flow_work mps sent ?s < flow_work mps sent s"
      using steps_left_less [of "out_completed ?t" "Suc (out_completed ?t)"]
      by (simp add: complete(4) flow_work_def Let_def step)
    moreover have "flow_bus_ok mps buffers ?s"
      using ok(2) complete(3) by (simp add: complete(4) flow_bus_ok_def Let_def step)
    moreover have "flow_host_ok mps sent ?s" "flow_in_ok ?s"
      using ok(1,3) inv' by (auto simp: complete(4) flow_host_ok_def flow_in_ok_def)
    ultimately show ?thesis using assms(2) by (simp add: flow_progress_def flow_inv_def complete(4))
  next
    case ready
    then show ?thesis
      using assms(2) ok inv' unclosed
      by (simp add: flow_progress_def flow_inv_def flow_host_ok_def flow_bus_ok_def flow_in_ok_def flow_work_def Let_def)
  next
    case dropped
    then show ?thesis
      using assms(2) ok inv' unclosed
      by (simp add: flow_progress_def flow_inv_def flow_host_ok_def flow_bus_ok_def flow_in_ok_def flow_work_def Let_def)
  next
    case (ended b)
    then show ?thesis
      using assms(2) ok inv' unclosed
      by (simp add: flow_progress_def flow_inv_def flow_host_ok_def flow_bus_ok_def flow_in_ok_def flow_work_def Let_def)
  qed
qed

lemma flow_in_pc_frames [simp]:
  "flow_bus_ok mps buffers (s\<lparr>fl_in := (fl_in s)\<lparr>in_pc := pc\<rparr>\<rparr>) = flow_bus_ok mps buffers s"
  "flow_app_ok n L sent (s\<lparr>fl_in := (fl_in s)\<lparr>in_pc := pc\<rparr>\<rparr>) = flow_app_ok n L sent s"
  "in_inv (t\<lparr>in_pc := pc\<rparr>) = in_inv t"
  by (simp_all add: flow_bus_ok_def flow_app_ok_def in_inv_def sent_bytes_def)

lemma flow_dev_in_progress:
  assumes "0 < mps" and "flow_inv mps buffers L sent s"
  shows "flow_progress mps buffers L sent s (flow_dev_in s)"
proof -
  have ok: "flow_host_ok mps sent s" "flow_bus_ok mps buffers s" "flow_in_ok s"
      "flow_app_ok (mps * TRANSFER_PACKETS) L sent s"
    using assms(2) by (simp_all add: flow_inv_def)
  have fin: "flow_progress mps buffers L sent s (flow_dev_in s)"
    if "flow_dev_in s = s\<lparr>fl_in := (fl_in s)\<lparr>in_pc := pc\<rparr>\<rparr>" and "in_work pc < in_work (in_pc (fl_in s))"
      and "flow_in_ok (s\<lparr>fl_in := (fl_in s)\<lparr>in_pc := pc\<rparr>\<rparr>)" for pc
    using that assms(2) by (simp add: flow_progress_def flow_inv_def flow_work_def Let_def)
  show ?thesis
  proof (cases rule: flow_dev_in_cases [where s = s])
    case idle
    with assms(2) show ?thesis by (simp add: flow_progress_refl)
  next
    case start
    show ?thesis by (rule fin [OF start(2)]) (use start(1) ok(3) in \<open>auto simp: flow_in_ok_def in_ended_def\<close>)
  next
    case ended
    show ?thesis by (rule fin [OF ended(3)]) (use ended(1,2) ok(3) in \<open>auto simp: flow_in_ok_def in_ended_def\<close>)
  next
    case check
    show ?thesis by (rule fin [OF check(3)]) (use check(1,2) ok(3) in \<open>auto simp: flow_in_ok_def in_ended_def\<close>)
  next
    case reserve
    show ?thesis by (rule fin [OF reserve(3)]) (use reserve(1,2) ok(3) in \<open>auto simp: flow_in_ok_def in_ended_def\<close>)
  next
    case changed
    obtain n where n: "fl_close s = Some n" using changed(2) ok(3) by (auto simp: flow_in_ok_def)
    have "flow_in_ok (flow_dev_in s)" using changed(1) ok(3) by (auto simp: changed(3) flow_in_ok_def in_ended_def)
    moreover have "flow_work mps sent (flow_dev_in s) < flow_work mps sent s"
      using changed(1,2) n by (auto simp: changed(3) flow_work_def Let_def)
    ultimately show ?thesis using assms(2) by (simp add: flow_progress_def flow_inv_def changed(3))
  next
    case (receive t ts)
    let ?s = "flow_dev_in s"
    have "length (in_sent (fl_in s) @ fl_filled s) \<le> length (device_transfers mps sent)"
      using flow_arrived(1,3) [OF assms(1) ok(1,2)] prefix_length_le le_trans by blast
    then have "length (in_sent (fl_in s)) < length (device_transfers mps sent)" by (simp add: receive(2))
    then have "flow_work mps sent ?s < flow_work mps sent s"
      by (simp add: receive flow_work_def Let_def steps_left_Suc [of "length (in_sent (fl_in s))"])
    moreover have "flow_in_ok ?s"
      using ok(3) receive(1) by (auto simp: receive(3) flow_in_ok_def in_inv_def sent_bytes_def in_ended_def)
    moreover have "flow_bus_ok mps buffers ?s" using ok(2) by (simp add: receive(2,3) flow_bus_ok_def Let_def)
    moreover have "flow_app_ok (mps * TRANSFER_PACKETS) L sent ?s"
      using ok(4) by (auto simp: receive(3) flow_app_ok_def)
    ultimately show ?thesis using assms(2) by (simp add: flow_progress_def flow_inv_def receive(3))
  qed
qed

lemma flow_app_recv_progress:
  assumes "0 < mps" and "flow_inv mps buffers L sent s"
  shows "flow_progress mps buffers L sent s (flow_app_recv s)"
proof -
  have ok: "flow_host_ok mps sent s" "flow_bus_ok mps buffers s" "flow_in_ok s"
      "flow_app_ok (mps * TRANSFER_PACKETS) L sent s" "\<forall>m\<in>set sent. length m \<le> L"
    using assms(2) by (simp_all add: flow_inv_def)
  have pos: "0 < mps * TRANSFER_PACKETS" using assms(1) by (simp add: TRANSFER_PACKETS_def)
  have pre: "prefix (in_sent (fl_in s)) (device_transfers mps sent)"
    using flow_arrived(1,3) [OF assms(1) ok(1,2)] append_prefixD prefix_order.trans by blast
  note recv = flow_app_recv_ok [OF pos ok(4,5) pre [unfolded device_transfers_def]]
  from recv consider "flow_app_recv s = s"
    | r q g e where "flow_app_recv s = s\<lparr>fl_recv := r, fl_transfers := q, fl_got := g, fl_end := e\<rparr>" "\<not> fl_end s"
      "length q \<le> length (fl_transfers s)" "length q = length (fl_transfers s) \<longrightarrow> e"
      "e \<longrightarrow> in_ended (fl_in s) \<and> q = []"
    by blast
  then show ?thesis
  proof cases
    case 1
    with assms(2) show ?thesis by (simp add: flow_progress_refl)
  next
    case (2 r q g e)
    have len: "length (in_sent (fl_in s)) \<le> length (device_transfers mps sent)" using pre by (rule prefix_length_le)
    have "length (fl_transfers s) \<le> length (in_sent (fl_in s))" using ok(4) by (auto simp: flow_app_ok_def)
    then have "length q < length (fl_transfers s) \<Longrightarrow>
        steps_left (length (device_transfers mps sent)) (length (in_sent (fl_in s)) - length q)
          < steps_left (length (device_transfers mps sent)) (length (in_sent (fl_in s)) - length (fl_transfers s))"
      using len by (intro steps_left_less) linarith+
    then have "flow_work mps sent (flow_app_recv s) < flow_work mps sent s"
      using 2(2-5) by (cases "length q < length (fl_transfers s)"; cases e) (simp_all add: 2(1) flow_work_def Let_def)
    moreover have "flow_in_ok (flow_app_recv s)" using ok(3) 2(2-5) by (auto simp: 2(1) flow_in_ok_def)
    moreover have "flow_app_ok (mps * TRANSFER_PACKETS) L sent (flow_app_recv s)" using recv by blast
    ultimately show ?thesis using assms(2) by (simp add: flow_progress_def flow_inv_def 2(1))
  qed
qed

lemma flow_step_progress:
  "0 < mps \<Longrightarrow> flow_inv mps buffers L sent s \<Longrightarrow> flow_progress mps buffers L sent s (flow_step mps buffers ev s)"
  by (cases ev)
    (simp_all add: flow_step_def flow_app_send_progress flow_host_out_progress flow_usb_packet_progress
      flow_announce_progress flow_dev_in_progress flow_app_recv_progress)

interpretation flow: descending "flow_step (Suc k) buffers" "flow_inv (Suc k) buffers L sent" "flow_work (Suc k) sent"
  for k buffers L sent
  using flow_step_progress [of "Suc k" buffers L sent] by unfold_locales (auto simp: flow_progress_def)

end
