(* ===== verification/System_Flow_Delivery.thy ===== *)
theory System_Flow_Delivery
  imports System_Flow
begin

text \<open>
  What the system of theory System_Flow delivers: in every interleaving a prefix of what was
  sent, within its bounds; under every schedule in which all parts keep taking turns,
  everything and the end of the stream, but for a last packet of a critical length; and the
  two interleavings that decide about that packet.
\<close>

section \<open>Where the system comes to rest\<close>

lemma flow_init_inv:
  assumes "0 < mps" and "dev_ready (mps * TRANSFER_PACKETS) L r" and "\<forall>m\<in>set ms. length m \<le> L"
  shows "flow_inv mps buffers L ms (flow_init r ms)"
proof -
  obtain k where "mps = Suc k" using assms(1) gr0_implies_Suc by blast
  then have "host_out_inv mps host_out_init" using host_out.init_inv by simp
  moreover have "out_completed host_out_init = 0" "ho_submitted host_out_init = []" "ho_taken host_out_init = []"
      "ho_pc host_out_init = HoData"
    by (simp_all add: host_out_init_def out_completed_def)
  ultimately show ?thesis
    using assms(2,3) in_task.init_inv
    by (simp add: flow_inv_def flow_host_ok_def flow_bus_ok_def flow_in_ok_def flow_app_ok_def flow_init_def
        in_task_init_def dev_ready_def in_ended_def)
qed

lemma flow_dev_in_still:
  assumes "flow_dev_in s = s"
  shows "in_ended (fl_in s) \<or> in_pc (fl_in s) = InReserve \<and> QUEUE_LEN \<le> length (fl_transfers s)
    \<or> in_pc (fl_in s) = InReceive \<and> fl_filled s = [] \<and> \<not> fl_changed s"
proof -
  have "in_pc (in_task_step (flow_in_poll s) (fl_in s)) = in_pc (fl_in s)"
    using arg_cong [OF assms, of "\<lambda>s. in_pc (fl_in s)"] by (simp add: flow_dev_in_def Let_def)
  then show ?thesis
    by (cases "in_pc (fl_in s)")
      (auto simp: in_ended_def flow_in_poll_def in_task_step_defs split: if_splits list.splits)
qed

lemma flow_host_out_still:
  assumes "0 < mps" and "flow_host_out mps s = s" and "ho_pc (fl_out s) \<noteq> HoPanic"
  shows "(\<exists>b. ho_pc (fl_out s) = HoDone b) \<or> ho_pc (fl_out s) = HoData \<and> fl_queue s = [] \<and> \<not> fl_dropped s
    \<or> ho_pending (fl_out s) \<noteq> [] \<and> acked mps (ho_submitted (fl_out s)) (fl_moved s) \<le> out_completed (fl_out s)"
proof -
  let ?t = "host_out_step mps (flow_out_poll mps s) (fl_out s)"
  have t: "?t = fl_out s" using arg_cong [OF assms(2), of fl_out] by (simp add: flow_host_out_def Let_def)
  then have "ho_pc ?t = ho_pc (fl_out s)" "ho_pending ?t = ho_pending (fl_out s)" by simp_all
  moreover have "tl xs = xs \<longleftrightarrow> xs = []" for xs :: "bytes list" by (cases xs) auto
  ultimately show ?thesis
    using assms(1,3)
    by (cases "ho_pc (fl_out s)")
      (auto simp: flow_out_poll_def host_out_step_defs Let_def split: if_splits list.splits)
qed

text \<open>A state that no event changes is the end of the stream, with everything moved and received.\<close>

lemma flow_settled:
  assumes "0 < mps" and "0 < buffers" and "flow_inv mps buffers L sent s"
    and "\<And>ev. flow_step mps buffers ev s = s"
  shows "fl_end s \<and> ho_pc (fl_out s) = HoDone True \<and> ho_taken (fl_out s) = sent
    \<and> in_pc (fl_in s) = InDone (Inr True) \<and> in_total (fl_in s) = ho_total (fl_out s)"
proof -
  let ?ps = "usb_packets mps (ho_submitted (fl_out s))"
  have ok: "flow_host_ok mps sent s" "flow_bus_ok mps buffers s" "flow_in_ok s"
      "flow_app_ok (mps * TRANSFER_PACKETS) L sent s" "\<forall>m\<in>set sent. length m \<le> L"
    using assms(3) by (simp_all add: flow_inv_def)
  have inv: "host_out_inv mps (fl_out s)" using ok(1) by (simp add: flow_host_ok_def)
  have still: "flow_app_send s = s" "flow_host_out mps s = s" "flow_usb_packet mps buffers s = s" "flow_announce s = s"
      "flow_dev_in s = s" "flow_app_recv s = s"
    using assms(4) [of AppSend] assms(4) [of HostOut] assms(4) [of UsbPacket] assms(4) [of Announce]
      assms(4) [of DevIn] assms(4) [of AppRecv] by (simp_all add: flow_step_def)
  have pos: "0 < mps * TRANSFER_PACKETS" using assms(1) by (simp add: TRANSFER_PACKETS_def)
  have pre: "prefix (in_sent (fl_in s)) (device_transfers mps sent)"
    using flow_arrived(1,3) [OF assms(1) ok(1,2)] append_prefixD prefix_order.trans by blast
  have recv: "fl_transfers s = [] \<and> \<not> in_ended (fl_in s) \<or> fl_end s"
  proof -
    have False if "s = s\<lparr>fl_recv := r, fl_transfers := q, fl_got := g, fl_end := e\<rparr>" "\<not> fl_end s"
      "length q = length (fl_transfers s) \<longrightarrow> e" for r q g e
      using arg_cong [OF that(1), of fl_end] arg_cong [OF that(1), of fl_transfers] that(2,3) by simp
    then show ?thesis
      using flow_app_recv_ok [OF pos ok(4,5) pre [unfolded device_transfers_def]] unfolding still(6) by blast
  qed
  then have empty: "fl_transfers s = []" using ok(3) by (auto simp: flow_in_ok_def)
  then have in_pc: "in_ended (fl_in s) \<or> in_pc (fl_in s) = InReceive \<and> fl_filled s = [] \<and> \<not> fl_changed s"
    using flow_dev_in_still [OF still(5)] by (auto simp: QUEUE_LEN_def)
  have moved: "fl_moved s = length ?ps"
  proof (cases "in_ended (fl_in s)")
    case True
    then have "ho_pc (fl_out s) = HoDone True" using ok(3) by (auto simp: flow_in_ok_def in_ended_def)
    then have "ho_pending (fl_out s) = []" using inv by (auto simp: host_out_inv_def)
    then have "length (ho_submitted (fl_out s)) \<le> acked mps (ho_submitted (fl_out s)) (fl_moved s)"
      using ok(2) by (simp add: flow_bus_ok_def out_completed_def Let_def)
    then have "length ?ps \<le> fl_moved s"
      using acked_le [of mps "ho_submitted (fl_out s)" "fl_moved s"] by (intro acked_length) simp
    then show ?thesis using ok(2) by (simp add: flow_bus_ok_def Let_def)
  next
    case False
    then have "length (fl_filled s) < buffers" using in_pc assms(2) by simp
    moreover have "False" if "fl_moved s < length ?ps" "length (fl_filled s) < buffers"
      using arg_cong [OF still(3), of fl_moved] that by (simp add: flow_usb_packet_def Let_def split: prod.splits)
    ultimately show ?thesis using ok(2) by (fastforce simp: flow_bus_ok_def Let_def)
  qed
  have "ho_pending (fl_out s) = [] \<or> out_completed (fl_out s) < length (ho_submitted (fl_out s))"
    using inv suffix_length_le [of "ho_pending (fl_out s)" "ho_submitted (fl_out s)"]
    by (cases "ho_pending (fl_out s)") (auto simp: host_out_inv_def out_completed_def)
  then have "ho_pending (fl_out s) = [] \<or> \<not> acked mps (ho_submitted (fl_out s)) (fl_moved s) \<le> out_completed (fl_out s)"
    by (simp add: moved acked_all not_le)
  with flow_host_out_still [OF assms(1) still(2)] inv
  have "(\<exists>b. ho_pc (fl_out s) = HoDone b) \<or> fl_queue s = [] \<and> \<not> fl_dropped s"
    by (auto simp: host_out_inv_def)
  moreover have False if "fl_queue s = []" "\<not> fl_dropped s"
    using arg_cong [OF still(1), of fl_dropped] arg_cong [OF still(1), of fl_queue] that
    by (cases "fl_app s") (simp_all add: flow_app_send_def QUEUE_LEN_def)
  ultimately obtain b where b: "ho_pc (fl_out s) = HoDone b" by blast
  then have out: "ho_pc (fl_out s) = HoDone True" "ho_taken (fl_out s) = sent"
    using ok(1) by (auto simp: flow_host_ok_def)
  have close: "fl_close s = Some (ho_total (fl_out s))"
  proof (cases "fl_close s")
    case None
    then have "\<not> in_ended (fl_in s)" using ok(3) by (auto simp: flow_in_ok_def in_ended_def)
    then show ?thesis
      using arg_cong [OF still(4), of fl_close] None out(1) by (simp add: flow_announce_def host_out_report_def)
  qed (use ok(3) in \<open>auto simp: flow_in_ok_def\<close>)
  have "in_ended (fl_in s)"
  proof (rule ccontr)
    assume "\<not> in_ended (fl_in s)"
    with in_pc have wait: "in_pc (fl_in s) = InReceive" "fl_filled s = []" "\<not> fl_changed s" by auto
    have "in_sent (fl_in s) = device_transfers mps sent"
      using flow_arrived(2) [OF assms(1) ok(1,2) moved] wait(2) out(2) by simp
    then have "in_total (fl_in s) = ho_total (fl_out s)"
      using ok(3) inv out(2) by (simp add: flow_in_ok_def in_inv_def sent_bytes_def host_out_inv_def device_transfers_def)
    then show False using ok(3) wait close by (auto simp: flow_in_ok_def)
  qed
  then show ?thesis using recv ok(3) out close by (auto simp: flow_in_ok_def in_ended_def)
qed

section \<open>What every interleaving delivers\<close>

lemma flow_reachable_inv:
  assumes "0 < mps" and "dev_ready (mps * TRANSFER_PACKETS) L r" and "\<forall>m\<in>set ms. length m \<le> L"
  shows "flow_inv mps buffers L ms (fold (flow_step mps buffers) evs (flow_init r ms))"
proof -
  obtain k where "mps = Suc k" using assms(1) gr0_implies_Suc by blast
  then show ?thesis using flow.run_inv [OF flow_init_inv] assms by simp
qed

text \<open>
  C4. In the whole system from the application of the host to that of the device, under every
  interleaving of its parts: the application of the device has received a prefix of the
  packets sent, whole and in order, and never an error; the queues and the posted buffers
  stay within their capacities; and while the application has not received its end of the
  stream, nothing that was sent has been lost.
\<close>

theorem flow_safe:
  assumes "0 < mps" and "dev_ready (mps * TRANSFER_PACKETS) L r" and "\<forall>m\<in>set ms. length m \<le> L"
    and "s = fold (flow_step mps buffers) evs (flow_init r ms)"
  shows "(\<exists>g. fl_got s = map Inr g \<and> prefix g ms)
    \<and> length (fl_queue s) \<le> QUEUE_LEN \<and> length (fl_transfers s) \<le> QUEUE_LEN \<and> length (fl_filled s) \<le> buffers
    \<and> length (ho_pending (fl_out s)) \<le> DMA_BUFFERS + 1
    \<and> ho_taken (fl_out s) @ fl_queue s @ fl_app s = ms
    \<and> prefix (in_sent (fl_in s) @ fl_filled s) (device_transfers mps (ho_taken (fl_out s)))
    \<and> (fl_end s \<longrightarrow> ho_pc (fl_out s) = HoDone True \<and> in_pc (fl_in s) = InDone (Inr True))"
proof -
  have inv: "flow_inv mps buffers L ms s" unfolding assms(4) by (rule flow_reachable_inv [OF assms(1-3)])
  then have ok: "flow_host_ok mps ms s" "flow_bus_ok mps buffers s" "flow_in_ok s"
      "flow_app_ok (mps * TRANSFER_PACKETS) L ms s"
    by (simp_all add: flow_inv_def)
  have "\<exists>g. fl_got s = map Inr g \<and> prefix g ms" using ok(4) by (auto simp: flow_app_ok_def)
  moreover have "fl_end s \<longrightarrow> ho_pc (fl_out s) = HoDone True \<and> in_pc (fl_in s) = InDone (Inr True)"
    using ok(3) by (auto simp: flow_in_ok_def in_ended_def)
  moreover have "length (fl_queue s) \<le> QUEUE_LEN" "ho_taken (fl_out s) @ fl_queue s @ fl_app s = ms"
    "length (ho_pending (fl_out s)) \<le> DMA_BUFFERS + 1"
    using ok(1) unfolding flow_host_ok_def host_out_inv_def by blast+
  moreover have "length (fl_transfers s) \<le> QUEUE_LEN" using ok(3) unfolding flow_in_ok_def by blast
  moreover have "length (fl_filled s) \<le> buffers" using ok(2) unfolding flow_bus_ok_def Let_def by blast
  ultimately show ?thesis using flow_arrived(1) [OF assms(1) ok(1,2)] by blast
qed

definition example_receiver :: "nat \<Rightarrow> nat \<Rightarrow> dev_receiver" where
  "example_receiver mps L =
     \<lparr>dr_topic = [], dr_buffer = [], dr_max_size = L, dr_max_transfer_size = mps * TRANSFER_PACKETS\<rparr>"

lemma example_receiver_ready: "0 < mps \<Longrightarrow> dev_ready (mps * TRANSFER_PACKETS) L (example_receiver mps L)"
  by (simp add: example_receiver_def dev_ready_def TRANSFER_PACKETS_def)

theorem flow_safe_witness:
  "\<exists>g. fl_got (fold (flow_step 512 80) [AppSend, HostOut, UsbPacket] (flow_init (example_receiver 512 9) [[1, 2], [3]])) = map Inr g
     \<and> prefix g [[1, 2], [3]]"
  by (rule flow_safe [OF _ example_receiver_ready _ refl, THEN conjunct1]) simp_all

text \<open>
  Full transfers with all the bytes of what follows: only a packet that fills them and empty
  packets are still to be completed.
\<close>

lemma full_transfers_bytes:
  assumes "0 < n" and "list_all (\<lambda>t. length t = n) part" and "prefix part (concat (map (transfers n) (m # ms)))"
    and "length (concat part) = length (concat (m # ms))"
  shows "n dvd length m \<and> concat ms = []"
proof -
  define fs l where "fs = butlast (transfers n m)" and "l = last (transfers n m)"
  then have t: "transfers n m = fs @ [l]" by simp
  have "length l < n" using transfers_shape [OF assms(1), of m] by (simp add: l_def)
  moreover have "prefix (part @ []) (fs @ l # concat (map (transfers n) ms))" using assms(3) by (simp add: t)
  ultimately obtain fs' where "fs = part @ fs'" using full_prefix [OF assms(2)] by blast
  then have "m = concat part @ concat fs' @ l" using concat_transfers [of n m] by (simp add: t)
  from arg_cong [OF this, of length] assms(4) have "length m = length (concat part)" "length (concat ms) = 0"
    by simp_all
  moreover have "length (concat part) = n * length part" using assms(2) by (induction part) auto
  ultimately show ?thesis by simp
qed

text \<open>
  C5. Every schedule in which all parts keep taking turns delivers: after as many rounds as
  there is work, the host has sent everything and closed, \<open>in_task\<close> has ended as closed by
  the host, and the application of the device has read the end of the stream. It has read
  all packets, unless the last bytes belong to a packet whose length is a multiple of the
  transfer size: then this packet, and empty ones behind it, can be missing.
\<close>

theorem flow_completes:
  assumes "0 < mps" and "0 < buffers" and "dev_ready (mps * TRANSFER_PACKETS) L r" and "\<forall>m\<in>set ms. length m \<le> L"
    and "length (concat ms) < 2 ^ 64"
    and "\<forall>round\<in>set rounds. \<forall>ev. ev \<in> set round" and "flow_work mps ms (flow_init r ms) < length rounds"
    and "s = fold (flow_step mps buffers) (concat rounds) (flow_init r ms)"
  shows "fl_end s \<and> ho_pc (fl_out s) = HoDone True \<and> in_pc (fl_in s) = InDone (Inr True)
    \<and> (\<exists>k. fl_got s = map Inr (take k ms)
         \<and> (k < length ms \<longrightarrow> mps * TRANSFER_PACKETS dvd length (ms ! k) \<and> concat (drop (Suc k) ms) = []))
    \<and> (ms = [] \<or> \<not> mps * TRANSFER_PACKETS dvd length (last ms) \<longrightarrow> fl_got s = map Inr ms)"
proof -
  let ?n = "mps * TRANSFER_PACKETS"
  obtain j where j: "mps = Suc j" using assms(1) gr0_implies_Suc by blast
  have inv: "flow_inv mps buffers L ms s" unfolding assms(8) by (rule flow_reachable_inv [OF assms(1,3,4)])
  have "flow_step mps buffers ev s = s" for ev
    unfolding assms(8) j
    by (rule flow.rounds_settle [OF flow_init_inv [OF assms(1,3,4), unfolded j] assms(6) assms(7) [unfolded j]])
  note rest = flow_settled [OF assms(1,2) inv this]
  have ok: "flow_host_ok mps ms s" "flow_bus_ok mps buffers s" "flow_in_ok s" "flow_app_ok ?n L ms s"
    using inv by (simp_all add: flow_inv_def)
  have empty: "fl_transfers s = []" using ok(3) rest unfolding flow_in_ok_def by blast
  obtain g qs part where app: "ms = g @ qs" "fl_got s = map Inr g" "in_sent (fl_in s) = concat (map (transfers ?n) g) @ part"
    "list_all (\<lambda>t. length t = ?n) part"
    using ok(4) unfolding flow_app_ok_def empty append_Nil2 by blast
  have "prefix (in_sent (fl_in s)) (device_transfers mps ms)"
    using flow_arrived(1,3) [OF assms(1) ok(1,2)] append_prefixD prefix_order.trans by blast
  then have pre: "prefix part (concat (map (transfers ?n) qs))" by (simp add: app(1,3) device_transfers_def)
  obtain zs where "concat (map (transfers ?n) qs) = part @ zs" using pre by (auto simp: prefix_def)
  from arg_cong [OF this, of "\<lambda>ts. length (concat ts)"] have "sent_bytes (fl_in s) \<le> length (concat ms)"
    by (simp add: sent_bytes_def app(1,3))
  moreover have "(of_nat (sent_bytes (fl_in s)) :: u64) = of_nat (length (concat ms))"
    using ok(1,3) rest by (simp add: flow_in_ok_def flow_host_ok_def in_inv_def host_out_inv_def)
  ultimately have bytes: "length (concat part) = length (concat qs)"
    using assms(5) of_nat_u64_eq_iff [of "sent_bytes (fl_in s)" "length (concat ms)"] app(1,3)
    by (simp add: sent_bytes_def)
  have last: "?n dvd length m \<and> concat qs' = []" if "qs = m # qs'" for m qs'
    using full_transfers_bytes [OF _ app(4) pre [unfolded that]] bytes assms(1) that by (simp add: TRANSFER_PACKETS_def)
  have lost: "length g < length ms \<longrightarrow> ?n dvd length (ms ! length g) \<and> concat (drop (Suc (length g)) ms) = []"
    using app(1) last by (cases qs) auto
  have none: "qs = []" if "ms = [] \<or> \<not> ?n dvd length (List.last ms)"
  proof (cases qs)
    case (Cons m qs')
    have "List.last ms = (if qs' = [] then m else List.last qs')" using app(1) Cons by simp
    moreover have "List.last qs' = []" if "qs' \<noteq> []" using last [OF Cons] last_in_set [OF that] by simp
    ultimately have "?n dvd length (List.last ms)" using last [OF Cons] by (cases "qs' = []") simp_all
    with that app(1) Cons show ?thesis by simp
  qed
  have "fl_got s = map Inr ms" if "ms = [] \<or> \<not> ?n dvd length (List.last ms)"
    using app(2) unfolding app(1) none [OF that] append_Nil2 .
  moreover have "fl_got s = map Inr (take (length g) ms)" using app(1,2) by simp
  ultimately show ?thesis using rest lost by blast
qed

definition all_events :: "flow_event list" where
  "all_events = [AppSend, HostOut, UsbPacket, Announce, DevIn, AppRecv]"

lemma all_events_fair: "\<forall>round\<in>set (replicate n all_events). \<forall>ev. ev \<in> set round"
proof -
  have "ev \<in> set all_events" for ev by (cases ev) (simp_all add: all_events_def)
  then show ?thesis by simp
qed

theorem flow_completes_witness:
  "\<exists>rounds. fl_got (fold (flow_step 512 80) (concat rounds) (flow_init (example_receiver 512 9) [[1, 2], [], [3]]))
     = map Inr [[1, 2], [], [3]]"
proof -
  let ?s = "flow_init (example_receiver 512 9) [[1, 2], [], [3]]"
  let ?rounds = "replicate (Suc (flow_work 512 [[1, 2], [], [3]] ?s)) all_events"
  have "fl_got (fold (flow_step 512 80) (concat ?rounds) ?s) = map Inr [[1, 2], [], [3]]"
    by (rule flow_completes [OF _ _ example_receiver_ready _ _ all_events_fair _ refl,
          THEN conjunct2, THEN conjunct2, THEN conjunct2, THEN conjunct2, THEN mp])
      (simp_all add: TRANSFER_PACKETS_def)
  then show ?thesis by blast
qed

section \<open>A packet that is lost\<close>

lemma usb_split_bytes: "concat (usb_split mps m) = m"
  by (induction mps m rule: usb_split.induct) (simp add: usb_split.simps)

lemma usb_fill_short: "0 < mps \<Longrightarrow> usb_fill mps cap acc (ps @ [[]]) \<noteq> []"
  by (induction ps arbitrary: acc) auto

lemma flow_usb_run:
  assumes "fl_moved s + k \<le> length (usb_packets mps (ho_submitted (fl_out s)))"
    and "\<And>j. j < k \<Longrightarrow> length (snd (fold (usb_feed mps (mps * TRANSFER_PACKETS))
        (take j (drop (fl_moved s) (usb_packets mps (ho_submitted (fl_out s))))) (fl_filling s, fl_filled s))) < buffers"
  shows "fold (flow_step mps buffers) (replicate k UsbPacket) s
    = (case fold (usb_feed mps (mps * TRANSFER_PACKETS))
          (take k (drop (fl_moved s) (usb_packets mps (ho_submitted (fl_out s))))) (fl_filling s, fl_filled s) of
         (a, t) \<Rightarrow> s\<lparr>fl_moved := fl_moved s + k, fl_filling := a, fl_filled := t\<rparr>)"
  using assms
proof (induction k)
  case (Suc k)
  let ?ps = "usb_packets mps (ho_submitted (fl_out s))" and ?feed = "usb_feed mps (mps * TRANSFER_PACKETS)"
  obtain a t where at: "fold ?feed (take k (drop (fl_moved s) ?ps)) (fl_filling s, fl_filled s) = (a, t)" by fastforce
  then have room: "length t < buffers" using Suc.prems(2) [of k] by simp
  have run: "fold (flow_step mps buffers) (replicate k UsbPacket) s
      = s\<lparr>fl_moved := fl_moved s + k, fl_filling := a, fl_filled := t\<rparr>"
    using Suc at by simp
  have "take (Suc k) (drop (fl_moved s) ?ps) = take k (drop (fl_moved s) ?ps) @ [?ps ! (fl_moved s + k)]"
    using Suc.prems(1) by (simp add: take_Suc_conv_app_nth)
  moreover have step: "fold (flow_step mps buffers) (replicate (Suc k) UsbPacket) s
      = flow_usb_packet mps buffers (s\<lparr>fl_moved := fl_moved s + k, fl_filling := a, fl_filled := t\<rparr>)"
    by (simp only: replicate_append_same [symmetric] replicate_Suc fold_append comp_apply fold_simps run)
      (simp only: flow_step_def flow_event.case)
  ultimately show ?case
    using at room Suc.prems(1) unfolding step by (simp add: flow_usb_packet_def Let_def split: prod.split)
qed simp

text \<open>A packet of the size of a transfer on the bus: all its bytes in one buffer, then an empty transfer.\<close>

lemma aligned_packet_moves:
  fixes m :: bytes
  assumes "0 < mps" and "length m = mps * TRANSFER_PACKETS" and "ps = usb_packets mps [m, []]"
  shows "fold (usb_feed mps (mps * TRANSFER_PACKETS)) ps ([], []) = ([], [m, []])"
    and "j < length ps \<Longrightarrow> length (snd (fold (usb_feed mps (mps * TRANSFER_PACKETS)) (take j ps) ([], []))) < 2"
proof -
  let ?n = "mps * TRANSFER_PACKETS"
  have "0 < ?n" using assms(1) by (simp add: TRANSFER_PACKETS_def)
  then have ts: "device_transfers mps [m] = [m, []]"
    using assms(2) by (simp add: device_transfers_def transfers_full)
  have "m \<noteq> []" using assms(1,2) by (auto simp: TRANSFER_PACKETS_def)
  then have "concat (map (host_out_transfers mps) [m]) = [m, []]" using assms(1,2) by (simp add: host_out_transfers_def)
  then have fill: "usb_fill mps ?n [] ps = [m, []]" using usb_fill_packets [OF assms(1), of "[m]"] ts assms(3) by simp
  have ps: "ps = usb_split mps m @ [[]]" by (simp add: assms(3) usb_split.simps [of mps "[]"])
  obtain a t where at: "fold (usb_feed mps ?n) ps ([], []) = (a, t)" by fastforce
  have "t = [m, []]" using usb_feed_fill [OF at, of "[]"] fill by simp
  moreover have "concat t @ a = concat ps" using usb_feed_bytes [OF at] by simp
  moreover have "concat (usb_split mps m) = m" by (rule usb_split_bytes)
  ultimately show "fold (usb_feed mps ?n) ps ([], []) = ([], [m, []])" using at ps by simp
  show "length (snd (fold (usb_feed mps ?n) (take j ps) ([], []))) < 2" if "j < length ps"
  proof -
    obtain a t where at: "fold (usb_feed mps ?n) (take j ps) ([], []) = (a, t)" by fastforce
    have "drop j ps = drop j (usb_split mps m) @ [[]]" using that by (simp add: ps)
    then have "usb_fill mps ?n a (drop j ps) \<noteq> []" using usb_fill_short [OF assms(1)] by simp
    moreover have "t @ usb_fill mps ?n a (drop j ps) = [m, []]" using usb_feed_fill [OF at, of "drop j ps"] fill by simp
    ultimately have "length t < length [m, []]"
      by (metis append_self_conv length_append length_greater_0_conv less_add_same_cancel1)
    then show ?thesis by (simp add: at)
  qed
qed

lemma flow_steps:
  "flow_step mps buffers AppSend s = flow_app_send s" "flow_step mps buffers HostOut s = flow_host_out mps s"
  "flow_step mps buffers Announce s = flow_announce s" "flow_step mps buffers DevIn s = flow_dev_in s"
  "flow_step mps buffers AppRecv s = flow_app_recv s"
  by (simp_all add: flow_step_def)

lemma flow_takes_first:
  assumes "fl_in s = in_task_init" and "fl_filled s = t # ts" and "fl_transfers s = []" and "fl_close s \<noteq> Some 0"
  shows "fold (flow_step mps buffers) [DevIn, DevIn, DevIn, DevIn] s
    = s\<lparr>fl_filled := ts, fl_transfers := [t],
        fl_in := in_task_init\<lparr>in_pc := InCheck, in_total := of_nat (length t), in_sent := [t]\<rparr>\<rparr>"
proof -
  have "in_pc in_task_init = InLock" "in_total in_task_init = 0" "in_sent in_task_init = []"
    by (simp_all add: in_task_init_def)
  with assms show ?thesis by (simp add: flow_steps flow_dev_in_turns QUEUE_LEN_def)
qed

text \<open>The state when everything has been moved and the host has ended, and nothing is taken yet.\<close>

lemma aligned_packet_arrives:
  assumes "0 < mps" and "2 \<le> buffers" and "length m = mps * TRANSFER_PACKETS"
  shows "\<exists>evs out. fold (flow_step mps buffers) evs (flow_init r [m])
      = (flow_init r [m])\<lparr>fl_app := [], fl_dropped := True, fl_out := out,
          fl_moved := length (usb_packets mps [m, []]), fl_filled := [m, []]\<rparr>
    \<and> host_out_report out = Some (CloseSend True (of_nat (length m)))"
proof -
  let ?k = "length (usb_packets mps [m, []])"
  let ?evs = "[AppSend, AppSend, HostOut] @ replicate ?k UsbPacket @ replicate 5 HostOut"
  let ?out = "host_out_init\<lparr>ho_pc := HoComplete, ho_total := of_nat (length m), ho_pending := [m, []],
      ho_taken := [m], ho_submitted := [m, []]\<rparr>"
  let ?s = "(flow_init r [m])\<lparr>fl_app := [], fl_dropped := True, fl_out := ?out\<rparr>"
  let ?s' = "?s\<lparr>fl_moved := ?k, fl_filling := [], fl_filled := [m, []]\<rparr>"
  have "m \<noteq> []" using assms(1,3) by (auto simp: TRANSFER_PACKETS_def)
  then have ts: "host_out_transfers mps m = [m, []]" using assms(1,3) by (simp add: host_out_transfers_def)
  have "fold (flow_step mps buffers) [AppSend, AppSend, HostOut] (flow_init r [m]) = ?s"
    using assms(1) by (simp add: flow_steps flow_app_send_def flow_init_def flow_host_out_def flow_out_poll_def
        host_out_step_defs host_out_init_def ts QUEUE_LEN_def Let_def)
  moreover have "fold (flow_step mps buffers) (replicate ?k UsbPacket) ?s = ?s'"
  proof -
    define ps where "ps = usb_packets mps [m, []]"
    note moves = aligned_packet_moves [OF assms(1,3) ps_def]
    have room: "length (snd (fold (usb_feed mps (mps * TRANSFER_PACKETS)) (take j ps) ([], []))) < buffers"
      if "j < length ps" for j
      using moves(2) [OF that] assms(2) by linarith
    have init: "fl_moved ?s = 0" "fl_filling ?s = []" "fl_filled ?s = []" "usb_packets mps (ho_submitted (fl_out ?s)) = ps"
      by (simp_all add: flow_init_def ps_def)
    show ?thesis
      using flow_usb_run [of ?s "length ps" mps buffers, unfolded init] room moves(1)
      unfolding ps_def [symmetric] by (simp del: fold_replicate)
  qed
  moreover have "acked mps [m, []] ?k = 2" by (simp only: acked_all) simp
  then have "fold (flow_step mps buffers) (replicate 5 HostOut) ?s'
      = ?s'\<lparr>fl_out := ?out\<lparr>ho_pc := HoDone True, ho_pending := []\<rparr>\<rparr>"
    by (simp add: numeral_eq_Suc flow_steps flow_host_out_def flow_out_poll_def host_out_step_defs out_completed_def
        flow_init_def host_out_init_def Let_def)
  ultimately have "fold (flow_step mps buffers) ?evs (flow_init r [m])
      = ?s'\<lparr>fl_out := ?out\<lparr>ho_pc := HoDone True, ho_pending := []\<rparr>\<rparr>"
    by (simp only: fold_append comp_apply)
  then show ?thesis
    by (intro exI [of _ ?evs] exI [of _ "?out\<lparr>ho_pc := HoDone True, ho_pending := []\<rparr>"])
      (simp add: host_out_report_def flow_init_def)
qed

text \<open>
  C37. The timing decides whether a packet is delivered. A single packet of the size of a
  transfer buffer is sent, the host waits until the bus has moved all of it and closes. In
  one interleaving the announcement reaches \<open>in_task\<close> before the empty transfer that ends
  the packet, which already lies in a posted buffer, and the device's application reads the
  end of the stream without the packet; in another it reads the packet.
\<close>

theorem flow_loses_packet:
  assumes "0 < mps" and "2 \<le> buffers" and "dev_ready (mps * TRANSFER_PACKETS) L r"
    and "length m = mps * TRANSFER_PACKETS" and "length m \<le> L" and "length m < 2 ^ 64"
  shows "(\<exists>evs s. s = fold (flow_step mps buffers) evs (flow_init r [m]) \<and> fl_end s \<and> fl_got s = [])
    \<and> (\<exists>evs s. s = fold (flow_step mps buffers) evs (flow_init r [m]) \<and> fl_end s \<and> fl_got s = [Inr m])"
proof -
  let ?n = "of_nat (length m) :: u64"
  obtain evs out where arrived: "fold (flow_step mps buffers) evs (flow_init r [m])
      = (flow_init r [m])\<lparr>fl_app := [], fl_dropped := True, fl_out := out,
          fl_moved := length (usb_packets mps [m, []]), fl_filled := [m, []]\<rparr>"
    and report: "host_out_report out = Some (CloseSend True ?n)"
    using aligned_packet_arrives [OF assms(1,2,4)] by blast
  define s where "s = fold (flow_step mps buffers) evs (flow_init r [m])"
  have "0 < length m" using assms(1,4) by (simp add: TRANSFER_PACKETS_def)
  then have n: "?n \<noteq> 0" using of_nat_u64_eq_iff [of "length m" 0] assms(6) by simp
  have r: "dr_buffer r = []" "dr_max_transfer_size r = length m" "length m \<le> dr_max_size r"
    using assms(3-5) by (simp_all add: dev_ready_def)
  have full: "dev_recv True None r [m] = (Ready (Inr None), r\<lparr>dr_buffer := m\<rparr>, [])"
    and whole: "dev_recv True None r [m, []] = (Ready (Inr (Some m)), r\<lparr>dr_buffer := []\<rparr>, [])"
    using r \<open>0 < length m\<close> by (simp_all add: dev_recv_continue dev_recv_complete)
  have s: "fl_recv s = r" "fl_got s = []" "fl_end s = False" "fl_close s = None" "fl_changed s = False"
      "fl_out s = out" "fl_in s = in_task_init" "in_pc in_task_init = InLock" "in_total in_task_init = 0"
      "in_sent in_task_init = []" "fl_filled s = [m, []]" "fl_transfers s = []"
    unfolding s_def arrived by (simp_all add: flow_init_def in_task_init_def)
  have wait: "fold (flow_step mps buffers) [DevIn, DevIn, DevIn, DevIn] (s\<lparr>fl_close := c, fl_changed := x\<rparr>)
      = s\<lparr>fl_close := c, fl_changed := x, fl_filled := [[]], fl_transfers := [m],
          fl_in := in_task_init\<lparr>in_pc := InCheck, in_total := ?n, in_sent := [m]\<rparr>\<rparr>" if "c \<noteq> Some 0" for c x
    using flow_takes_first [of "s\<lparr>fl_close := c, fl_changed := x\<rparr>"] that s by simp
  have announce: "flow_announce t = t\<lparr>fl_close := Some ?n, fl_changed := True\<rparr>"
    if "fl_out t = out" "fl_close t = None" "\<not> in_ended (fl_in t)" for t
    using that by (simp add: flow_announce_def report)
  let ?lose = "evs @ [Announce] @ [DevIn, DevIn, DevIn, DevIn] @ [DevIn, AppRecv]"
  have "flow_announce s = s\<lparr>fl_close := Some ?n, fl_changed := True\<rparr>"
    using s by (intro announce) (simp_all add: in_ended_def)
  moreover have "Some ?n \<noteq> Some 0" using n by simp
  ultimately have "fold (flow_step mps buffers) ?lose (flow_init r [m])
      = fold (flow_step mps buffers) [DevIn, AppRecv] (s\<lparr>fl_close := Some ?n, fl_changed := True, fl_filled := [[]],
          fl_transfers := [m], fl_in := in_task_init\<lparr>in_pc := InCheck, in_total := ?n, in_sent := [m]\<rparr>\<rparr>)"
    unfolding fold_append comp_apply s_def [symmetric] fold_simps(2) [of _ Announce] flow_steps(3) fold_simps(1)
    using wait [of "Some ?n" True] by simp
  note lose = this
  have "fl_end (fold (flow_step mps buffers) ?lose (flow_init r [m]))
      \<and> fl_got (fold (flow_step mps buffers) ?lose (flow_init r [m])) = []"
    unfolding lose by (simp add: flow_steps flow_dev_in_turns flow_app_recv_def in_ended_def s full Let_def)
  moreover
  let ?get = "evs @ [DevIn, DevIn, DevIn, DevIn] @ [DevIn, DevIn, DevIn, Announce, DevIn, AppRecv, AppRecv]"
  have "s\<lparr>fl_close := None, fl_changed := False\<rparr> = s" using s(4,5) by (cases s) simp
  then have get: "fold (flow_step mps buffers) ?get (flow_init r [m])
      = fold (flow_step mps buffers) [DevIn, DevIn, DevIn, Announce, DevIn, AppRecv, AppRecv]
          (s\<lparr>fl_close := None, fl_changed := False, fl_filled := [[]],
          fl_transfers := [m], fl_in := in_task_init\<lparr>in_pc := InCheck, in_total := ?n, in_sent := [m]\<rparr>\<rparr>)"
    unfolding fold_append comp_apply s_def [symmetric] using wait [of None False] by simp
  have "fl_end (fold (flow_step mps buffers) ?get (flow_init r [m]))
      \<and> fl_got (fold (flow_step mps buffers) ?get (flow_init r [m])) = [Inr m]"
    unfolding get
    by (simp add: flow_steps flow_dev_in_turns flow_app_recv_def in_ended_def announce s whole QUEUE_LEN_def Let_def)
  ultimately show ?thesis by blast
qed

theorem flow_loses_packet_witness:
  "\<exists>evs s. s = fold (flow_step 1 80) evs (flow_init (example_receiver 1 500) [replicate TRANSFER_PACKETS 7])
     \<and> fl_end s \<and> fl_got s = []"
  by (rule flow_loses_packet [OF _ _ example_receiver_ready, THEN conjunct1]) (simp_all add: TRANSFER_PACKETS_def)

end
