(* ===== verification/System_Flow_Back.thy ===== *)
theory System_Flow_Back
  imports System_Flow
begin

text \<open>
  The direction from device to host as one system, the mirror image of theory System_Flow: the
  application of the device, its bounded queue, \<open>out_task\<close>, the queue of the endpoint, the bus,
  the buffers that the host has posted, its \<open>in_task\<close>, the bounded queue of the host and its
  application. Every part takes its turns in any order.
\<close>

section \<open>The system\<close>

record backflow =
  bk_app :: "bytes list"
  bk_dropped :: bool
  bk_queue :: "bytes list"
  bk_out :: out_state
  bk_moved :: nat
  bk_filling :: bytes
  bk_filled :: "bytes list"
  bk_halted :: bool
  bk_in :: host_in_state
  bk_transfers :: "recv_packet list"
  bk_recv :: host_receiver
  bk_got :: "(io_error + bytes) list"
  bk_end :: bool

definition back_init :: "nat \<Rightarrow> host_receiver \<Rightarrow> bytes list \<Rightarrow> backflow" where
  "back_init mps r ms =
     \<lparr>bk_app = ms, bk_dropped = False, bk_queue = [], bk_out = out_task_init (mps * TRANSFER_PACKETS),
      bk_moved = 0, bk_filling = [], bk_filled = [], bk_halted = False, bk_in = host_in_init,
      bk_transfers = [], bk_recv = r, bk_got = [], bk_end = False\<rparr>"

datatype back_event = DevSend | DevOut | BusPacket | Halt | HostIn | HostRecv

definition back_send :: "backflow \<Rightarrow> backflow" where
  "back_send s =
     (case bk_app s of
        m # ms \<Rightarrow> if length (bk_queue s) < QUEUE_LEN then s\<lparr>bk_app := ms, bk_queue := bk_queue s @ [m]\<rparr> else s
      | [] \<Rightarrow> s\<lparr>bk_dropped := True\<rparr>)"

text \<open>
  The transfers that \<open>out_task\<close> has put into the queue of the endpoint, the packets into which
  they are cut, and what \<open>out_task\<close> would see: a transfer is accepted while fewer than \<open>depth\<close>
  wait, a flush is over when all packets have been moved.
\<close>

definition wire_of :: "out_state \<Rightarrow> bytes list" where
  "wire_of t = concat (map op_transfer (out_ops t))"

definition back_out_event :: "nat \<Rightarrow> nat \<Rightarrow> backflow \<Rightarrow> out_event option" where
  "back_out_event mps depth s =
     (let ts = wire_of (bk_out s);
          flushed = bk_moved s = length (usb_packets mps ts)
      in case out_pc (bk_out s) of
           OutLock \<Rightarrow> Some (Started (Inr mps))
         | OutRecv k \<Rightarrow>
             (case bk_queue s of
                m # ms \<Rightarrow> Some (Received (Some m))
              | [] \<Rightarrow> if bk_dropped s then Some (Received None) else None)
         | OutBusy k (SendTransfer d # ops) \<Rightarrow>
             if length ts - acked mps ts (bk_moved s) < depth then Some (OpDone (Inr ())) else None
         | OutBusy k (Flush # ops) \<Rightarrow> if flushed then Some (OpDone (Inr ())) else None
         | OutFlush \<Rightarrow> if flushed then Some (OpDone (Inr ())) else None
         | _ \<Rightarrow> None)"

definition back_out :: "nat \<Rightarrow> nat \<Rightarrow> backflow \<Rightarrow> backflow" where
  "back_out mps depth s =
     (case back_out_event mps depth s of
        None \<Rightarrow> s
      | Some ev \<Rightarrow>
          s\<lparr>bk_out := out_task_step ev (bk_out s),
            bk_queue := (case ev of Received (Some m) \<Rightarrow> tl (bk_queue s) | _ \<Rightarrow> bk_queue s)\<rparr>)"

text \<open>The bus moves a packet into a buffer that the host has posted.\<close>

definition back_posted :: "host_in_state \<Rightarrow> nat" where
  "back_posted t = hi_submitted t - hi_completed t"

definition back_packet :: "nat \<Rightarrow> backflow \<Rightarrow> backflow" where
  "back_packet mps s =
     (let ps = usb_packets mps (wire_of (bk_out s))
      in if bk_moved s < length ps \<and> length (bk_filled s) < back_posted (bk_in s)
         then (case usb_feed mps (mps * TRANSFER_PACKETS) (ps ! bk_moved s) (bk_filling s, bk_filled s) of
                 (acc, ts) \<Rightarrow> s\<lparr>bk_moved := bk_moved s + 1, bk_filling := acc, bk_filled := ts\<rparr>)
         else s)"

text \<open>The main task halts the endpoint when \<open>out_task\<close> has ended.\<close>

definition back_halt :: "backflow \<Rightarrow> backflow" where
  "back_halt s = (case out_pc (bk_out s) of OutDone r \<Rightarrow> s\<lparr>bk_halted := True\<rparr> | _ \<Rightarrow> s)"

definition back_in_poll :: "backflow \<Rightarrow> host_in_poll" where
  "back_in_poll s =
     \<lparr>hip_complete =
        (case bk_filled s of
           t # ts \<Rightarrow> Ready \<lparr>cp_status = None, cp_actual_len = length t, cp_buffer = t, cp_zero_copy = False\<rparr>
         | [] \<Rightarrow>
             if bk_halted s then Ready \<lparr>cp_status = Some TrStall, cp_actual_len = 0, cp_buffer = [], cp_zero_copy = False\<rparr>
             else Pending),
      hip_tx_closed = False, hip_dead = False,
      hip_send = (if length (bk_transfers s) < QUEUE_LEN then Ready True else Pending)\<rparr>"

definition back_in :: "backflow \<Rightarrow> backflow" where
  "back_in s =
     (let t = host_in_step (back_in_poll s) (bk_in s)
      in s\<lparr>bk_in := t, bk_filled := drop (hi_completed t - hi_completed (bk_in s)) (bk_filled s),
           bk_transfers := bk_transfers s @ drop (length (hi_sent (bk_in s))) (hi_sent t)\<rparr>)"

definition hi_ended :: "host_in_state \<Rightarrow> bool" where
  "hi_ended t \<longleftrightarrow> (\<exists>b. hi_pc t = HiDone b)"

text \<open>The application of the host finds the transfers queued at this moment.\<close>

definition back_recv :: "backflow \<Rightarrow> backflow" where
  "back_recv s =
     (if bk_end s then s
      else case host_recv (hi_ended (bk_in s)) (map_option native_to_io_err (hi_error (bk_in s))) (bk_recv s) [bk_transfers s] of
        (res, r, q) \<Rightarrow>
          let s = s\<lparr>bk_recv := r, bk_transfers := concat q\<rparr>
          in (case res of
                Pending \<Rightarrow> s
              | Ready (Inr (Some m)) \<Rightarrow> s\<lparr>bk_got := bk_got s @ [Inr m]\<rparr>
              | Ready (Inr None) \<Rightarrow> s\<lparr>bk_end := True\<rparr>
              | Ready (Inl e) \<Rightarrow> s\<lparr>bk_got := bk_got s @ [Inl e], bk_end := True\<rparr>))"

definition back_step :: "nat \<Rightarrow> nat \<Rightarrow> back_event \<Rightarrow> backflow \<Rightarrow> backflow" where
  "back_step mps depth ev s =
     (case ev of
        DevSend \<Rightarrow> back_send s
      | DevOut \<Rightarrow> back_out mps depth s
      | BusPacket \<Rightarrow> back_packet mps s
      | Halt \<Rightarrow> back_halt s
      | HostIn \<Rightarrow> back_in s
      | HostRecv \<Rightarrow> back_recv s)"

section \<open>Turns of the tasks\<close>

text \<open>The operations of packets.\<close>

definition packet_ops :: "nat \<Rightarrow> bytes list \<Rightarrow> ep_op list" where
  "packet_ops mps ms = concat (map (\<lambda>m. the (out_packet_ops mps (mps * TRANSFER_PACKETS) m)) ms)"

lemma packet_ops_simps [simp]:
  "packet_ops mps [] = []"
  "packet_ops mps (ms @ ms') = packet_ops mps ms @ packet_ops mps ms'"
  "packet_ops mps (m # ms) = the (out_packet_ops mps (mps * TRANSFER_PACKETS) m) @ packet_ops mps ms"
  by (simp_all add: packet_ops_def)

lemma packet_ops_wire:
  "0 < mps \<Longrightarrow> concat (map op_transfer (packet_ops mps ms)) = concat (map (dev_out_transfers mps (mps * TRANSFER_PACKETS)) ms)"
  by (induction ms) (simp_all add: dev_out_transfers_def out_packet_ops_returns TRANSFER_PACKETS_def)

lemma usb_fill_back:
  "0 < mps \<Longrightarrow> usb_fill mps (mps * TRANSFER_PACKETS) [] (usb_packets mps (concat (map op_transfer (packet_ops mps ms))))
     = device_transfers mps ms"
  unfolding packet_ops_wire usb_packets_def device_transfers_def
  by (rule to_host.wire_transfers [OF _ usb_split_law usb_fill_law])

text \<open>The states in which \<open>out_task\<close> can be.\<close>

fun out_pc_ok :: "nat \<Rightarrow> out_pc \<Rightarrow> bool" where
  "out_pc_ok mps (OutRecv k) = (k = mps)"
| "out_pc_ok mps (OutBusy k ops) = (k = mps \<and> ops \<noteq> [])"
| "out_pc_ok mps (OutDone r) = (r = Inr ())"
| "out_pc_ok mps OutStuck = False"
| "out_pc_ok mps _ = True"

text \<open>A turn of the device's \<open>out_task\<close>.\<close>

lemma back_out_cases:
  assumes "0 < mps" and "out_max_transfer_size (bk_out s) = mps * TRANSFER_PACKETS"
    and "out_pc_ok mps (out_pc (bk_out s))"
  obtains (idle) "back_out mps depth s = s"
  | (start) "out_pc (bk_out s) = OutLock" "back_out mps depth s = s\<lparr>bk_out := (bk_out s)\<lparr>out_pc := OutRecv mps\<rparr>\<rparr>"
  | (take) m q ops where "out_pc (bk_out s) = OutRecv mps" "bk_queue s = m # q"
      "out_packet_ops mps (mps * TRANSFER_PACKETS) m = Some ops"
      "back_out mps depth s = s\<lparr>bk_out := (bk_out s)\<lparr>out_pc := OutBusy mps ops\<rparr>, bk_queue := q\<rparr>"
  | (dropped) "out_pc (bk_out s) = OutRecv mps" "bk_queue s = []" "bk_dropped s"
      "back_out mps depth s = s\<lparr>bk_out := (bk_out s)\<lparr>out_pc := OutFlush\<rparr>\<rparr>"
  | (operation) op ops where "out_pc (bk_out s) = OutBusy mps (op # ops)"
      "back_out mps depth s = s\<lparr>bk_out := (bk_out s)\<lparr>out_pc := (if ops = [] then OutRecv mps else OutBusy mps ops),
         out_ops := out_ops (bk_out s) @ [op]\<rparr>\<rparr>"
  | (flushed) "out_pc (bk_out s) = OutFlush" "bk_moved s = length (usb_packets mps (wire_of (bk_out s)))"
      "back_out mps depth s = s\<lparr>bk_out := (bk_out s)\<lparr>out_pc := OutDone (Inr ()), out_ops := out_ops (bk_out s) @ [Flush]\<rparr>\<rparr>"
proof (cases "out_pc (bk_out s)")
  case OutLock
  then show ?thesis by (intro start) (simp_all add: back_out_def back_out_event_def out_task_step.simps Let_def)
next
  case (OutRecv k)
  then have k: "out_pc (bk_out s) = OutRecv mps" using assms(3) by simp
  note step = back_out_def back_out_event_def out_task_step.simps Let_def k
  show ?thesis
  proof (cases "bk_queue s")
    case Nil
    show ?thesis
    proof (cases "bk_dropped s")
      case True
      with Nil k show ?thesis by (intro dropped) (simp_all add: step)
    next
      case False
      with Nil show ?thesis by (intro idle) (simp add: step)
    qed
  next
    case (Cons m q)
    have "0 < mps * TRANSFER_PACKETS" using assms(1) by (simp add: TRANSFER_PACKETS_def)
    with assms(1) obtain ops where "out_packet_ops mps (mps * TRANSFER_PACKETS) m = Some ops"
      using out_packet_ops_returns by blast
    with Cons k show ?thesis by (intro take [of m q ops]) (simp_all add: step assms(2))
  qed
next
  case (OutBusy k ops)
  then have k: "out_pc (bk_out s) = OutBusy mps ops" using assms(3) by simp
  show ?thesis
  proof (cases "back_out_event mps depth s")
    case None
    then show ?thesis by (intro idle) (simp add: back_out_def)
  next
    case (Some ev)
    with k obtain op ops' where ops: "ops = op # ops'" "ev = OpDone (Inr ())"
      by (auto simp: back_out_event_def Let_def split: list.splits ep_op.splits if_splits)
    with k Some show ?thesis
      by (intro operation [of op ops']) (simp_all add: back_out_def out_task_step.simps)
  qed
next
  case OutFlush
  show ?thesis
  proof (cases "bk_moved s = length (usb_packets mps (wire_of (bk_out s)))")
    case True
    with OutFlush show ?thesis by (intro flushed) (simp_all add: back_out_def back_out_event_def out_task_step.simps Let_def)
  next
    case False
    with OutFlush show ?thesis by (intro idle) (simp add: back_out_def back_out_event_def Let_def)
  qed
next
  case (OutDone r)
  then show ?thesis by (intro idle) (simp add: back_out_def back_out_event_def Let_def)
next
  case OutStuck
  then show ?thesis by (intro idle) (simp add: back_out_def back_out_event_def Let_def)
qed

text \<open>A turn of the host's \<open>in_task\<close>.\<close>

lemma back_in_cases:
  obtains (idle) "back_in s = s"
  | (complete) t ts where "hi_pc (bk_in s) = HiReceive" "bk_filled s = t # ts"
      "back_in s = s\<lparr>bk_in := (bk_in s)\<lparr>hi_completed := hi_completed (bk_in s) + 1, hi_pc := HiForward (plain_packet t)\<rparr>,
         bk_filled := ts\<rparr>"
  | (stalled) "hi_pc (bk_in s) = HiReceive" "bk_filled s = []" "bk_halted s"
      "back_in s = s\<lparr>bk_in := (bk_in s)\<lparr>hi_completed := hi_completed (bk_in s) + 1, hi_pc := HiDone False\<rparr>\<rparr>"
  | (forward) p where "hi_pc (bk_in s) = HiForward p" "length (bk_transfers s) < QUEUE_LEN"
      "back_in s = s\<lparr>bk_in := (bk_in s)\<lparr>hi_pc := HiReceive, hi_submitted := hi_submitted (bk_in s) + 1,
         hi_sent := hi_sent (bk_in s) @ [p]\<rparr>, bk_transfers := bk_transfers s @ [p]\<rparr>"
proof (cases "hi_pc (bk_in s)")
  case HiReceive
  note step = back_in_def back_in_poll_def host_in_step_defs Let_def HiReceive
  show ?thesis
  proof (cases "bk_filled s")
    case Nil
    show ?thesis
    proof (cases "bk_halted s")
      case True
      with HiReceive Nil show ?thesis by (intro stalled) (simp_all add: step)
    next
      case False
      with Nil show ?thesis by (intro idle) (simp add: step)
    qed
  next
    case (Cons t ts)
    with HiReceive show ?thesis by (intro complete) (simp_all add: step plain_packet_def)
  qed
next
  case (HiForward p)
  note step = back_in_def back_in_poll_def host_in_step_defs Let_def HiForward
  show ?thesis
  proof (cases "length (bk_transfers s) < QUEUE_LEN")
    case True
    with HiForward show ?thesis by (intro forward) (simp_all add: step)
  next
    case False
    then show ?thesis by (intro idle) (simp add: step)
  qed
next
  case (HiDone b)
  then show ?thesis by (intro idle) (simp add: back_in_def host_in_step_def Let_def)
qed

section \<open>A turn of the host's application\<close>

text \<open>The transfers queued are the next ones of a packet that is being received: they do not end it, or they do.\<close>

lemma host_recv_wave:
  assumes "0 < n" and "hr_max_transfer_size r = n" and "map rp_data q @ future = transfers n c @ ts"
    and "length (hr_buffer r @ c) \<le> hr_max_size r"
  shows "(\<exists>a c'. c = a @ c' \<and> future = transfers n c' @ ts \<and> (q = [] \<longrightarrow> a = [])
      \<and> host_recv closed None r [q] = (if closed then Ready (Inr None) else Pending, r\<lparr>hr_buffer := hr_buffer r @ a\<rparr>, []))
    \<or> (\<exists>q'. map rp_data q' @ future = ts \<and> length q' < length q
      \<and> host_recv closed None r [q] = (Ready (Inr (Some (hr_buffer r @ c))), r\<lparr>hr_buffer := []\<rparr>, [q']))"
proof (cases q)
  case Nil
  with assms(3) show ?thesis by (intro disjI1 exI [of _ "[]"] exI [of _ c]) simp
next
  case (Cons first wave)
  obtain batch short rest where d: "drain n (first # wave) = (batch, short, rest)" by (metis prod_cases3)
  have step: "host_recv closed None r [q] =
    (let r = r\<lparr>hr_buffer := hr_buffer r @ concat (map rp_data batch)\<rparr>
     in if hr_max_size r < length (hr_buffer r) then (Ready (Inl oversized), r\<lparr>hr_buffer := []\<rparr>, [rest])
        else if short then (Ready (Inr (Some (hr_buffer r))), r\<lparr>hr_buffer := []\<rparr>, [rest])
        else host_recv closed None r [rest])"
    using host_recv_step [of r first wave batch short rest closed None "[]"] d assms(2) by (simp add: Cons)
  note shape = drain_transfers [OF assms(1) assms(3) [unfolded Cons] d]
  show ?thesis
  proof (cases short)
    case True
    then have "concat (map rp_data batch) = c" "map rp_data rest @ future = ts" using shape by simp_all
    moreover have "length rest < length q"
      using take_batch_length [of n first wave batch short rest] d by (simp add: take_batch_drain Cons)
    ultimately show ?thesis
      using True assms(4) by (intro disjI2 exI [of _ rest]) (simp add: step Let_def)
  next
    case False
    with shape obtain a c' where "rest = []" "c = a @ c'" "concat (map rp_data batch) = a" "future = transfers n c' @ ts"
      by auto
    moreover have "q \<noteq> []" by (simp add: Cons)
    ultimately show ?thesis
      using False assms(4) by - (rule disjI1, rule exI [of _ a], rule exI [of _ c'], simp add: step Let_def)
  qed
qed

text \<open>
  The application has received packets and holds the beginning of the next, whose rest is
  queued or still to come; or it has received all.
\<close>

definition back_next :: "nat \<Rightarrow> bytes list \<Rightarrow> bytes \<Rightarrow> bytes list \<Rightarrow> bytes list \<Rightarrow> bool" where
  "back_next n sent buffer g ts \<longleftrightarrow>
     (\<exists>c ms. sent = g @ (buffer @ c) # ms \<and> ts = transfers n c @ concat (map (transfers n) ms))
     \<or> sent = g \<and> buffer = [] \<and> ts = []"

definition back_app_ok :: "nat \<Rightarrow> nat \<Rightarrow> bytes list \<Rightarrow> backflow \<Rightarrow> bool" where
  "back_app_ok n L sent s \<longleftrightarrow>
     (\<exists>g future. bk_got s = map Inr g \<and> map rp_data (hi_sent (bk_in s)) @ future = concat (map (transfers n) sent)
        \<and> back_next n sent (hr_buffer (bk_recv s)) g (map rp_data (bk_transfers s) @ future)
        \<and> hr_max_transfer_size (bk_recv s) = n \<and> hr_max_size (bk_recv s) = L)"

lemma back_next_start: "back_next n ms [] [] (concat (map (transfers n) ms))"
  by (cases ms) (auto simp: back_next_def)

lemma back_next_packet: "back_next n (g @ m # ms) [] (g @ [m]) (concat (map (transfers n) ms))"
  by (cases ms) (auto simp: back_next_def)

lemma back_recv_ok:
  assumes "0 < n" and "back_app_ok n L sent s" and "\<forall>m\<in>set sent. length m \<le> L" and "hi_error (bk_in s) = None"
  shows "back_app_ok n L sent (back_recv s)
    \<and> (back_recv s = s \<and> (bk_transfers s = [] \<and> \<not> hi_ended (bk_in s) \<or> bk_end s)
       \<or> (\<exists>r q g e. back_recv s = s\<lparr>bk_recv := r, bk_transfers := q, bk_got := g, bk_end := e\<rparr>
            \<and> \<not> bk_end s \<and> length q \<le> length (bk_transfers s)
            \<and> (length q = length (bk_transfers s) \<longrightarrow> e) \<and> (e \<longrightarrow> hi_ended (bk_in s) \<and> q = [])))"
proof (cases "bk_end s")
  case True
  with assms show ?thesis by (simp add: back_recv_def)
next
  case False
  let ?q = "bk_transfers s" and ?r = "bk_recv s" and ?c = "hi_ended (bk_in s)"
  from assms(2) obtain g future where ok: "bk_got s = map Inr g"
    "map rp_data (hi_sent (bk_in s)) @ future = concat (map (transfers n) sent)"
    "back_next n sent (hr_buffer ?r) g (map rp_data ?q @ future)"
    "hr_max_transfer_size ?r = n" "hr_max_size ?r = L"
    by (auto simp: back_app_ok_def)
  have "(\<exists>a. back_next n sent (hr_buffer ?r @ a) g future \<and> (?q = [] \<longrightarrow> a = [])
          \<and> host_recv ?c None ?r [?q] = (if ?c then Ready (Inr None) else Pending, ?r\<lparr>hr_buffer := hr_buffer ?r @ a\<rparr>, []))
      \<or> (\<exists>m q'. back_next n sent [] (g @ [m]) (map rp_data q' @ future) \<and> length q' < length ?q
          \<and> host_recv ?c None ?r [?q] = (Ready (Inr (Some m)), ?r\<lparr>hr_buffer := []\<rparr>, [q']))"
    using ok(3) unfolding back_next_def [of n sent "hr_buffer ?r"]
  proof (elim disjE exE conjE)
    fix c ms
    assume sent: "sent = g @ (hr_buffer ?r @ c) # ms" and q: "map rp_data ?q @ future = transfers n c @ concat (map (transfers n) ms)"
    have "length (hr_buffer ?r @ c) \<le> hr_max_size ?r" using assms(3) ok(5) sent by simp
    from host_recv_wave [OF assms(1) ok(4) q this, of ?c] show ?thesis
    proof (elim disjE exE conjE)
      fix a c'
      assume a: "c = a @ c'" "future = transfers n c' @ concat (map (transfers n) ms)" "?q = [] \<longrightarrow> a = []"
        and "host_recv ?c None ?r [?q] = (if ?c then Ready (Inr None) else Pending, ?r\<lparr>hr_buffer := hr_buffer ?r @ a\<rparr>, [])"
      moreover from a(1,2) have "back_next n sent (hr_buffer ?r @ a) g future"
        by (auto simp: back_next_def sent)
      ultimately show ?thesis by blast
    next
      fix q'
      assume "map rp_data q' @ future = concat (map (transfers n) ms)" "length q' < length ?q"
        "host_recv ?c None ?r [?q] = (Ready (Inr (Some (hr_buffer ?r @ c))), ?r\<lparr>hr_buffer := []\<rparr>, [q'])"
      then show ?thesis using back_next_packet [of n g "hr_buffer ?r @ c" ms] sent by auto
    qed
  next
    assume "sent = g" "hr_buffer ?r = []" "map rp_data ?q @ future = []"
    then show ?thesis by (intro disjI1 exI [of _ "[]"]) (simp add: back_next_def)
  qed
  then show ?thesis
  proof (elim disjE exE conjE)
    fix a
    let ?r' = "?r\<lparr>hr_buffer := hr_buffer ?r @ a\<rparr>"
    assume nxt: "back_next n sent (hr_buffer ?r @ a) g future" and a: "?q = [] \<longrightarrow> a = []"
      and res: "host_recv ?c None ?r [?q] = (if ?c then Ready (Inr None) else Pending, ?r', [])"
    have step: "back_recv s = s\<lparr>bk_recv := ?r', bk_transfers := [], bk_got := bk_got s, bk_end := ?c\<rparr>"
      using res False assms(4) by (cases ?c) (simp_all add: back_recv_def Let_def)
    have "back_app_ok n L sent (back_recv s)"
      unfolding back_app_ok_def step using nxt ok by (intro exI [of _ g] exI [of _ future]) simp
    moreover have "back_recv s = s" if "?q = []" "\<not> ?c"
      unfolding step using that a False by simp
    moreover have "length [] \<le> length ?q" "length [] = length ?q \<longleftrightarrow> ?q = []" by auto
    ultimately show ?thesis using step False by blast
  next
    fix m q'
    assume nxt: "back_next n sent [] (g @ [m]) (map rp_data q' @ future)" and len: "length q' < length ?q"
      and res: "host_recv ?c None ?r [?q] = (Ready (Inr (Some m)), ?r\<lparr>hr_buffer := []\<rparr>, [q'])"
    have step: "back_recv s = s\<lparr>bk_recv := ?r\<lparr>hr_buffer := []\<rparr>, bk_transfers := q', bk_got := bk_got s @ [Inr m], bk_end := False\<rparr>"
      using res False assms(4) by (simp add: back_recv_def Let_def)
    have "back_app_ok n L sent (back_recv s)"
      unfolding back_app_ok_def step using nxt ok by (intro exI [of _ "g @ [m]"] exI [of _ future]) simp
    moreover have "length q' \<le> length ?q" "length q' \<noteq> length ?q" using len by simp_all
    ultimately show ?thesis using step False by blast
  qed
qed

section \<open>The invariant\<close>

fun out_remaining :: "out_pc \<Rightarrow> ep_op list" where
  "out_remaining (OutBusy k ops) = ops"
| "out_remaining (OutDone r) = []"
| "out_remaining _ = []"

definition out_finished :: "out_state \<Rightarrow> bool" where
  "out_finished t \<longleftrightarrow> (\<exists>r. out_pc t = OutDone r)"

text \<open>
  The device: packets are in the application, in its queue or taken; the operations done and
  those of the current packet are those of the packets taken.
\<close>

definition back_ops_ok :: "nat \<Rightarrow> bytes list \<Rightarrow> bytes list \<Rightarrow> out_state \<Rightarrow> bool" where
  "back_ops_ok mps sent rest t \<longleftrightarrow>
     (\<exists>taken. taken @ rest = sent
        \<and> out_ops t @ out_remaining (out_pc t) = packet_ops mps taken @ (if out_finished t then [Flush] else []))"

definition back_dev_ok :: "nat \<Rightarrow> bytes list \<Rightarrow> backflow \<Rightarrow> bool" where
  "back_dev_ok mps sent s \<longleftrightarrow>
     back_ops_ok mps sent (bk_queue s @ bk_app s) (bk_out s)
     \<and> (bk_dropped s \<longrightarrow> bk_app s = []) \<and> length (bk_queue s) \<le> QUEUE_LEN
     \<and> out_max_transfer_size (bk_out s) = mps * TRANSFER_PACKETS \<and> out_pc_ok mps (out_pc (bk_out s))
     \<and> (out_pc (bk_out s) = OutFlush \<or> out_finished (bk_out s) \<longrightarrow> bk_dropped s \<and> bk_queue s = [])"

definition hi_taken :: "host_in_state \<Rightarrow> bytes list" where
  "hi_taken t = map rp_data (hi_sent t) @ (case hi_pc t of HiForward p \<Rightarrow> [rp_data p] | _ \<Rightarrow> [])"

definition back_bus_ok :: "nat \<Rightarrow> backflow \<Rightarrow> bool" where
  "back_bus_ok mps s \<longleftrightarrow>
     (let ps = usb_packets mps (wire_of (bk_out s))
      in bk_moved s \<le> length ps
       \<and> fold (usb_feed mps (mps * TRANSFER_PACKETS)) (take (bk_moved s) ps) ([], [])
           = (bk_filling s, hi_taken (bk_in s) @ bk_filled s)
       \<and> (out_finished (bk_out s) \<longrightarrow> bk_moved s = length ps))
     \<and> length (bk_filled s) \<le> back_posted (bk_in s) \<and> (bk_halted s \<longrightarrow> out_finished (bk_out s))"

definition back_in_ok :: "backflow \<Rightarrow> bool" where
  "back_in_ok s \<longleftrightarrow>
     hi_error (bk_in s) = None \<and> length (bk_transfers s) \<le> QUEUE_LEN
     \<and> length (bk_transfers s) \<le> length (hi_sent (bk_in s))
     \<and> (hi_pc (bk_in s) = HiReceive \<longrightarrow> hi_submitted (bk_in s) = hi_completed (bk_in s) + DMA_BUFFERS + 1)
     \<and> (\<forall>p. hi_pc (bk_in s) = HiForward p \<longrightarrow> hi_submitted (bk_in s) = hi_completed (bk_in s) + DMA_BUFFERS)
     \<and> (\<forall>b. hi_pc (bk_in s) = HiDone b \<longrightarrow> \<not> b \<and> bk_halted s \<and> bk_filled s = [])
     \<and> (bk_end s \<longrightarrow> hi_ended (bk_in s) \<and> bk_transfers s = [])"

definition back_inv :: "nat \<Rightarrow> nat \<Rightarrow> bytes list \<Rightarrow> backflow \<Rightarrow> bool" where
  "back_inv mps L sent s \<longleftrightarrow>
     back_dev_ok mps sent s \<and> back_bus_ok mps s \<and> back_in_ok s
     \<and> back_app_ok (mps * TRANSFER_PACKETS) L sent s \<and> (\<forall>m\<in>set sent. length m \<le> L)"

text \<open>What is in the queue of the endpoint is a part of what is to be sent, and what has arrived is a part of that.\<close>

abbreviation wire_all :: "nat \<Rightarrow> bytes list \<Rightarrow> bytes list" where
  "wire_all mps sent \<equiv> concat (map op_transfer (packet_ops mps sent))"

lemma back_wire:
  assumes "back_dev_ok mps sent s"
  shows "prefix (wire_of (bk_out s)) (wire_all mps sent)"
    and "out_finished (bk_out s) \<Longrightarrow> wire_of (bk_out s) = wire_all mps sent"
proof -
  from assms obtain taken where t: "taken @ bk_queue s @ bk_app s = sent"
    "out_ops (bk_out s) @ out_remaining (out_pc (bk_out s))
       = packet_ops mps taken @ (if out_finished (bk_out s) then [Flush] else [])"
    by (auto simp: back_dev_ok_def back_ops_ok_def)
  have "wire_of (bk_out s) @ concat (map op_transfer (out_remaining (out_pc (bk_out s)))) = wire_all mps taken"
    using arg_cong [OF t(2), of "\<lambda>ops. concat (map op_transfer ops)"] by (simp add: wire_of_def split: if_splits)
  then have split: "wire_all mps sent = wire_of (bk_out s)
      @ concat (map op_transfer (out_remaining (out_pc (bk_out s)))) @ wire_all mps (bk_queue s @ bk_app s)"
    by (simp flip: t(1))
  then show "prefix (wire_of (bk_out s)) (wire_all mps sent)" by simp
  assume "out_finished (bk_out s)"
  then have "out_remaining (out_pc (bk_out s)) = []" "bk_queue s = []" "bk_app s = []"
    using assms by (auto simp: back_dev_ok_def out_finished_def)
  then show "wire_of (bk_out s) = wire_all mps sent" using split by simp
qed

lemma usb_packets_prefix: "prefix ts us \<Longrightarrow> prefix (usb_packets mps ts) (usb_packets mps us)"
  by (auto simp: prefix_def)

lemma back_arrived:
  assumes "0 < mps" and "back_dev_ok mps sent s" and "back_bus_ok mps s"
  shows "prefix (hi_taken (bk_in s) @ bk_filled s) (device_transfers mps sent)"
    and "out_finished (bk_out s) \<Longrightarrow> hi_taken (bk_in s) @ bk_filled s = device_transfers mps sent"
proof -
  let ?ps = "usb_packets mps (wire_of (bk_out s))" and ?all = "usb_packets mps (wire_all mps sent)" and ?k = "bk_moved s"
  obtain rest where rest: "?all = ?ps @ rest"
    using usb_packets_prefix [OF back_wire(1) [OF assms(2)]] by (auto simp: prefix_def)
  have le: "?k \<le> length ?ps" using assms(3) by (simp add: back_bus_ok_def Let_def)
  have "fold (usb_feed mps (mps * TRANSFER_PACKETS)) (take ?k ?all) ([], []) = (bk_filling s, hi_taken (bk_in s) @ bk_filled s)"
    using assms(3) le by (simp add: back_bus_ok_def rest Let_def)
  note fed = usb_feed_fill [OF this, of "drop ?k ?all"]
  have fed: "device_transfers mps sent = (hi_taken (bk_in s) @ bk_filled s)
      @ usb_fill mps (mps * TRANSFER_PACKETS) (bk_filling s) (drop ?k ?all)"
    using fed usb_fill_back [OF assms(1), of sent] by simp
  then show "prefix (hi_taken (bk_in s) @ bk_filled s) (device_transfers mps sent)" by simp
  assume fin: "out_finished (bk_out s)"
  then have "?k = length ?ps" "?all = ?ps"
    using assms(3) back_wire(2) [OF assms(2)] by (simp_all add: back_bus_ok_def Let_def)
  then show "hi_taken (bk_in s) @ bk_filled s = device_transfers mps sent" using fed by simp
qed

section \<open>The work that is left\<close>

fun back_out_work :: "out_pc \<Rightarrow> nat" where
  "back_out_work OutLock = 3"
| "back_out_work (OutRecv k) = 2"
| "back_out_work (OutBusy k ops) = 2"
| "back_out_work OutFlush = 1"
| "back_out_work _ = 0"

fun hi_work :: "host_in_pc \<Rightarrow> nat" where
  "hi_work HiReceive = 2"
| "hi_work (HiForward p) = 1"
| "hi_work (HiDone b) = 0"

definition back_work :: "nat \<Rightarrow> bytes list \<Rightarrow> backflow \<Rightarrow> nat" where
  "back_work mps sent s =
     (let n = length (device_transfers mps sent)
      in 2 * length (bk_app s) + length (bk_queue s) + of_bool (\<not> bk_dropped s)
       + back_out_work (out_pc (bk_out s)) + steps_left (Suc (length (packet_ops mps sent))) (length (out_ops (bk_out s)))
       + steps_left (length (usb_packets mps (wire_all mps sent))) (bk_moved s)
       + of_bool (\<not> bk_halted s)
       + (2 * steps_left n (length (hi_sent (bk_in s))) + hi_work (hi_pc (bk_in s)))
       + steps_left n (length (hi_sent (bk_in s)) - length (bk_transfers s))
       + of_bool (\<not> bk_end s))"

text \<open>The parts of the invariant that a change does not touch.\<close>

lemma back_frames [simp]:
  "back_bus_ok mps (s\<lparr>bk_app := a\<rparr>) = back_bus_ok mps s" "back_bus_ok mps (s\<lparr>bk_queue := q\<rparr>) = back_bus_ok mps s"
  "back_bus_ok mps (s\<lparr>bk_dropped := x\<rparr>) = back_bus_ok mps s" "back_bus_ok mps (s\<lparr>bk_transfers := ts\<rparr>) = back_bus_ok mps s"
  "back_bus_ok mps (s\<lparr>bk_recv := r\<rparr>) = back_bus_ok mps s" "back_bus_ok mps (s\<lparr>bk_got := g\<rparr>) = back_bus_ok mps s"
  "back_bus_ok mps (s\<lparr>bk_end := x\<rparr>) = back_bus_ok mps s"
  "back_in_ok (s\<lparr>bk_app := a\<rparr>) = back_in_ok s" "back_in_ok (s\<lparr>bk_queue := q\<rparr>) = back_in_ok s"
  "back_in_ok (s\<lparr>bk_dropped := x\<rparr>) = back_in_ok s" "back_in_ok (s\<lparr>bk_out := out\<rparr>) = back_in_ok s"
  "back_in_ok (s\<lparr>bk_moved := k\<rparr>) = back_in_ok s" "back_in_ok (s\<lparr>bk_filling := acc\<rparr>) = back_in_ok s"
  "back_in_ok (s\<lparr>bk_recv := r\<rparr>) = back_in_ok s" "back_in_ok (s\<lparr>bk_got := g\<rparr>) = back_in_ok s"
  "back_dev_ok mps sent (s\<lparr>bk_moved := k\<rparr>) = back_dev_ok mps sent s"
  "back_dev_ok mps sent (s\<lparr>bk_filling := acc\<rparr>) = back_dev_ok mps sent s"
  "back_dev_ok mps sent (s\<lparr>bk_filled := fs\<rparr>) = back_dev_ok mps sent s"
  "back_dev_ok mps sent (s\<lparr>bk_halted := x\<rparr>) = back_dev_ok mps sent s"
  "back_dev_ok mps sent (s\<lparr>bk_in := i\<rparr>) = back_dev_ok mps sent s"
  "back_dev_ok mps sent (s\<lparr>bk_transfers := ts\<rparr>) = back_dev_ok mps sent s"
  "back_dev_ok mps sent (s\<lparr>bk_recv := r\<rparr>) = back_dev_ok mps sent s"
  "back_dev_ok mps sent (s\<lparr>bk_got := g\<rparr>) = back_dev_ok mps sent s"
  "back_dev_ok mps sent (s\<lparr>bk_end := x\<rparr>) = back_dev_ok mps sent s"
  "back_app_ok n L sent (s\<lparr>bk_app := a\<rparr>) = back_app_ok n L sent s"
  "back_app_ok n L sent (s\<lparr>bk_queue := q\<rparr>) = back_app_ok n L sent s"
  "back_app_ok n L sent (s\<lparr>bk_dropped := x\<rparr>) = back_app_ok n L sent s"
  "back_app_ok n L sent (s\<lparr>bk_out := out\<rparr>) = back_app_ok n L sent s"
  "back_app_ok n L sent (s\<lparr>bk_moved := k\<rparr>) = back_app_ok n L sent s"
  "back_app_ok n L sent (s\<lparr>bk_filling := acc\<rparr>) = back_app_ok n L sent s"
  "back_app_ok n L sent (s\<lparr>bk_filled := fs\<rparr>) = back_app_ok n L sent s"
  "back_app_ok n L sent (s\<lparr>bk_halted := x\<rparr>) = back_app_ok n L sent s"
  by (simp_all add: back_dev_ok_def back_bus_ok_def back_in_ok_def back_app_ok_def)

definition back_progress :: "nat \<Rightarrow> nat \<Rightarrow> bytes list \<Rightarrow> backflow \<Rightarrow> backflow \<Rightarrow> bool" where
  "back_progress mps L sent s s' \<longleftrightarrow>
     back_inv mps L sent s' \<and> (s' = s \<or> back_work mps sent s' < back_work mps sent s)"

lemma back_progress_refl: "back_inv mps L sent s \<Longrightarrow> back_progress mps L sent s s"
  by (simp add: back_progress_def)

lemma back_send_progress:
  assumes "back_inv mps L sent s"
  shows "back_progress mps L sent s (back_send s)"
proof (cases "bk_app s")
  case Nil
  show ?thesis
  proof (cases "bk_dropped s")
    case True
    then have "back_send s = s" using Nil by (cases s) (simp add: back_send_def)
    with assms show ?thesis by (simp add: back_progress_refl)
  next
    case False
    then show ?thesis
      using assms Nil by (simp add: back_progress_def back_send_def back_inv_def back_dev_ok_def back_work_def Let_def)
  qed
next
  case (Cons m ms)
  show ?thesis
  proof (cases "length (bk_queue s) < QUEUE_LEN")
    case True
    moreover have "\<not> bk_dropped s" using assms Cons by (auto simp: back_inv_def back_dev_ok_def)
    ultimately show ?thesis
      using assms Cons by (simp add: back_progress_def back_send_def back_inv_def back_dev_ok_def back_work_def Let_def)
  next
    case False
    then have "back_send s = s" using Cons by (simp add: back_send_def)
    with assms show ?thesis by (simp add: back_progress_refl)
  qed
qed

lemma back_halt_progress:
  assumes "back_inv mps L sent s"
  shows "back_progress mps L sent s (back_halt s)"
proof (cases "out_finished (bk_out s) \<and> \<not> bk_halted s")
  case True
  then have step: "back_halt s = s\<lparr>bk_halted := True\<rparr>" by (auto simp: back_halt_def out_finished_def)
  have "back_bus_ok mps (back_halt s)" "back_in_ok (back_halt s)"
    using assms True by (auto simp: step back_inv_def back_bus_ok_def back_in_ok_def Let_def)
  with assms True show ?thesis
    by (simp add: back_progress_def step back_inv_def back_work_def Let_def)
next
  case False
  then have "back_halt s = s" by (cases s) (auto simp: back_halt_def out_finished_def split: out_pc.splits)
  with assms show ?thesis by (simp add: back_progress_refl)
qed

lemma back_packet_progress:
  assumes "0 < mps" and "back_inv mps L sent s"
  shows "back_progress mps L sent s (back_packet mps s)"
proof -
  let ?ps = "usb_packets mps (wire_of (bk_out s))" and ?k = "bk_moved s" and ?n = "mps * TRANSFER_PACKETS"
  show ?thesis
  proof (cases "?k < length ?ps \<and> length (bk_filled s) < back_posted (bk_in s)")
    case False
    then have "back_packet mps s = s" by (auto simp: back_packet_def Let_def)
    with assms(2) show ?thesis by (simp add: back_progress_refl)
  next
    case True
    obtain acc ts where feed: "usb_feed mps ?n (?ps ! ?k) (bk_filling s, bk_filled s) = (acc, ts)" by fastforce
    have step: "back_packet mps s = s\<lparr>bk_moved := ?k + 1, bk_filling := acc, bk_filled := ts\<rparr>"
      using True feed by (simp add: back_packet_def Let_def)
    have ok: "back_dev_ok mps sent s" "back_bus_ok mps s" "back_in_ok s" using assms(2) by (simp_all add: back_inv_def)
    have "fold (usb_feed mps ?n) (take ?k ?ps) ([], []) = (bk_filling s, hi_taken (bk_in s) @ bk_filled s)"
      using ok(2) by (simp add: back_bus_ok_def Let_def)
    moreover have "usb_feed mps ?n (?ps ! ?k) (bk_filling s, hi_taken (bk_in s) @ bk_filled s) = (acc, hi_taken (bk_in s) @ ts)"
      using usb_feed_front [of mps ?n "[?ps ! ?k]" "bk_filling s" "hi_taken (bk_in s)" "bk_filled s"] feed by simp
    ultimately have fed: "fold (usb_feed mps ?n) (take (Suc ?k) ?ps) ([], []) = (acc, hi_taken (bk_in s) @ ts)"
      using True by (simp add: take_Suc_conv_app_nth)
    have running: "\<not> out_finished (bk_out s)" "\<not> bk_halted s"
      using ok(2) True by (auto simp: back_bus_ok_def Let_def)
    have "length ts \<le> Suc (length (bk_filled s))" using feed by (auto simp: usb_feed_def split: if_splits)
    then have bus: "back_bus_ok mps (s\<lparr>bk_moved := ?k + 1, bk_filling := acc, bk_filled := ts\<rparr>)"
      using True fed running by (simp add: back_bus_ok_def Let_def)
    have "back_in_ok (s\<lparr>bk_moved := ?k + 1, bk_filling := acc, bk_filled := ts\<rparr>)"
      using ok(3) running by (simp add: back_in_ok_def)
    moreover have "?k < length (usb_packets mps (wire_all mps sent))"
      using True prefix_length_le [OF usb_packets_prefix [OF back_wire(1) [OF ok(1)]], of mps] by linarith
    from steps_left_less [OF lessI this] have "back_work mps sent (back_packet mps s) < back_work mps sent s"
      by (simp add: step back_work_def Let_def)
    ultimately show ?thesis
      using assms(2) bus by (simp add: back_progress_def step back_inv_def)
  qed
qed

text \<open>A turn of \<open>out_task\<close>: taking a packet, an operation, the last flush.\<close>

lemma wire_of_pc [simp]: "wire_of (t\<lparr>out_pc := pc\<rparr>) = wire_of t"
  by (simp add: wire_of_def)

lemma back_bus_started:
  "back_bus_ok mps s \<Longrightarrow> \<not> out_finished (bk_out s) \<Longrightarrow> prefix (wire_of (bk_out s)) (wire_of t) \<Longrightarrow> \<not> out_finished t \<Longrightarrow>
     back_bus_ok mps (s\<lparr>bk_out := t\<rparr>)"
  by (auto simp: back_bus_ok_def Let_def prefix_def)

lemma back_out_progress:
  assumes "0 < mps" and "back_inv mps L sent s"
  shows "back_progress mps L sent s (back_out mps depth s)"
proof -
  let ?t = "bk_out s" and ?s = "back_out mps depth s"
  have ok: "back_dev_ok mps sent s" "back_bus_ok mps s" using assms(2) by (simp_all add: back_inv_def)
  have pc: "out_pc_ok mps (out_pc ?t)" using ok(1) by (simp add: back_dev_ok_def)
  have size: "out_max_transfer_size ?t = mps * TRANSFER_PACKETS" using ok(1) by (simp add: back_dev_ok_def)
  have fin: "back_progress mps L sent s ?s"
    if "?s = s\<lparr>bk_out := t, bk_queue := q\<rparr>" and "back_dev_ok mps sent ?s" and "back_bus_ok mps (s\<lparr>bk_out := t\<rparr>)"
      and "length q + back_out_work (out_pc t) + steps_left (Suc (length (packet_ops mps sent))) (length (out_ops t))
        < length (bk_queue s) + back_out_work (out_pc ?t) + steps_left (Suc (length (packet_ops mps sent))) (length (out_ops ?t))"
    for t q
    using that assms(2) by (simp add: back_progress_def back_inv_def back_work_def Let_def)
  have fin': "back_progress mps L sent s ?s"
    if "?s = s\<lparr>bk_out := t\<rparr>" and "back_dev_ok mps sent ?s" and "back_bus_ok mps (s\<lparr>bk_out := t\<rparr>)"
      and "back_out_work (out_pc t) + steps_left (Suc (length (packet_ops mps sent))) (length (out_ops t))
        < back_out_work (out_pc ?t) + steps_left (Suc (length (packet_ops mps sent))) (length (out_ops ?t))" for t
    using fin [of "bk_queue s" t] that by simp
  from assms(1) size pc show ?thesis
  proof (cases rule: back_out_cases [where depth = depth])
    case idle
    with assms(2) show ?thesis by (simp add: back_progress_refl)
  next
    case start
    then show ?thesis
      using ok back_bus_started [OF ok(2)]
      by (intro fin' [OF start(2)]) (simp_all add: back_dev_ok_def back_ops_ok_def out_finished_def)
  next
    case (take m q ops)
    obtain taken where t: "taken @ m # q @ bk_app s = sent" "out_ops ?t = packet_ops mps taken"
      using ok(1) take(1,2) by (auto simp: back_dev_ok_def back_ops_ok_def out_finished_def)
    then have "back_ops_ok mps sent (q @ bk_app s) (?t\<lparr>out_pc := OutBusy mps ops\<rparr>)"
      using take(3) by (auto simp: back_ops_ok_def out_finished_def intro!: exI [of _ "taken @ [m]"])
    then have "back_dev_ok mps sent ?s"
      using ok(1) take(1,2) out_packet_ops_not_Nil [OF take(3)] by (simp add: take(4) back_dev_ok_def out_finished_def)
    then show ?thesis
      using ok back_bus_started [OF ok(2)] take(1,2)
      by (intro fin [OF take(4)]) (simp_all add: out_finished_def)
  next
    case dropped
    have "back_dev_ok mps sent ?s"
      using ok(1) dropped by (auto simp: back_dev_ok_def back_ops_ok_def out_finished_def)
    then show ?thesis
      using back_bus_started [OF ok(2)] dropped(1)
      by (intro fin' [OF dropped(4)]) (simp_all add: out_finished_def)
  next
    case (operation op ops)
    let ?t' = "?t\<lparr>out_pc := (if ops = [] then OutRecv mps else OutBusy mps ops), out_ops := out_ops ?t @ [op]\<rparr>"
    obtain taken where t: "taken @ bk_queue s @ bk_app s = sent" "out_ops ?t @ op # ops = packet_ops mps taken"
      using ok(1) operation(1) by (auto simp: back_dev_ok_def back_ops_ok_def out_finished_def)
    then have "back_dev_ok mps sent ?s"
      using ok(1) operation(1) by (auto simp: operation(2) back_dev_ok_def back_ops_ok_def out_finished_def)
    moreover have "back_bus_ok mps (s\<lparr>bk_out := ?t'\<rparr>)"
      using operation(1) by (intro back_bus_started [OF ok(2)]) (simp_all add: out_finished_def wire_of_def)
    moreover have "length (out_ops ?t) < length (packet_ops mps taken)" by (simp flip: t(2))
    then have "length (out_ops ?t) < Suc (length (packet_ops mps sent))" by (simp flip: t(1))
    ultimately show ?thesis
      using steps_left_less [OF lessI, of "length (out_ops ?t)"] operation(1)
      by (intro fin' [OF operation(2)]) simp_all
  next
    case flushed
    let ?t' = "?t\<lparr>out_pc := OutDone (Inr ()), out_ops := out_ops ?t @ [Flush]\<rparr>"
    obtain taken where t: "taken @ bk_queue s @ bk_app s = sent" "out_ops ?t = packet_ops mps taken"
      using ok(1) flushed(1) by (auto simp: back_dev_ok_def back_ops_ok_def out_finished_def)
    have w: "wire_of ?t' = wire_of ?t" by (simp add: wire_of_def)
    have "back_dev_ok mps sent ?s"
      using ok(1) flushed(1) t by (auto simp: flushed(3) back_dev_ok_def back_ops_ok_def out_finished_def)
    moreover have "back_bus_ok mps (s\<lparr>bk_out := ?t'\<rparr>)"
      using ok(2) flushed(1,2) by (auto simp: back_bus_ok_def Let_def w out_finished_def)
    moreover have "length (out_ops ?t) < Suc (length (packet_ops mps sent))" by (simp add: t(2) flip: t(1))
    ultimately show ?thesis
      using steps_left_less [OF lessI, of "length (out_ops ?t)"] flushed(1)
      by (intro fin' [OF flushed(3)]) (simp_all add: less_SucI)
  qed
qed

text \<open>A turn of \<open>in_task\<close>.\<close>

lemma back_app_in_frames [simp]:
  "back_app_ok n L sent (s\<lparr>bk_in := (bk_in s)\<lparr>hi_completed := k, hi_pc := pc\<rparr>\<rparr>) = back_app_ok n L sent s"
  by (simp add: back_app_ok_def)

lemma back_in_progress:
  assumes "0 < mps" and "back_inv mps L sent s"
  shows "back_progress mps L sent s (back_in s)"
proof -
  let ?i = "bk_in s" and ?n = "mps * TRANSFER_PACKETS"
  have ok: "back_dev_ok mps sent s" "back_bus_ok mps s" "back_in_ok s" "back_app_ok ?n L sent s"
    using assms(2) by (simp_all add: back_inv_def)
  show ?thesis
  proof (cases rule: back_in_cases [where s = s])
    case idle
    with assms(2) show ?thesis by (simp add: back_progress_refl)
  next
    case (complete t ts)
    have "back_bus_ok mps (back_in s)"
      using ok(2,3) complete(1,2)
      by (simp add: complete(3) back_bus_ok_def back_in_ok_def hi_taken_def back_posted_def Let_def)
    moreover have "back_in_ok (back_in s)"
      using ok(3) complete(1) by (auto simp: complete(3) back_in_ok_def hi_ended_def)
    ultimately show ?thesis
      using assms(2) complete(1)
      by (simp add: back_progress_def complete(3) back_inv_def back_work_def Let_def)
  next
    case stalled
    have "back_bus_ok mps (back_in s)"
      using ok(2) stalled(1,2) by (simp add: stalled(4) back_bus_ok_def hi_taken_def back_posted_def Let_def)
    moreover have "back_in_ok (back_in s)"
      using ok(3) stalled(1-3) by (auto simp: stalled(4) back_in_ok_def hi_ended_def)
    ultimately show ?thesis
      using assms(2) stalled(1)
      by (simp add: back_progress_def stalled(4) back_inv_def back_work_def Let_def)
  next
    case (forward p)
    let ?N = "length (device_transfers mps sent)"
    have taken: "hi_taken ?i = map rp_data (hi_sent ?i) @ [rp_data p]" by (simp add: hi_taken_def forward(1))
    obtain rest where rest: "device_transfers mps sent = hi_taken ?i @ bk_filled s @ rest"
      using back_arrived(1) [OF assms(1) ok(1,2)] by (auto simp: prefix_def)
    obtain g future where app: "bk_got s = map Inr g" "map rp_data (hi_sent ?i) @ future = device_transfers mps sent"
      "back_next ?n sent (hr_buffer (bk_recv s)) g (map rp_data (bk_transfers s) @ future)"
      "hr_max_transfer_size (bk_recv s) = ?n" "hr_max_size (bk_recv s) = L"
      using ok(4) by (auto simp: back_app_ok_def device_transfers_def)
    have future: "future = rp_data p # bk_filled s @ rest" using app(2) unfolding rest taken by simp
    have "back_app_ok ?n L sent (back_in s)"
      using app unfolding forward(3) back_app_ok_def device_transfers_def
      by (intro exI [of _ g] exI [of _ "bk_filled s @ rest"]) (simp add: future)
    moreover have "back_bus_ok mps (back_in s)"
      using ok(2,3) forward(1)
      by (simp add: forward(3) back_bus_ok_def back_in_ok_def hi_taken_def back_posted_def Let_def)
    moreover have "back_in_ok (back_in s)"
      using ok(3) forward(1,2) by (auto simp: forward(3) back_in_ok_def hi_ended_def)
    moreover have "length (hi_sent ?i) < ?N" by (simp add: rest taken)
    then have "back_work mps sent (back_in s) < back_work mps sent s"
      using forward(1) by (simp add: forward(3) back_work_def Let_def steps_left_Suc [of "length (hi_sent ?i)"])
    ultimately show ?thesis using assms(2) by (simp add: back_progress_def forward(3) back_inv_def)
  qed
qed

text \<open>A turn of the host's application.\<close>

lemma back_recv_progress:
  assumes "0 < mps" and "back_inv mps L sent s"
  shows "back_progress mps L sent s (back_recv s)"
proof -
  let ?n = "mps * TRANSFER_PACKETS" and ?i = "bk_in s"
  have ok: "back_dev_ok mps sent s" "back_bus_ok mps s" "back_in_ok s" "back_app_ok ?n L sent s" "\<forall>m\<in>set sent. length m \<le> L"
    using assms(2) by (simp_all add: back_inv_def)
  have pos: "0 < ?n" using assms(1) by (simp add: TRANSFER_PACKETS_def)
  have "hi_error ?i = None" using ok(3) by (simp add: back_in_ok_def)
  note recv = back_recv_ok [OF pos ok(4,5) this]
  from recv consider "back_recv s = s"
    | r q g e where "back_recv s = s\<lparr>bk_recv := r, bk_transfers := q, bk_got := g, bk_end := e\<rparr>" "\<not> bk_end s"
      "length q \<le> length (bk_transfers s)" "length q = length (bk_transfers s) \<longrightarrow> e"
      "e \<longrightarrow> hi_ended ?i \<and> q = []"
    by blast
  then show ?thesis
  proof cases
    case 1
    with assms(2) show ?thesis by (simp add: back_progress_refl)
  next
    case (2 r q g e)
    have "prefix (map rp_data (hi_sent ?i)) (device_transfers mps sent)"
      using back_arrived(1) [OF assms(1) ok(1,2)] by (auto simp: hi_taken_def prefix_def)
    from prefix_length_le [OF this] have len: "length (hi_sent ?i) \<le> length (device_transfers mps sent)" by simp
    have "length (bk_transfers s) \<le> length (hi_sent ?i)" using ok(3) by (simp add: back_in_ok_def)
    then have "length q < length (bk_transfers s) \<Longrightarrow>
        steps_left (length (device_transfers mps sent)) (length (hi_sent ?i) - length q)
          < steps_left (length (device_transfers mps sent)) (length (hi_sent ?i) - length (bk_transfers s))"
      using len by (intro steps_left_less) linarith+
    then have "back_work mps sent (back_recv s) < back_work mps sent s"
      using 2(2-5) by (cases "length q < length (bk_transfers s)"; cases e) (simp_all add: 2(1) back_work_def Let_def)
    moreover have "back_in_ok (back_recv s)" using ok(3) 2(2-5) by (auto simp: 2(1) back_in_ok_def)
    moreover have "back_app_ok ?n L sent (back_recv s)" using recv by blast
    ultimately show ?thesis using assms(2) by (simp add: back_progress_def back_inv_def 2(1))
  qed
qed

lemma back_step_progress:
  "0 < mps \<Longrightarrow> back_inv mps L sent s \<Longrightarrow> back_progress mps L sent s (back_step mps depth ev s)"
  by (cases ev)
    (simp_all add: back_step_def back_send_progress back_out_progress back_packet_progress
      back_halt_progress back_in_progress back_recv_progress)

interpretation backflow: descending "back_step (Suc k) depth" "back_inv (Suc k) L sent" "back_work (Suc k) sent"
  for k depth L sent
  using back_step_progress [of "Suc k" L sent] by unfold_locales (auto simp: back_progress_def)

end
