(* ===== verification/System_Back_Delivery.thy ===== *)
theory System_Back_Delivery
  imports System_Flow_Back
begin

text \<open>
  What the system of theory System_Flow_Back delivers: in every interleaving a prefix of what
  was sent, within its bounds; and under every schedule in which all parts keep taking turns
  everything, for packets of every length, and the regular end of the stream.
\<close>

section \<open>Where the system comes to rest\<close>

lemma back_init_inv:
  assumes "host_ready (mps * TRANSFER_PACKETS) L r" and "\<forall>m\<in>set ms. length m \<le> L"
  shows "back_inv mps L ms (back_init mps r ms)"
proof -
  have "back_dev_ok mps ms (back_init mps r ms)"
    by (simp add: back_dev_ok_def back_ops_ok_def back_init_def out_task_init_def out_finished_def)
  moreover have "back_bus_ok mps (back_init mps r ms)"
    by (simp add: back_bus_ok_def back_init_def out_task_init_def out_finished_def wire_of_def hi_taken_def host_in_init_def)
  moreover have "back_in_ok (back_init mps r ms)"
    by (simp add: back_in_ok_def back_init_def host_in_init_def)
  moreover have "back_app_ok (mps * TRANSFER_PACKETS) L ms (back_init mps r ms)"
    using assms(1) back_next_start [of "mps * TRANSFER_PACKETS" ms]
    by (simp add: back_app_ok_def back_init_def host_in_init_def host_ready_def)
  ultimately show ?thesis using assms(2) by (simp add: back_inv_def)
qed

lemma back_reachable_inv:
  assumes "0 < mps" and "host_ready (mps * TRANSFER_PACKETS) L r" and "\<forall>m\<in>set ms. length m \<le> L"
  shows "back_inv mps L ms (fold (back_step mps depth) evs (back_init mps r ms))"
proof -
  obtain k where "mps = Suc k" using assms(1) gr0_implies_Suc by blast
  then show ?thesis using backflow.run_inv [OF back_init_inv] assms by simp
qed

lemma back_in_still:
  assumes "back_in s = s"
  shows "hi_ended (bk_in s) \<or> (\<exists>p. hi_pc (bk_in s) = HiForward p) \<and> QUEUE_LEN \<le> length (bk_transfers s)
    \<or> hi_pc (bk_in s) = HiReceive \<and> bk_filled s = [] \<and> \<not> bk_halted s"
proof -
  have "hi_pc (host_in_step (back_in_poll s) (bk_in s)) = hi_pc (bk_in s)"
    using arg_cong [OF assms, of "\<lambda>s. hi_pc (bk_in s)"] by (simp add: back_in_def Let_def)
  then show ?thesis
    by (cases "hi_pc (bk_in s)")
      (auto simp: hi_ended_def back_in_poll_def host_in_step_defs Let_def split: if_splits list.splits)
qed

text \<open>With everything moved, \<open>out_task\<close> is only idle when it waits for a packet or has ended.\<close>

lemma back_out_still:
  assumes "0 < depth" and "out_pc_ok mps (out_pc (bk_out s))" and "back_out mps depth s = s"
    and "bk_moved s = length (usb_packets mps (wire_of (bk_out s)))"
  shows "out_finished (bk_out s) \<or> bk_queue s = [] \<and> \<not> bk_dropped s"
proof (cases "back_out_event mps depth s")
  case None
  have "length (wire_of (bk_out s)) - acked mps (wire_of (bk_out s)) (bk_moved s) = 0"
    by (simp add: assms(4) acked_all)
  with None assms(1,2,4) show ?thesis
    by (cases "out_pc (bk_out s)")
      (auto simp: back_out_event_def out_finished_def Let_def split: list.splits ep_op.splits if_splits)
next
  case (Some ev)
  have "out_task_step ev (bk_out s) = bk_out s"
    using arg_cong [OF assms(3), of bk_out] Some by (simp add: back_out_def)
  then have "out_pc (out_task_step ev (bk_out s)) = out_pc (bk_out s)"
      "out_ops (out_task_step ev (bk_out s)) = out_ops (bk_out s)" by simp_all
  with Some show ?thesis
    by (auto simp: back_out_event_def out_finished_def out_task_step.simps Let_def
        split: list.splits ep_op.splits if_splits out_pc.splits option.splits)
qed

lemma back_settled:
  assumes "0 < mps" and "0 < depth" and "back_inv mps L sent s" and "\<And>ev. back_step mps depth ev s = s"
  shows "bk_end s \<and> bk_got s = map Inr sent \<and> out_pc (bk_out s) = OutDone (Inr ()) \<and> hi_pc (bk_in s) = HiDone False"
proof -
  let ?ps = "usb_packets mps (wire_of (bk_out s))" and ?n = "mps * TRANSFER_PACKETS"
  have ok: "back_dev_ok mps sent s" "back_bus_ok mps s" "back_in_ok s" "back_app_ok ?n L sent s" "\<forall>m\<in>set sent. length m \<le> L"
    using assms(3) by (simp_all add: back_inv_def)
  have still: "back_send s = s" "back_out mps depth s = s" "back_packet mps s = s" "back_halt s = s" "back_in s = s"
      "back_recv s = s"
    using assms(4) [of DevSend] assms(4) [of DevOut] assms(4) [of BusPacket] assms(4) [of Halt]
      assms(4) [of HostIn] assms(4) [of HostRecv] by (simp_all add: back_step_def)
  have pos: "0 < ?n" using assms(1) by (simp add: TRANSFER_PACKETS_def)
  have "hi_error (bk_in s) = None" using ok(3) by (simp add: back_in_ok_def)
  note app = back_recv_ok [OF pos ok(4,5) this, unfolded still(6)]
  have "False" if "s = s\<lparr>bk_recv := r, bk_transfers := q, bk_got := g, bk_end := e\<rparr>" "\<not> bk_end s"
    "length q = length (bk_transfers s) \<longrightarrow> e" for r q g e
    using arg_cong [OF that(1), of bk_end] arg_cong [OF that(1), of bk_transfers] that(2,3) by simp
  then have recv: "bk_transfers s = [] \<and> \<not> hi_ended (bk_in s) \<or> bk_end s" using app by blast
  then have empty: "bk_transfers s = []" using ok(3) by (auto simp: back_in_ok_def)
  then have host: "hi_ended (bk_in s) \<or> hi_pc (bk_in s) = HiReceive \<and> bk_filled s = [] \<and> \<not> bk_halted s"
    using back_in_still [OF still(5)] by (auto simp: QUEUE_LEN_def)
  have moved: "bk_moved s = length ?ps"
  proof (cases "hi_ended (bk_in s)")
    case True
    then have "out_finished (bk_out s)" using ok(2,3) by (auto simp: back_in_ok_def back_bus_ok_def hi_ended_def)
    then show ?thesis using ok(2) by (simp add: back_bus_ok_def Let_def)
  next
    case False
    then have "length (bk_filled s) < back_posted (bk_in s)"
      using host ok(3) by (simp add: back_in_ok_def back_posted_def)
    moreover have False if "bk_moved s < length ?ps" "length (bk_filled s) < back_posted (bk_in s)"
      using arg_cong [OF still(3), of bk_moved] that by (simp add: back_packet_def Let_def split: prod.splits)
    ultimately show ?thesis using ok(2) by (fastforce simp: back_bus_ok_def Let_def)
  qed
  have False if "bk_queue s = []" "\<not> bk_dropped s"
    using arg_cong [OF still(1), of bk_dropped] arg_cong [OF still(1), of bk_queue] that
    by (cases "bk_app s") (simp_all add: back_send_def QUEUE_LEN_def)
  moreover have pc: "out_pc_ok mps (out_pc (bk_out s))" using ok(1) by (simp add: back_dev_ok_def)
  ultimately have fin: "out_finished (bk_out s)" using back_out_still [OF assms(2) _ still(2) moved] by blast
  then have out: "out_pc (bk_out s) = OutDone (Inr ())" using pc by (auto simp: out_finished_def)
  have "bk_halted s" using arg_cong [OF still(4), of bk_halted] out by (simp add: back_halt_def)
  with host have ended: "hi_ended (bk_in s)" by blast
  then have in_pc: "hi_pc (bk_in s) = HiDone False" and "bk_filled s = []"
    using ok(3) by (auto simp: back_in_ok_def hi_ended_def)
  with back_arrived(2) [OF assms(1) ok(1,2) fin] have all: "map rp_data (hi_sent (bk_in s)) = device_transfers mps sent"
    by (simp add: hi_taken_def)
  have "transfers ?n c \<noteq> []" for c using transfers_shape [OF pos, of c] by auto
  then have "bk_got s = map Inr sent"
    using ok(4) all empty by (auto simp: back_app_ok_def device_transfers_def back_next_def)
  with recv ended out in_pc show ?thesis by blast
qed

section \<open>What every interleaving delivers\<close>

text \<open>
  In the whole system from the application of the device to that of the host, under every
  interleaving of its parts: the application of the host has received a prefix of the packets
  sent, whole and in order, and never an error; both queues and the posted buffers stay within
  their capacities; what has arrived is a prefix of the transfers of the packets sent; and the
  stream ends only after all of them have been moved and forwarded.
\<close>

theorem back_safe:
  assumes "0 < mps" and "host_ready (mps * TRANSFER_PACKETS) L r" and "\<forall>m\<in>set ms. length m \<le> L"
    and "s = fold (back_step mps depth) evs (back_init mps r ms)"
  shows "(\<exists>g. bk_got s = map Inr g \<and> prefix g ms)
    \<and> length (bk_queue s) \<le> QUEUE_LEN \<and> length (bk_transfers s) \<le> QUEUE_LEN \<and> length (bk_filled s) \<le> DMA_BUFFERS + 1
    \<and> prefix (map rp_data (hi_sent (bk_in s))) (device_transfers mps ms)
    \<and> (bk_end s \<longrightarrow> hi_pc (bk_in s) = HiDone False \<and> out_pc (bk_out s) = OutDone (Inr ())
         \<and> map rp_data (hi_sent (bk_in s)) = device_transfers mps ms)"
proof -
  have inv: "back_inv mps L ms s" unfolding assms(4) by (rule back_reachable_inv [OF assms(1-3)])
  then have ok: "back_dev_ok mps ms s" "back_bus_ok mps s" "back_in_ok s" "back_app_ok (mps * TRANSFER_PACKETS) L ms s"
    by (simp_all add: back_inv_def)
  have "\<exists>g. bk_got s = map Inr g \<and> prefix g ms" using ok(4) by (auto simp: back_app_ok_def back_next_def)
  moreover have "length (bk_queue s) \<le> QUEUE_LEN" using ok(1) by (simp add: back_dev_ok_def)
  moreover have "length (bk_transfers s) \<le> QUEUE_LEN" using ok(3) by (simp add: back_in_ok_def)
  moreover have "length (bk_filled s) \<le> DMA_BUFFERS + 1"
    using ok(2,3) by (cases "hi_pc (bk_in s)") (auto simp: back_bus_ok_def back_in_ok_def back_posted_def)
  moreover have "prefix (map rp_data (hi_sent (bk_in s))) (device_transfers mps ms)"
    using back_arrived(1) [OF assms(1) ok(1,2)] by (auto simp: hi_taken_def prefix_def)
  moreover have "hi_pc (bk_in s) = HiDone False \<and> out_pc (bk_out s) = OutDone (Inr ())
      \<and> map rp_data (hi_sent (bk_in s)) = device_transfers mps ms" if "bk_end s"
  proof -
    have in_pc: "hi_pc (bk_in s) = HiDone False" "bk_filled s = []" and "bk_halted s"
      using ok(3) that by (auto simp: back_in_ok_def hi_ended_def)
    then have fin: "out_finished (bk_out s)" using ok(2) by (simp add: back_bus_ok_def)
    then have "out_pc (bk_out s) = OutDone (Inr ())" using ok(1) by (auto simp: back_dev_ok_def out_finished_def)
    with in_pc show ?thesis using back_arrived(2) [OF assms(1) ok(1,2) fin] by (simp add: hi_taken_def)
  qed
  ultimately show ?thesis by blast
qed

definition example_host_receiver :: "nat \<Rightarrow> nat \<Rightarrow> host_receiver" where
  "example_host_receiver mps L = \<lparr>hr_buffer = [], hr_max_size = L, hr_max_transfer_size = mps * TRANSFER_PACKETS\<rparr>"

lemma example_host_receiver_ready: "0 < mps \<Longrightarrow> host_ready (mps * TRANSFER_PACKETS) L (example_host_receiver mps L)"
  by (simp add: example_host_receiver_def host_ready_def TRANSFER_PACKETS_def)

theorem back_safe_witness:
  "\<exists>g. bk_got (fold (back_step 512 4) [DevSend, DevOut, DevOut, DevOut, BusPacket]
       (back_init 512 (example_host_receiver 512 9) [[1, 2], [3]])) = map Inr g
     \<and> prefix g [[1, 2], [3]]"
  by (rule back_safe [OF _ example_host_receiver_ready _ refl, THEN conjunct1]) simp_all

text \<open>
  C6. Every schedule in which all parts keep taking turns delivers: after as many rounds as
  there is work, \<open>out_task\<close> has sent everything and ended, the host has taken the halt of the
  endpoint as a regular end, and its application has read all packets and the end of the
  stream. In this direction no length of a packet is an exception, since the end is signalled
  behind the last transfer and not by a byte count.
\<close>

theorem back_completes:
  assumes "0 < mps" and "0 < depth" and "host_ready (mps * TRANSFER_PACKETS) L r" and "\<forall>m\<in>set ms. length m \<le> L"
    and "\<forall>round\<in>set rounds. \<forall>ev. ev \<in> set round" and "back_work mps ms (back_init mps r ms) < length rounds"
    and "s = fold (back_step mps depth) (concat rounds) (back_init mps r ms)"
  shows "bk_end s \<and> bk_got s = map Inr ms \<and> out_pc (bk_out s) = OutDone (Inr ()) \<and> hi_pc (bk_in s) = HiDone False"
proof -
  obtain j where j: "mps = Suc j" using assms(1) gr0_implies_Suc by blast
  have inv: "back_inv mps L ms s" unfolding assms(7) by (rule back_reachable_inv [OF assms(1,3,4)])
  have "back_step mps depth ev s = s" for ev
    unfolding assms(7) j
    by (rule backflow.rounds_settle [OF back_init_inv [OF assms(3,4), unfolded j] assms(5) assms(6) [unfolded j]])
  then show ?thesis by (rule back_settled [OF assms(1,2) inv])
qed

definition all_back_events :: "back_event list" where
  "all_back_events = [DevSend, DevOut, BusPacket, Halt, HostIn, HostRecv]"

lemma all_back_events_fair: "\<forall>round\<in>set (replicate n all_back_events). \<forall>ev. ev \<in> set round"
proof -
  have "ev \<in> set all_back_events" for ev by (cases ev) (simp_all add: all_back_events_def)
  then show ?thesis by simp
qed

theorem back_completes_witness:
  "\<exists>rounds. bk_got (fold (back_step 512 4) (concat rounds)
       (back_init 512 (example_host_receiver 512 9) [[1, 2], [], [3]])) = map Inr [[1, 2], [], [3]]"
proof -
  let ?s = "back_init 512 (example_host_receiver 512 9) [[1, 2], [], [3]]"
  let ?rounds = "replicate (Suc (back_work 512 [[1, 2], [], [3]] ?s)) all_back_events"
  have "bk_got (fold (back_step 512 4) (concat ?rounds) ?s) = map Inr [[1, 2], [], [3]]"
    by (rule back_completes [OF _ _ example_host_receiver_ready _ all_back_events_fair _ refl, THEN conjunct2, THEN conjunct1])
      simp_all
  then show ?thesis by blast
qed

end
