(* ===== verification/Upc_Trace.thy ===== *)
theory Upc_Trace
  imports Upc_Lib
begin

text \<open>
  Packet tracing, \<open>src/trace.rs\<close>: the tracer that is compiled in with the feature
  \<open>trace-packets\<close> and the one without operation that is compiled in otherwise, as two
  instances of the interface that the channels and tasks call.

  The library that receives the trace is not part of the program: a span is the value that
  it was created with, and an event is the span entered at that moment and the message. A
  tracer keeps the events that it has emitted.
\<close>

section \<open>Spans and events\<close>

text \<open>No span; a named span with the name of the device, if any; the span of a packet in another.\<close>

datatype span = NoSpan | Named string "string option" | Data span u64

datatype trace_message =
    EnqueuedForSending nat
  | ReceivedData nat
  | DequeuedPart nat
  | Dequeing
  | Dequeued nat
  | DequeuedTransfer nat bool
  | SendingData nat
  | SentPart nat
  | SentTerminator
  | SendingFinished
  | ReceivedTransfer nat

type_synonym trace_event = "span \<times> trace_message"

section \<open>The interface\<close>

text \<open>The functions of \<open>Tracer\<close> that the other modules call.\<close>

record 't tracer_ops =
  device_enqueue :: 't
  device_dequeue :: 't
  device_in :: 't
  device_out :: 't
  host_enqueue :: "string \<Rightarrow> 't"
  host_dequeue :: "string \<Rightarrow> 't"
  host_in :: "string \<Rightarrow> 't"
  host_out :: "string \<Rightarrow> 't"
  next_packet :: "'t \<Rightarrow> 't"
  enqueued :: "nat \<Rightarrow> 't \<Rightarrow> 't"
  received_data :: "nat \<Rightarrow> 't \<Rightarrow> 't"
  dequeued_part :: "nat \<Rightarrow> 't \<Rightarrow> 't"
  dequeing :: "'t \<Rightarrow> 't"
  dequeued :: "nat \<Rightarrow> 't \<Rightarrow> 't"
  deque_transfer :: "nat \<Rightarrow> bool \<Rightarrow> 't \<Rightarrow> 't"
  sending_data :: "nat \<Rightarrow> 't \<Rightarrow> 't"
  send_part :: "nat \<Rightarrow> 't \<Rightarrow> 't"
  send_terminator :: "'t \<Rightarrow> 't"
  data_finished :: "'t \<Rightarrow> 't"
  received_packet :: "nat \<Rightarrow> 't \<Rightarrow> 't"

section \<open>With the feature\<close>

text \<open>The sequence number is an \<open>AtomicUsize\<close>, whose \<open>fetch_add\<close> wraps around.\<close>

record tracer =
  tr_span :: span
  tr_seq :: u64
  tr_packet_span :: span
  tr_log :: "trace_event list"

definition tracer_new :: "span \<Rightarrow> tracer" where
  "tracer_new span = \<lparr>tr_span = span, tr_seq = 0, tr_packet_span = NoSpan, tr_log = []\<rparr>"

definition tracer_next :: "tracer \<Rightarrow> tracer" where
  "tracer_next t =
     (let seq = tr_seq t; t = t\<lparr>tr_seq := seq + 1\<rparr>
      in t\<lparr>tr_packet_span := Data (tr_span t) seq\<rparr>)"

definition tracer_enqueued :: "nat \<Rightarrow> tracer \<Rightarrow> tracer" where
  "tracer_enqueued len t =
     (let seq = tr_seq t; t = t\<lparr>tr_seq := seq + 1\<rparr>; span = Data (tr_span t) seq
      in t\<lparr>tr_log := tr_log t @ [(span, EnqueuedForSending len)]\<rparr>)"

text \<open>An event in the span of the current packet.\<close>

definition tracer_event :: "trace_message \<Rightarrow> tracer \<Rightarrow> tracer" where
  "tracer_event m t = t\<lparr>tr_log := tr_log t @ [(tr_packet_span t, m)]\<rparr>"

definition tracer_received_data :: "nat \<Rightarrow> tracer \<Rightarrow> tracer" where
  "tracer_received_data len = tracer_event (ReceivedData len)"

definition tracer_dequeued_part :: "nat \<Rightarrow> tracer \<Rightarrow> tracer" where
  "tracer_dequeued_part len = tracer_event (DequeuedPart len)"

definition tracer_dequeing :: "tracer \<Rightarrow> tracer" where
  "tracer_dequeing = tracer_event Dequeing"

definition tracer_dequeued :: "nat \<Rightarrow> tracer \<Rightarrow> tracer" where
  "tracer_dequeued len = tracer_event (Dequeued len)"

definition tracer_deque_transfer :: "nat \<Rightarrow> bool \<Rightarrow> tracer \<Rightarrow> tracer" where
  "tracer_deque_transfer len short = tracer_event (DequeuedTransfer len short)"

definition tracer_sending_data :: "nat \<Rightarrow> tracer \<Rightarrow> tracer" where
  "tracer_sending_data len = tracer_event (SendingData len)"

definition tracer_send_part :: "nat \<Rightarrow> tracer \<Rightarrow> tracer" where
  "tracer_send_part len = tracer_event (SentPart len)"

definition tracer_send_terminator :: "tracer \<Rightarrow> tracer" where
  "tracer_send_terminator = tracer_event SentTerminator"

definition tracer_data_finished :: "tracer \<Rightarrow> tracer" where
  "tracer_data_finished = tracer_event SendingFinished"

text \<open>This one enters the span of the tracer, not that of the packet.\<close>

definition tracer_received_packet :: "nat \<Rightarrow> tracer \<Rightarrow> tracer" where
  "tracer_received_packet len t = t\<lparr>tr_log := tr_log t @ [(tr_span t, ReceivedTransfer len)]\<rparr>"

definition recording_tracer :: "tracer tracer_ops" where
  "recording_tracer =
     \<lparr>device_enqueue = tracer_new (Named ''device_enqueue'' None),
      device_dequeue = tracer_new (Named ''device_dequeue'' None),
      device_in = tracer_new (Named ''device_in'' None),
      device_out = tracer_new (Named ''device_out'' None),
      host_enqueue = (\<lambda>name. tracer_new (Named ''host_enqueue'' (Some name))),
      host_dequeue = (\<lambda>name. tracer_new (Named ''host_dequeue'' (Some name))),
      host_in = (\<lambda>name. tracer_new (Named ''host_in'' (Some name))),
      host_out = (\<lambda>name. tracer_new (Named ''host_out'' (Some name))),
      next_packet = tracer_next,
      enqueued = tracer_enqueued,
      received_data = tracer_received_data,
      dequeued_part = tracer_dequeued_part,
      dequeing = tracer_dequeing,
      dequeued = tracer_dequeued,
      deque_transfer = tracer_deque_transfer,
      sending_data = tracer_sending_data,
      send_part = tracer_send_part,
      send_terminator = tracer_send_terminator,
      data_finished = tracer_data_finished,
      received_packet = tracer_received_packet\<rparr>"

section \<open>Without the feature\<close>

datatype noop_tracer = NoopTracer

definition noop_tracing :: "noop_tracer tracer_ops" where
  "noop_tracing =
     \<lparr>device_enqueue = NoopTracer, device_dequeue = NoopTracer, device_in = NoopTracer, device_out = NoopTracer,
      host_enqueue = (\<lambda>_. NoopTracer), host_dequeue = (\<lambda>_. NoopTracer),
      host_in = (\<lambda>_. NoopTracer), host_out = (\<lambda>_. NoopTracer),
      next_packet = (\<lambda>t. t), enqueued = (\<lambda>_ t. t), received_data = (\<lambda>_ t. t), dequeued_part = (\<lambda>_ t. t),
      dequeing = (\<lambda>t. t), dequeued = (\<lambda>_ t. t), deque_transfer = (\<lambda>_ _ t. t), sending_data = (\<lambda>_ t. t),
      send_part = (\<lambda>_ t. t), send_terminator = (\<lambda>t. t), data_finished = (\<lambda>t. t), received_packet = (\<lambda>_ t. t)\<rparr>"

section \<open>Numbers of packets\<close>

lemmas tracer_defs =
  tracer_next_def tracer_enqueued_def tracer_event_def tracer_received_data_def tracer_dequeued_part_def
  tracer_dequeing_def tracer_dequeued_def tracer_deque_transfer_def tracer_sending_data_def
  tracer_send_part_def tracer_send_terminator_def tracer_data_finished_def tracer_received_packet_def

text \<open>A tracer that has numbered \<open>n\<close> packets, and is at the packet numbered last or at none.\<close>

definition tracer_at :: "span \<Rightarrow> nat \<Rightarrow> trace_event list \<Rightarrow> tracer" where
  "tracer_at span n log =
     \<lparr>tr_span = span, tr_seq = of_nat n,
      tr_packet_span = (case n of 0 \<Rightarrow> NoSpan | Suc k \<Rightarrow> Data span (of_nat k)), tr_log = log\<rparr>"

lemma tracer_new_at: "tracer_new span = tracer_at span 0 []"
  by (simp add: tracer_new_def tracer_at_def)

lemma tracer_next_at [simp]: "tracer_next (tracer_at span n log) = tracer_at span (Suc n) log"
  by (simp add: tracer_next_def tracer_at_def Let_def)

lemma tracer_event_at [simp]:
  "tracer_event m (tracer_at span (Suc n) log) = tracer_at span (Suc n) (log @ [(Data span (of_nat n), m)])"
  by (simp add: tracer_event_def tracer_at_def)

lemma tracer_received_packet_at [simp]:
  "tracer_received_packet len (tracer_at span n log) = tracer_at span n (log @ [(span, ReceivedTransfer len)])"
  by (simp add: tracer_received_packet_def tracer_at_def)

lemma tracer_at_log [simp]: "tr_log (tracer_at span n log) = log"
  by (simp add: tracer_at_def)

end
