(* ===== verification/Traced_Channel.thy ===== *)
theory Traced_Channel
  imports Upc_Trace Device_Tasks Host_Native_Tasks Host_Web
begin

text \<open>
  The operations of the channels and the endpoint tasks with their calls of the tracer, for
  any implementation \<open>T\<close> of its interface. Dropping the tracer gives the definitions of the
  other theories, so both builds behave alike; and what the recording tracer writes is what
  the tasks put on the wire and take from it.
\<close>

section \<open>Senders\<close>

definition dev_send_traced ::
  "'t tracer_ops \<Rightarrow> (bytes \<Rightarrow> bool) \<Rightarrow> error_kind option \<Rightarrow> dev_sender \<Rightarrow> 't \<Rightarrow> bytes \<Rightarrow> (io_error + unit) \<times> 't" where
  "dev_send_traced T tx_send err s t data =
     (if ds_max_size s < length data then
        (Inl (Error InvalidInput (SizeExceeds (length data) (ds_max_size s))), t)
      else
        let t = enqueued T (length data) t
        in if tx_send data then (Inr (), t)
           else (Inl (channel_error (case err of Some k \<Rightarrow> k | None \<Rightarrow> BrokenPipe)), t))"

definition host_send_traced ::
  "'t tracer_ops \<Rightarrow> (bytes \<Rightarrow> bool) \<Rightarrow> ('e \<Rightarrow> io_error) \<Rightarrow> 'e option \<Rightarrow> host_sender \<Rightarrow> 't \<Rightarrow> bytes
     \<Rightarrow> (io_error + unit) \<times> 't" where
  "host_send_traced T tx_send to_io_err err s t data =
     (if hs_max_size s < length data then
        (Inl (Error InvalidInput (SizeExceeds (length data) (hs_max_size s))), t)
      else
        let t = enqueued T (length data) t
        in if tx_send data then (Inr (), t)
           else (Inl (case map_option to_io_err err of Some e \<Rightarrow> e | None \<Rightarrow> channel_error BrokenPipe), t))"

section \<open>Receivers\<close>

text \<open>A call of \<open>recv\<close> of the device: the loop, and the call with the two lines before it.\<close>

fun dev_recv_loop_traced ::
  "'t tracer_ops \<Rightarrow> bool \<Rightarrow> error_kind option \<Rightarrow> dev_receiver \<Rightarrow> 't \<Rightarrow> bytes list
     \<Rightarrow> ((io_error + bytes option) poll \<times> dev_receiver \<times> bytes list) \<times> 't" where
  "dev_recv_loop_traced T closed err r t [] =
     ((if closed then Ready (case err of Some k \<Rightarrow> Inl (channel_error k) | None \<Rightarrow> Inr None) else Pending,
       r, []), t)"
| "dev_recv_loop_traced T closed err r t (packet # q) =
     (let packet_len = length packet;
          t = dequeued_part T packet_len t;
          r = r\<lparr>dr_buffer := dr_buffer r @ packet\<rparr>
      in if dr_max_size r < length (dr_buffer r) then
           ((Ready (Inl dev_too_big), r\<lparr>dr_buffer := []\<rparr>, q), t)
         else if packet_len < dr_max_transfer_size r then
           ((Ready (Inr (Some (dr_buffer r))), r\<lparr>dr_buffer := []\<rparr>, q), dequeued T (length (dr_buffer r)) t)
         else dev_recv_loop_traced T closed err r t q)"

definition dev_recv_traced ::
  "'t tracer_ops \<Rightarrow> bool \<Rightarrow> error_kind option \<Rightarrow> dev_receiver \<Rightarrow> 't \<Rightarrow> bytes list
     \<Rightarrow> ((io_error + bytes option) poll \<times> dev_receiver \<times> bytes list) \<times> 't" where
  "dev_recv_traced T closed err r t q =
     dev_recv_loop_traced T closed err r (dequeing T (next_packet T t)) q"

text \<open>A call of \<open>recv\<close> of the host, with the loop over \<open>try_recv\<close>.\<close>

fun drain_traced ::
  "'t tracer_ops \<Rightarrow> nat \<Rightarrow> recv_packet list \<Rightarrow> 't \<Rightarrow> (recv_packet list \<times> bool \<times> recv_packet list) \<times> 't" where
  "drain_traced T max_transfer_size [] t = (([], False, []), t)"
| "drain_traced T max_transfer_size (p # ps) t =
     (let short = length (rp_data p) < max_transfer_size;
          t = deque_transfer T (length (rp_data p)) short t
      in if short then (([p], True, ps), t)
         else (case drain_traced T max_transfer_size ps t of
                 ((batch, short, rest), t) \<Rightarrow> ((p # batch, short, rest), t)))"

definition take_batch_traced ::
  "'t tracer_ops \<Rightarrow> nat \<Rightarrow> recv_packet \<Rightarrow> recv_packet list \<Rightarrow> 't
     \<Rightarrow> (recv_packet list \<times> bool \<times> recv_packet list) \<times> 't" where
  "take_batch_traced T max_transfer_size first wave t =
     (let short = length (rp_data first) < max_transfer_size;
          t = deque_transfer T (length (rp_data first)) short t
      in if short then (([first], True, wave), t)
         else (case drain_traced T max_transfer_size wave t of
                 ((batch, short, rest), t) \<Rightarrow> ((first # batch, short, rest), t)))"

lemma drain_traced_fst: "fst (drain_traced T n ps t) = drain n ps"
  by (induction ps arbitrary: t) (auto simp: Let_def case_prod_beta)

lemma take_batch_traced_fst: "fst (take_batch_traced T n first wave t) = take_batch n first wave"
  by (auto simp: take_batch_traced_def take_batch_def Let_def case_prod_beta drain_traced_fst)

text \<open>\<open>host_recv_traced T closed err r t q\<close> is at the top of the loop, before its call of \<open>next\<close>.\<close>

function host_recv_traced ::
  "'t tracer_ops \<Rightarrow> bool \<Rightarrow> io_error option \<Rightarrow> host_receiver \<Rightarrow> 't \<Rightarrow> recv_packet list list
     \<Rightarrow> ((io_error + bytes option) poll \<times> host_receiver \<times> recv_packet list list) \<times> 't" where
  "host_recv_traced T closed err r t [] =
     ((if closed then Ready (case err of Some e \<Rightarrow> Inl e | None \<Rightarrow> Inr None) else Pending, r, []),
      next_packet T t)"
| "host_recv_traced T closed err r t ([] # q) = host_recv_traced T closed err r t q"
| "host_recv_traced T closed err r t ((first # wave) # q) =
     (case take_batch_traced T (hr_max_transfer_size r) first wave (next_packet T t) of
        ((batch, short, rest), t) \<Rightarrow>
          let r = r\<lparr>hr_buffer := extend_buffer (hr_buffer r) batch\<rparr>
          in if hr_max_size r < length (hr_buffer r) then
               ((Ready (Inl oversized), r\<lparr>hr_buffer := []\<rparr>, rest # q), t)
             else if short then
               ((Ready (Inr (Some (hr_buffer r))), r\<lparr>hr_buffer := []\<rparr>, rest # q), dequeued T (length (hr_buffer r)) t)
             else host_recv_traced T closed err r t (rest # q))"
  by pat_completeness auto
termination
proof (relation "measures [\<lambda>(T, closed, err, r, t, q). length (concat q), \<lambda>(T, closed, err, r, t, q). length q]", goal_cases)
  case (3 T closed err r t first wave q x y batch z short rest)
  then have "take_batch (hr_max_transfer_size r) first wave = (batch, short, rest)"
    using take_batch_traced_fst [of T "hr_max_transfer_size r" first wave "next_packet T t"] by (metis fst_conv)
  then show ?case by (auto dest: take_batch_length)
qed auto

section \<open>Tasks of the device\<close>

definition in_task_receive_traced :: "'t tracer_ops \<Rightarrow> in_poll \<Rightarrow> in_state \<times> 't \<Rightarrow> in_state \<times> 't" where
  "in_task_receive_traced T p st =
     (case st of (s, t) \<Rightarrow>
        (case ip_recv p of
           Ready (Inl e) \<Rightarrow> (s\<lparr>in_pc := InDone (Inl e)\<rparr>, t)
         | Ready (Inr (Some data)) \<Rightarrow>
             let s = s\<lparr>in_total := in_total s + of_nat (length data)\<rparr>;
                 t = received_data T (length data) (next_packet T t)
             in (s\<lparr>in_pc := InCheck, in_sent := in_sent s @ [data]\<rparr>, t)
         | Ready (Inr None) \<Rightarrow> (s\<lparr>in_pc := InCheck\<rparr>, t)
         | Pending \<Rightarrow>
             if ip_tx_closed p then (s\<lparr>in_pc := InDone (Inr False)\<rparr>, t)
             else if ip_changed p then (s\<lparr>in_pc := InCheck\<rparr>, t)
             else (s, t)))"

definition in_task_step_traced :: "'t tracer_ops \<Rightarrow> in_poll \<Rightarrow> in_state \<times> 't \<Rightarrow> in_state \<times> 't" where
  "in_task_step_traced T p st =
     (case st of (s, t) \<Rightarrow>
        (case in_pc s of
           InLock \<Rightarrow> (s\<lparr>in_pc := InCheck\<rparr>, t)
         | InCheck \<Rightarrow> (in_task_check p s, t)
         | InReserve \<Rightarrow> (in_task_reserve p s, t)
         | InReceive \<Rightarrow> in_task_receive_traced T p (s, t)
         | InDone r \<Rightarrow> (s, t)))"

text \<open>
  What \<open>out_task\<close> traces before it starts an operation on the endpoint. A part is never
  empty, so an empty transfer is the terminator of a packet.
\<close>

fun trace_op :: "'t tracer_ops \<Rightarrow> ep_op \<Rightarrow> 't \<Rightarrow> 't" where
  "trace_op T (SendTransfer d) t = (if d = [] then send_terminator T t else send_part T (length d) t)"
| "trace_op T Flush t = t"

definition out_task_step_traced :: "'t tracer_ops \<Rightarrow> out_event \<Rightarrow> out_state \<times> 't \<Rightarrow> out_state \<times> 't" where
  "out_task_step_traced T ev st =
     (case st of (s, t) \<Rightarrow>
        (case (out_pc s, ev) of
           (OutLock, Started (Inr mps)) \<Rightarrow> (s\<lparr>out_pc := OutRecv mps\<rparr>, t)
         | (OutLock, Started (Inl e)) \<Rightarrow> (s\<lparr>out_pc := OutDone (Inl e)\<rparr>, t)
         | (OutRecv mps, Received (Some data)) \<Rightarrow>
             let t = sending_data T (length data) (next_packet T t)
             in (case out_packet_ops mps (out_max_transfer_size s) data of
                   None \<Rightarrow> (s\<lparr>out_pc := OutStuck\<rparr>, t)
                 | Some ops \<Rightarrow> (s\<lparr>out_pc := OutBusy mps ops\<rparr>, (case ops of [] \<Rightarrow> t | op # _ \<Rightarrow> trace_op T op t)))
         | (OutRecv mps, Received None) \<Rightarrow> (s\<lparr>out_pc := OutFlush\<rparr>, t)
         | (OutBusy mps (op # ops), OpDone (Inr _)) \<Rightarrow>
             let s = s\<lparr>out_ops := out_ops s @ [op]\<rparr>
             in (case ops of
                   [] \<Rightarrow> (s\<lparr>out_pc := OutRecv mps\<rparr>, data_finished T t)
                 | op # _ \<Rightarrow> (s\<lparr>out_pc := OutBusy mps ops\<rparr>, trace_op T op t))
         | (OutBusy mps (op # ops), OpDone (Inl e)) \<Rightarrow> (s\<lparr>out_pc := OutDone (Inl e)\<rparr>, t)
         | (OutFlush, OpDone r) \<Rightarrow>
             (s\<lparr>out_pc := OutDone r, out_ops := out_ops s @ (case r of Inr _ \<Rightarrow> [Flush] | Inl e \<Rightarrow> [])\<rparr>, t)
         | _ \<Rightarrow> (s, t)))"

section \<open>Tasks of the native host\<close>

text \<open>A task calls \<open>next\<close> whenever it comes to the top of its loop.\<close>

definition host_in_step_traced ::
  "'t tracer_ops \<Rightarrow> host_in_poll \<Rightarrow> host_in_state \<times> 't \<Rightarrow> host_in_state \<times> 't" where
  "host_in_step_traced T p st =
     (case st of (s, t) \<Rightarrow>
        (case hi_pc s of
           HiReceive \<Rightarrow>
             (case hip_complete p of
                Ready cmpl \<Rightarrow>
                  let s = s\<lparr>hi_completed := hi_completed s + 1\<rparr>
                  in (case cp_status cmpl of
                        Some err \<Rightarrow>
                          if err = TrStall then (s\<lparr>hi_pc := HiDone False\<rparr>, t)
                          else (s\<lparr>hi_pc := HiDone False, hi_error := get_or_insert (Transfer err) (hi_error s)\<rparr>, t)
                      | None \<Rightarrow>
                          (s\<lparr>hi_pc := HiForward \<lparr>rp_buffer = cp_buffer cmpl, rp_actual_len = cp_actual_len cmpl,
                                                 rp_is_zero_copy = cp_zero_copy cmpl\<rparr>\<rparr>,
                           received_packet T (cp_actual_len cmpl) t))
              | Pending \<Rightarrow>
                  if hip_tx_closed p then (s\<lparr>hi_pc := HiDone True\<rparr>, t)
                  else if hip_dead p then (s\<lparr>hi_pc := HiDone False\<rparr>, t)
                  else (s, t))
         | HiForward packet \<Rightarrow>
             (case hip_send p of
                Ready True \<Rightarrow>
                  (s\<lparr>hi_pc := HiReceive, hi_submitted := hi_submitted s + 1, hi_sent := hi_sent s @ [packet]\<rparr>,
                   next_packet T t)
              | Ready False \<Rightarrow> (s\<lparr>hi_pc := HiDone True\<rparr>, t)
              | Pending \<Rightarrow> (s, t))
         | HiDone host_initiated \<Rightarrow> (s, t)))"

definition host_out_data_traced ::
  "'t tracer_ops \<Rightarrow> nat \<Rightarrow> host_out_poll \<Rightarrow> host_out_state \<times> 't \<Rightarrow> host_out_state \<times> 't" where
  "host_out_data_traced T mps p st =
     (case st of (s, t) \<Rightarrow>
        if hop_closed p then (s\<lparr>ho_pc := HoDrain False\<rparr>, t)
        else (case hop_data p of
                Pending \<Rightarrow> (s, t)
              | Ready None \<Rightarrow> (s\<lparr>ho_pc := HoDrain True\<rparr>, t)
              | Ready (Some d) \<Rightarrow>
                  let s = s\<lparr>ho_total := ho_total s + of_nat (length d), ho_taken := ho_taken s @ [d]\<rparr>;
                      t = send_part T (length d) (sending_data T (length d) t)
                  in if 0 < length d \<and> mps = 0 then (s\<lparr>ho_pc := HoPanic, ho_pending := ho_pending s @ [d], ho_submitted := ho_submitted s @ [d]\<rparr>, t)
                     else let zlp = 0 < length d \<and> length d mod mps = 0;
                              ts = d # (if zlp then [[]] else []);
                              t = (if zlp then send_terminator T t else t)
                          in (s\<lparr>ho_pc := HoComplete, ho_pending := ho_pending s @ ts,
                                ho_submitted := ho_submitted s @ ts\<rparr>, data_finished T t)))"

definition host_out_step_traced ::
  "'t tracer_ops \<Rightarrow> nat \<Rightarrow> host_out_poll \<Rightarrow> host_out_state \<times> 't \<Rightarrow> host_out_state \<times> 't" where
  "host_out_step_traced T mps p st =
     (case st of (s, t) \<Rightarrow>
        (case ho_pc s of
           HoData \<Rightarrow> host_out_data_traced T mps p (s, t)
         | HoComplete \<Rightarrow>
             if ho_pending s = [] then (s\<lparr>ho_pc := HoData\<rparr>, next_packet T t)
             else (case hop_complete p of
                     Ready cmpl \<Rightarrow> (host_out_completed cmpl s, t)
                   | Pending \<Rightarrow>
                       if DMA_BUFFERS \<le> length (ho_pending s) then (s, t)
                       else (s\<lparr>ho_pc := HoData\<rparr>, next_packet T t))
         | HoDrain host_initiated \<Rightarrow> (host_out_drain host_initiated p s, t)
         | HoDone host_initiated \<Rightarrow> (s, t)
         | HoPanic \<Rightarrow> (s, t)))"

section \<open>Tasks of the web host\<close>

definition web_in_step_traced :: "'t tracer_ops \<Rightarrow> web_in_poll \<Rightarrow> web_in_state \<times> 't \<Rightarrow> web_in_state \<times> 't" where
  "web_in_step_traced T p st =
     (case st of (s, t) \<Rightarrow>
        (case wi_pc s of
           WiReceive \<Rightarrow>
             if wip_tx_closed p then (s\<lparr>wi_pc := WiDone True\<rparr>, t)
             else if wip_dead p then (s\<lparr>wi_pc := WiDone False\<rparr>, t)
             else (case wip_transfer p of
                     Pending \<Rightarrow> (s, t)
                   | Ready (Inr buf) \<Rightarrow> (s\<lparr>wi_pc := WiForward buf\<rparr>, received_packet T (length buf) t)
                   | Ready (Inl e) \<Rightarrow>
                       if web_kind e = WebStall then (s\<lparr>wi_pc := WiDone False\<rparr>, t)
                       else (s\<lparr>wi_pc := WiDone False, wi_error := get_or_insert (WebUsb e) (wi_error s)\<rparr>, t))
         | WiForward buf \<Rightarrow>
             (case wip_send p of
                Ready True \<Rightarrow> (s\<lparr>wi_pc := WiReceive, wi_sent := wi_sent s @ [web_packet buf]\<rparr>, next_packet T t)
              | Ready False \<Rightarrow> (s\<lparr>wi_pc := WiDone True\<rparr>, t)
              | Pending \<Rightarrow> (s, t))
         | WiDone host_initiated \<Rightarrow> (s, t)))"

text \<open>The end of the loop body: \<open>data_finished\<close>, and \<open>next\<close> at the top of the loop.\<close>

definition web_out_step_traced ::
  "'t tracer_ops \<Rightarrow> nat \<Rightarrow> web_out_event \<Rightarrow> web_out_state \<times> 't \<Rightarrow> web_out_state \<times> 't" where
  "web_out_step_traced T mps ev st =
     (case st of (s, t) \<Rightarrow>
        (case (wo_pc s, ev) of
           (WoData, Next closed data) \<Rightarrow>
             if closed then (s\<lparr>wo_pc := WoDone False\<rparr>, t)
             else (case data of
               Pending \<Rightarrow> (s, t)
             | Ready None \<Rightarrow> (s\<lparr>wo_pc := WoDone True\<rparr>, t)
             | Ready (Some d) \<Rightarrow>
                 (s\<lparr>wo_pc := WoSend d, wo_total := wo_total s + of_nat (length d), wo_taken := wo_taken s @ [d]\<rparr>,
                  send_part T (length d) (sending_data T (length d) t)))
         | (WoSend d, Transferred (Inr sent)) \<Rightarrow>
             if sent = length d then
               let s = s\<lparr>wo_sent := wo_sent s @ [d]\<rparr>
               in if d \<noteq> [] \<and> mps = 0 then (s\<lparr>wo_pc := WoPanic\<rparr>, t)
                  else if d \<noteq> [] \<and> length d mod mps = 0 then (s\<lparr>wo_pc := WoTerminate\<rparr>, send_terminator T t)
                  else (s\<lparr>wo_pc := WoData\<rparr>, next_packet T (data_finished T t))
             else (s\<lparr>wo_pc := WoDone False, wo_error := Some (WebPartialSend (length d) sent)\<rparr>, t)
         | (WoSend d, Transferred (Inl e)) \<Rightarrow> (web_out_fail e s, t)
         | (WoTerminate, Transferred (Inr sent)) \<Rightarrow>
             (s\<lparr>wo_pc := WoData, wo_sent := wo_sent s @ [[]]\<rparr>, next_packet T (data_finished T t))
         | (WoTerminate, Transferred (Inl e)) \<Rightarrow> (web_out_fail e s, t)
         | _ \<Rightarrow> (s, t)))"

section \<open>Without the tracer\<close>

text \<open>Every operation that traces does to the channel what it does without tracing.\<close>

named_theorems untraced

lemma dev_send_untraced [untraced]: "fst (dev_send_traced T tx_send err s t data) = dev_send tx_send err s data"
  by (simp add: dev_send_traced_def dev_send_def Let_def)

lemma host_send_untraced [untraced]:
  "fst (host_send_traced T tx_send to_io_err err s t data) = host_send tx_send to_io_err err s data"
  by (simp add: host_send_traced_def host_send_def Let_def)

lemma dev_recv_loop_untraced: "fst (dev_recv_loop_traced T closed err r t q) = dev_recv closed err r q"
  by (induction T closed err r t q rule: dev_recv_loop_traced.induct) (simp_all add: dev_recv.simps(2) Let_def)

lemma dev_recv_untraced [untraced]: "fst (dev_recv_traced T closed err r t q) = dev_recv closed err r q"
  by (simp add: dev_recv_traced_def dev_recv_loop_untraced)

lemma host_recv_untraced [untraced]: "fst (host_recv_traced T closed err r t q) = host_recv closed err r q"
proof (induction T closed err r t q rule: host_recv_traced.induct)
  case (3 T closed err r t first wave q)
  obtain batch short rest t' where b:
    "take_batch_traced T (hr_max_transfer_size r) first wave (next_packet T t) = ((batch, short, rest), t')"
    by (metis prod_cases3 surj_pair)
  then have "take_batch (hr_max_transfer_size r) first wave = (batch, short, rest)"
    using take_batch_traced_fst [of T "hr_max_transfer_size r" first wave "next_packet T t"] by simp
  with b 3 show ?case by (simp add: host_recv.simps(3) Let_def)
qed simp_all

lemma in_task_step_untraced [untraced]: "fst (in_task_step_traced T p (s, t)) = in_task_step p s"
  by (auto simp: in_task_step_traced_def in_task_receive_traced_def in_task_step_defs Let_def
      split: in_pc.splits poll.splits sum.splits option.splits)

lemma out_task_step_untraced [untraced]: "fst (out_task_step_traced T ev (s, t)) = out_task_step ev s"
  by (auto simp: out_task_step_traced_def out_task_step.simps Let_def
      split: out_pc.splits out_event.splits sum.splits option.splits list.splits)

lemma host_in_step_untraced [untraced]: "fst (host_in_step_traced T p (s, t)) = host_in_step p s"
  by (auto simp: host_in_step_traced_def host_in_step_defs Let_def
      split: host_in_pc.splits poll.splits option.splits bool.splits)

lemma host_out_step_untraced [untraced]: "fst (host_out_step_traced T mps p (s, t)) = host_out_step mps p s"
  by (auto simp: host_out_step_traced_def host_out_data_traced_def host_out_step_def host_out_data_def
      host_out_complete_def host_out_transfers_def Let_def
      split: host_out_pc.splits poll.splits option.splits)

lemma web_in_step_untraced [untraced]: "fst (web_in_step_traced T p (s, t)) = web_in_step p s"
  by (auto simp: web_in_step_traced_def web_in_step_def web_in_receive_def
      split: web_in_pc.splits poll.splits sum.splits bool.splits)

lemma web_out_step_untraced [untraced]: "fst (web_out_step_traced T mps ev (s, t)) = web_out_step mps ev s"
  by (auto simp: web_out_step_traced_def web_out_step_def Let_def
      split: web_out_pc.splits web_out_event.splits poll.splits sum.splits option.splits)

text \<open>The same for whole runs of a task: a step function beside the one that also traces.\<close>

locale traced_task =
  fixes traced :: "'e \<Rightarrow> 's \<times> 't \<Rightarrow> 's \<times> 't"
    and step :: "'e \<Rightarrow> 's \<Rightarrow> 's"
  assumes step_untraced: "fst (traced ev (s, t)) = step ev s"
begin

lemma run_untraced: "fst (fold traced evs (s, t)) = fold step evs s"
proof (induction evs arbitrary: s t)
  case (Cons ev evs)
  obtain s' t' where "traced ev (s, t) = (s', t')" by fastforce
  then show ?case using Cons.IH step_untraced [of ev s t] by simp
qed simp

end

interpretation out_traced: traced_task "out_task_step_traced T" out_task_step for T
  by unfold_locales (rule out_task_step_untraced)

interpretation in_traced: traced_task "in_task_step_traced T" in_task_step for T
  by unfold_locales (rule in_task_step_untraced)

interpretation host_out_traced: traced_task "host_out_step_traced T mps" "host_out_step mps" for T mps
  by unfold_locales (rule host_out_step_untraced)

interpretation host_in_traced: traced_task "host_in_step_traced T" host_in_step for T
  by unfold_locales (rule host_in_step_untraced)

interpretation web_out_traced: traced_task "web_out_step_traced T mps" "web_out_step mps" for T mps
  by unfold_locales (rule web_out_step_untraced)

interpretation web_in_traced: traced_task "web_in_step_traced T" web_in_step for T
  by unfold_locales (rule web_in_step_untraced)

lemmas runs_untraced =
  out_traced.run_untraced in_traced.run_untraced host_out_traced.run_untraced host_in_traced.run_untraced
  web_out_traced.run_untraced web_in_traced.run_untraced

section \<open>What the trace says\<close>

text \<open>The messages of packets numbered from \<open>k\<close>, each in its span, and the lengths of the transfers in a trace.\<close>

definition packet_trace :: "span \<Rightarrow> ('a \<Rightarrow> trace_message list) \<Rightarrow> nat \<Rightarrow> 'a list \<Rightarrow> trace_event list" where
  "packet_trace span f k xs =
     concat (map (\<lambda>(i, x). map (Pair (Data span (of_nat i))) (f x)) (enumerate k xs))"

fun wire_length :: "trace_message \<Rightarrow> nat list" where
  "wire_length (SentPart n) = [n]"
| "wire_length SentTerminator = [0]"
| "wire_length _ = []"

definition wire_lengths :: "trace_event list \<Rightarrow> nat list" where
  "wire_lengths log = concat (map (wire_length \<circ> snd) log)"

lemma packet_trace_simps [simp]:
  "packet_trace span f k [] = []"
  "packet_trace span f k (x # xs) = map (Pair (Data span (of_nat k))) (f x) @ packet_trace span f (Suc k) xs"
  "packet_trace span f k (xs @ ys) = packet_trace span f k xs @ packet_trace span f (k + length xs) ys"
  by (simp_all add: packet_trace_def enumerate_append_eq add.commute)

lemma wire_lengths_simps [simp]:
  "wire_lengths [] = []" "wire_lengths ((sp, m) # log) = wire_length m @ wire_lengths log"
  "wire_lengths (log @ log') = wire_lengths log @ wire_lengths log'"
  "wire_lengths (map (Pair sp) ms) = concat (map wire_length ms)"
  by (simp_all add: wire_lengths_def comp_def)

lemma wire_lengths_packets:
  "(\<And>x. concat (map wire_length (f x)) = map length (g x)) \<Longrightarrow>
     wire_lengths (packet_trace span f k xs) = map length (concat (map g xs))"
  by (induction xs arbitrary: k) simp_all

lemma recording_tracer_simps [simp]:
  "next_packet recording_tracer = tracer_next" "enqueued recording_tracer = tracer_enqueued"
  "received_data recording_tracer = tracer_event \<circ> ReceivedData"
  "dequeued_part recording_tracer = tracer_event \<circ> DequeuedPart"
  "dequeing recording_tracer = tracer_event Dequeing" "dequeued recording_tracer = tracer_event \<circ> Dequeued"
  "sending_data recording_tracer = tracer_event \<circ> SendingData" "send_part recording_tracer = tracer_event \<circ> SentPart"
  "send_terminator recording_tracer = tracer_event SentTerminator"
  "data_finished recording_tracer = tracer_event SendingFinished"
  "received_packet recording_tracer = tracer_received_packet"
  by (simp_all add: recording_tracer_def tracer_defs fun_eq_iff)

text \<open>\<open>out_task\<close> of the native host.\<close>

definition host_out_messages :: "nat \<Rightarrow> bytes \<Rightarrow> trace_message list" where
  "host_out_messages mps d =
     [SendingData (length d), SentPart (length d)]
     @ (if 0 < length d \<and> length d mod mps = 0 then [SentTerminator] else []) @ [SendingFinished]"

definition host_out_trace_inv :: "nat \<Rightarrow> span \<Rightarrow> host_out_state \<times> tracer \<Rightarrow> bool" where
  "host_out_trace_inv mps span st \<longleftrightarrow>
     (\<exists>n. snd st = tracer_at span n (packet_trace span (host_out_messages mps) 0 (ho_taken (fst st)))
        \<and> (ho_pc (fst st) = HoData \<longrightarrow> n = Suc (length (ho_taken (fst st))))
        \<and> (ho_pc (fst st) = HoComplete \<longrightarrow> n = length (ho_taken (fst st))))"

lemma host_out_data_trace:
  assumes "0 < mps" and "host_out_trace_inv mps span (s, t)" and "ho_pc s = HoData"
  shows "host_out_trace_inv mps span (host_out_data_traced recording_tracer mps p (s, t))"
proof (cases "\<not> hop_closed p \<and> (\<exists>d. hop_data p = Ready (Some d))")
  case True
  then obtain d where "\<not> hop_closed p" "hop_data p = Ready (Some d)" by blast
  then show ?thesis
    using assms by (simp add: host_out_trace_inv_def host_out_data_traced_def host_out_messages_def Let_def)
next
  case False
  then show ?thesis
    using assms by (auto simp: host_out_trace_inv_def host_out_data_traced_def split: poll.splits option.splits)
qed

lemma host_out_completed_frame:
  "ho_taken (host_out_completed c s) = ho_taken s"
  "ho_pc (host_out_completed c s) \<in> {HoData, HoComplete} \<Longrightarrow> ho_pc (host_out_completed c s) = ho_pc s"
  by (auto simp: host_out_completed_def Let_def split: prod.splits option.splits if_splits)

lemma host_out_drain_frame:
  "ho_taken (host_out_drain b p s) = ho_taken s"
  "ho_pc (host_out_drain b p s) \<in> {HoData, HoComplete} \<Longrightarrow> ho_pc (host_out_drain b p s) = ho_pc s"
  by (auto simp: host_out_drain_def Let_def split: poll.splits prod.splits option.splits if_splits)

lemma host_out_trace_frame:
  "host_out_trace_inv mps span (s, t) \<Longrightarrow> ho_taken s' = ho_taken s \<Longrightarrow>
     (ho_pc s' \<in> {HoData, HoComplete} \<Longrightarrow> ho_pc s' = ho_pc s) \<Longrightarrow> host_out_trace_inv mps span (s', t)"
  unfolding host_out_trace_inv_def by auto

lemma host_out_step_trace:
  assumes "0 < mps" and "host_out_trace_inv mps span st"
  shows "host_out_trace_inv mps span (host_out_step_traced recording_tracer mps p st)"
proof (cases st)
  case (Pair s t)
  show ?thesis
  proof (cases "ho_pc s")
    case HoData
    then show ?thesis using host_out_data_trace [OF assms(1)] assms(2) by (simp add: host_out_step_traced_def Pair)
  next
    case HoComplete
    have "host_out_trace_inv mps span (host_out_completed c s, t)" for c
      using assms(2) host_out_trace_frame [OF _ host_out_completed_frame] unfolding Pair by blast
    with HoComplete show ?thesis
      using assms(2) by (auto simp: host_out_step_traced_def host_out_trace_inv_def Pair split: poll.splits)
  next
    case (HoDrain b)
    have "host_out_trace_inv mps span (host_out_drain b p s, t)"
      using assms(2) host_out_trace_frame [OF _ host_out_drain_frame] unfolding Pair by blast
    with HoDrain show ?thesis by (simp add: host_out_step_traced_def Pair)
  qed (use assms(2) in \<open>simp_all add: host_out_step_traced_def Pair\<close>)
qed

interpretation host_out_trace: invariant_run "host_out_step_traced recording_tracer (Suc k)"
    "host_out_trace_inv (Suc k) span" "(host_out_init, tracer_next (tracer_new span))" for k span
proof unfold_locales
  show "host_out_trace_inv (Suc k) span (host_out_init, tracer_next (tracer_new span))"
    by (simp add: host_out_trace_inv_def tracer_new_at host_out_init_def)
qed (simp add: host_out_step_trace)

text \<open>
  \<open>out_task\<close> of the device: the trace has the transfers among the operations done, and that
  of the operation that has been started.
\<close>

definition out_current :: "out_pc \<Rightarrow> ep_op list" where
  "out_current pc = (case pc of OutBusy mps (op # _) \<Rightarrow> [op] | _ \<Rightarrow> [])"

definition out_lengths :: "ep_op list \<Rightarrow> nat list" where
  "out_lengths ops = map length (concat (map op_transfer ops))"

definition out_trace_inv :: "out_state \<times> tracer \<Rightarrow> bool" where
  "out_trace_inv st \<longleftrightarrow>
     (\<exists>failed. wire_lengths (tr_log (snd st)) = out_lengths (out_ops (fst st)) @ out_lengths (out_current (out_pc (fst st))) @ out_lengths failed
        \<and> length failed \<le> 1 \<and> (failed \<noteq> [] \<longrightarrow> (\<exists>e. out_pc (fst st) = OutDone (Inl e))))"

lemma wire_lengths_event [simp]:
  "wire_lengths (tr_log (tracer_event m t)) = wire_lengths (tr_log t) @ wire_length m"
  "wire_lengths (tr_log (tracer_next t)) = wire_lengths (tr_log t)"
  "wire_lengths (tr_log (tracer_new span)) = []"
  by (simp_all add: tracer_event_def tracer_next_def tracer_new_def Let_def)

lemma wire_lengths_op [simp]:
  "wire_lengths (tr_log (trace_op recording_tracer op t)) = wire_lengths (tr_log t) @ out_lengths [op]"
  by (cases op) (simp_all add: out_lengths_def)

lemma out_lengths_simps [simp]:
  "out_lengths [] = []"
  "out_lengths (ops @ ops') = out_lengths ops @ out_lengths ops'" "out_lengths [Flush] = []"
  by (simp_all add: out_lengths_def)

lemma out_traceI:
  "wire_lengths (tr_log t) = out_lengths (out_ops s) @ out_lengths (out_current (out_pc s)) \<Longrightarrow> out_trace_inv (s, t)"
  by (auto simp: out_trace_inv_def intro: exI [of _ "[]"])

lemma out_traceD:
  "out_trace_inv (s, t) \<Longrightarrow> (\<And>e. out_pc s \<noteq> OutDone (Inl e)) \<Longrightarrow>
     wire_lengths (tr_log t) = out_lengths (out_ops s) @ out_lengths (out_current (out_pc s))"
  by (auto simp: out_trace_inv_def)

lemma out_step_trace:
  assumes "out_trace_inv st"
  shows "out_trace_inv (out_task_step_traced recording_tracer ev st)"
proof (cases st)
  case (Pair s t)
  note inv = assms [unfolded Pair]
  note step = out_task_step_traced_def Pair Let_def
  show ?thesis
  proof (cases "out_pc s")
    case OutLock
    then show ?thesis
      using out_traceD [OF inv] inv
      by (auto simp: step out_current_def intro!: out_traceI split: out_event.splits sum.splits)
  next
    case (OutRecv mps)
    then show ?thesis
      using out_traceD [OF inv] inv
      by (auto simp: step out_current_def intro!: out_traceI split: out_event.splits option.splits list.splits)
  next
    case (OutBusy mps ops)
    show ?thesis
    proof (cases ops)
      case Nil
      with OutBusy inv show ?thesis by (simp add: step split: out_event.splits)
    next
      case (Cons op rest)
      have w: "wire_lengths (tr_log t) = out_lengths (out_ops s) @ out_lengths [op]"
        using out_traceD [OF inv] by (simp add: OutBusy Cons out_current_def)
      have "out_trace_inv (s\<lparr>out_pc := OutDone (Inl e)\<rparr>, t)" for e
        using w by (auto simp: out_trace_inv_def out_current_def intro!: exI [of _ "[op]"])
      then show ?thesis
        using w inv
        by (auto simp: step OutBusy Cons out_current_def intro!: out_traceI split: out_event.splits sum.splits list.splits)
    qed
  next
    case OutFlush
    then show ?thesis
      using out_traceD [OF inv] inv
      by (auto simp: step out_current_def intro!: out_traceI split: out_event.splits sum.splits)
  qed (use inv in \<open>simp_all add: step split: out_event.splits\<close>)
qed

interpretation out_trace: invariant_run "out_task_step_traced recording_tracer" out_trace_inv
    "(out_task_init n, tracer_new span)" for n span
proof unfold_locales
  show "out_trace_inv (out_task_init n, tracer_new span)"
    by (rule out_traceI) (simp add: out_task_init_def out_current_def)
qed (rule out_step_trace)

text \<open>\<open>in_task\<close> of the device: one message for every transfer that it has forwarded, numbered by transfer.\<close>

definition in_trace_inv :: "span \<Rightarrow> in_state \<times> tracer \<Rightarrow> bool" where
  "in_trace_inv span st \<longleftrightarrow>
     snd st = tracer_at span (length (in_sent (fst st)))
       (packet_trace span (\<lambda>d. [ReceivedData (length d)]) 0 (in_sent (fst st)))"

lemma in_step_trace: "in_trace_inv span st \<Longrightarrow> in_trace_inv span (in_task_step_traced recording_tracer p st)"
  by (cases st)
    (auto simp: in_trace_inv_def in_task_step_traced_def in_task_receive_traced_def in_task_check_def
      in_task_reserve_def Let_def split: in_pc.splits poll.splits sum.splits option.splits bool.splits)

interpretation in_trace: invariant_run "in_task_step_traced recording_tracer" "in_trace_inv span"
    "(in_task_init, tracer_new span)" for span
  by unfold_locales (simp_all add: in_step_trace, simp add: in_trace_inv_def tracer_new_at in_task_init_def)

text \<open>A sender numbers the packets that it accepts.\<close>

lemma host_send_trace:
  assumes "tr_seq t = of_nat k"
  shows "fold (\<lambda>m t. snd (host_send_traced recording_tracer (tx m) to_io_err err s t m)) ms t
       = t\<lparr>tr_seq := of_nat (k + length (filter (\<lambda>m. length m \<le> hs_max_size s) ms)),
           tr_log := tr_log t @ packet_trace (tr_span t) (\<lambda>m. [EnqueuedForSending (length m)]) k
             (filter (\<lambda>m. length m \<le> hs_max_size s) ms)\<rparr>"
  using assms
proof (induction ms arbitrary: k t)
  case (Cons m ms)
  let ?t = "snd (host_send_traced recording_tracer (tx m) to_io_err err s t m)"
  show ?case
  proof (cases "length m \<le> hs_max_size s")
    case True
    then have t: "?t = t\<lparr>tr_seq := of_nat (Suc k),
        tr_log := tr_log t @ [(Data (tr_span t) (of_nat k), EnqueuedForSending (length m))]\<rparr>"
      using Cons.prems by (simp add: host_send_traced_def tracer_enqueued_def Let_def)
    then have "tr_seq ?t = of_nat (Suc k)" by simp
    from Cons.IH [OF this] True t show ?thesis by simp
  next
    case False
    then have "?t = t" by (simp add: host_send_traced_def)
    with Cons False show ?thesis by simp
  qed
qed (simp add: packet_trace_def)

section \<open>Properties of tracing\<close>

text \<open>
  The channel does not depend on the tracer: with any two tracers, in particular in both
  builds, the runs of the tasks of device and host go through the same states, and the calls
  of the application have the same results.
\<close>

theorem tracing_transparent:
  "fst (fold (out_task_step_traced T) oevs (os, t)) = fst (fold (out_task_step_traced T') oevs (os, t'))
   \<and> fst (fold (in_task_step_traced T) ips (is, t)) = fst (fold (in_task_step_traced T') ips (is, t'))
   \<and> fst (fold (host_out_step_traced T mps) hops (hs, t)) = fst (fold (host_out_step_traced T' mps) hops (hs, t'))
   \<and> fst (fold (host_in_step_traced T) hips (his, t)) = fst (fold (host_in_step_traced T') hips (his, t'))
   \<and> fst (fold (web_out_step_traced T mps) wevs (wos, t)) = fst (fold (web_out_step_traced T' mps) wevs (wos, t'))
   \<and> fst (fold (web_in_step_traced T) wips (wis, t)) = fst (fold (web_in_step_traced T') wips (wis, t'))
   \<and> fst (dev_recv_traced T closed err r t q) = fst (dev_recv_traced T' closed err r t' q)
   \<and> fst (host_recv_traced T closed herr hr t hq) = fst (host_recv_traced T' closed herr hr t' hq)
   \<and> fst (dev_send_traced T tx err ds t m) = fst (dev_send_traced T' tx err ds t' m)
   \<and> fst (host_send_traced T tx to_io_err nerr sender t m) = fst (host_send_traced T' tx to_io_err nerr sender t' m)"
  by (simp only: untraced runs_untraced)

text \<open>
  C29. The trace agrees with the wire. On a native host, under any events, the messages of
  \<open>out_task\<close> are those of the packets taken, numbered in order, the lengths of its parts and
  terminators are those of the transfers submitted, and a packet has the number under which
  the sender traced it. On a device, the lengths traced by \<open>out_task\<close> are those of the
  transfers sent, and at most one that was started, and \<open>in_task\<close> numbers the transfers that
  it forwards.
\<close>

theorem trace_shows_wire:
  assumes "0 < mps"
    and "st = fold (host_out_step_traced recording_tracer mps) hops
           (host_out_init, next_packet recording_tracer (host_out recording_tracer name))"
    and "enq = fold (\<lambda>m t. snd (host_send_traced recording_tracer (tx m) to_io_err err sender t m)) ms
           (host_enqueue recording_tracer name)"
    and "dst = fold (out_task_step_traced recording_tracer) oevs (out_task_init n, device_out recording_tracer)"
    and "ist = fold (in_task_step_traced recording_tracer) ips (in_task_init, device_in recording_tracer)"
  shows "tr_log (snd st) = packet_trace (Named ''host_out'' (Some name)) (host_out_messages mps) 0 (ho_taken (fst st))
    \<and> wire_lengths (tr_log (snd st)) = map length (ho_submitted (fst st))
    \<and> tr_log enq = packet_trace (Named ''host_enqueue'' (Some name)) (\<lambda>m. [EnqueuedForSending (length m)]) 0
        (filter (\<lambda>m. length m \<le> hs_max_size sender) ms)
    \<and> (\<exists>op. wire_lengths (tr_log (snd dst)) = out_lengths (out_ops (fst dst)) @ out_lengths op \<and> length op \<le> 1
         \<and> (\<forall>k. out_pc (fst dst) = OutRecv k \<longrightarrow> op = []))
    \<and> tr_log (snd ist) = packet_trace (Named ''device_in'' None) (\<lambda>d. [ReceivedData (length d)]) 0 (in_sent (fst ist))"
proof (intro conjI)
  let ?span = "Named ''host_out'' (Some name)"
  obtain k where k: "mps = Suc k" using assms(1) gr0_implies_Suc by blast
  have new: "host_out recording_tracer name = tracer_new ?span"
    "host_enqueue recording_tracer name = tracer_new (Named ''host_enqueue'' (Some name))"
    "device_out recording_tracer = tracer_new (Named ''device_out'' None)"
    "device_in recording_tracer = tracer_new (Named ''device_in'' None)"
    by (simp_all add: recording_tracer_def)
  have "host_out_trace_inv mps ?span st"
    unfolding assms(2) k new recording_tracer_simps by (rule host_out_trace.reachable_inv)
  then show log: "tr_log (snd st) = packet_trace ?span (host_out_messages mps) 0 (ho_taken (fst st))"
    by (auto simp: host_out_trace_inv_def)
  have "host_out_inv mps (fst st)"
    unfolding assms(2) k by (simp only: runs_untraced host_out.reachable_inv)
  then have "ho_submitted (fst st) = concat (map (host_out_transfers mps) (ho_taken (fst st)))"
    by (simp add: host_out_inv_def)
  then show "wire_lengths (tr_log (snd st)) = map length (ho_submitted (fst st))"
    unfolding log by (simp only:) (rule wire_lengths_packets, simp add: host_out_messages_def host_out_transfers_def)
  show "tr_log enq = packet_trace (Named ''host_enqueue'' (Some name)) (\<lambda>m. [EnqueuedForSending (length m)]) 0
      (filter (\<lambda>m. length m \<le> hs_max_size sender) ms)"
    unfolding assms(3) new by (subst host_send_trace [where k = 0]) (simp_all add: tracer_new_def)
  have "out_trace_inv dst" unfolding assms(4) new by (rule out_trace.reachable_inv)
  then obtain failed where f: "wire_lengths (tr_log (snd dst))
      = out_lengths (out_ops (fst dst)) @ out_lengths (out_current (out_pc (fst dst)) @ failed)"
    "length failed \<le> 1" "failed \<noteq> [] \<longrightarrow> (\<exists>e. out_pc (fst dst) = OutDone (Inl e))"
    by (auto simp: out_trace_inv_def)
  moreover have "length (out_current (out_pc (fst dst)) @ failed) \<le> 1"
    using f(2,3) by (cases "failed = []") (auto simp: out_current_def split: out_pc.splits list.splits)
  moreover have "\<forall>k. out_pc (fst dst) = OutRecv k \<longrightarrow> out_current (out_pc (fst dst)) @ failed = []"
    using f(3) by (auto simp: out_current_def)
  ultimately show "\<exists>op. wire_lengths (tr_log (snd dst)) = out_lengths (out_ops (fst dst)) @ out_lengths op
      \<and> length op \<le> 1 \<and> (\<forall>k. out_pc (fst dst) = OutRecv k \<longrightarrow> op = [])"
    by blast
  have "in_trace_inv (Named ''device_in'' None) ist" unfolding assms(5) new by (rule in_trace.reachable_inv)
  then show "tr_log (snd ist)
      = packet_trace (Named ''device_in'' None) (\<lambda>d. [ReceivedData (length d)]) 0 (in_sent (fst ist))"
    by (simp add: in_trace_inv_def)
qed

theorem trace_shows_wire_witness:
  "wire_lengths (tr_log (snd (fold (host_out_step_traced recording_tracer 2) [out_packet [1, 2]]
     (host_out_init, next_packet recording_tracer (host_out recording_tracer ''dev''))))) = [2, 0]"
proof -
  let ?st = "fold (host_out_step_traced recording_tracer 2) [out_packet [1, 2]]
     (host_out_init, next_packet recording_tracer (host_out recording_tracer ''dev''))"
  have "wire_lengths (tr_log (snd ?st)) = map length (ho_submitted (fst ?st))"
    by (rule trace_shows_wire [OF _ refl refl refl refl, THEN conjunct2, THEN conjunct1]) simp
  then show ?thesis
    by (simp add: host_out_step_traced_def host_out_data_traced_def host_out_init_def out_packet_def Let_def)
qed

text \<open>
  A call of \<open>recv\<close> of the device traces, in the span of its own number, the transfers of the
  packet that it returns.
\<close>

lemma dev_recv_loop_trace:
  assumes "0 < n" and "dr_max_transfer_size r = n" and "length (dr_buffer r @ m) \<le> dr_max_size r"
  shows "snd (dev_recv_loop_traced recording_tracer closed err r (tracer_at span (Suc k) log) (transfers n m @ ts))
       = tracer_at span (Suc k) (log @ map (Pair (Data span (of_nat k)))
           (map (DequeuedPart \<circ> length) (transfers n m) @ [Dequeued (length (dr_buffer r @ m))]))"
  using assms
proof (induction m arbitrary: r log rule: transfers_induct)
  case (short m)
  then show ?case by (simp add: Let_def)
next
  case (full m)
  then show ?case
    using full.IH [of "r\<lparr>dr_buffer := dr_buffer r @ take n m\<rparr>"] by (simp add: transfers_full Let_def)
qed

theorem dev_recv_trace:
  assumes "dev_ready n L r" and "length m \<le> L"
  shows "snd (dev_recv_traced recording_tracer closed err r (tracer_at span k log) (transfers n m @ ts))
       = tracer_at span (Suc k) (log @ packet_trace span
           (\<lambda>m. Dequeing # map (DequeuedPart \<circ> length) (transfers n m) @ [Dequeued (length m)]) k [m])"
  using assms dev_recv_loop_trace [of n r m]
  by (simp add: dev_recv_traced_def dev_ready_def)

text \<open>
  The host numbers batches, not packets: a call of \<open>recv\<close> counts once for every batch that
  it drains, so the number of a packet depends on how its transfers were queued.
\<close>

theorem host_recv_numbers_batches:
  "\<exists>r p q. host_ready 2 3 r
     \<and> fst (host_recv_traced recording_tracer False None r t [[p, q]]) = (Ready (Inr (Some [1, 2, 3])), r, [[]])
     \<and> fst (host_recv_traced recording_tracer False None r t [[p], [q]]) = (Ready (Inr (Some [1, 2, 3])), r, [[]])
     \<and> tr_seq (snd (host_recv_traced recording_tracer False None r t [[p, q]])) = tr_seq t + 1
     \<and> tr_seq (snd (host_recv_traced recording_tracer False None r t [[p], [q]])) = tr_seq t + 2"
  by (rule exI [of _ "\<lparr>hr_buffer = [], hr_max_size = 3, hr_max_transfer_size = 2\<rparr>"],
      rule exI [of _ "\<lparr>rp_buffer = [1, 2], rp_actual_len = 2, rp_is_zero_copy = False\<rparr>"],
      rule exI [of _ "\<lparr>rp_buffer = [3], rp_actual_len = 1, rp_is_zero_copy = False\<rparr>"])
    (simp add: host_ready_def rp_data_def extend_buffer_def take_batch_traced_def Let_def
      recording_tracer_def tracer_defs)

end
