(* ===== verification/Host_Buffers.thy ===== *)
theory Host_Buffers
  imports Host_Native_Tasks "HOL-Library.Multiset"
begin

text \<open>
  The receive buffers of the native host (\<open>src/host/native.rs\<close>): \<open>in_task\<close> posts buffers that
  it allocates or takes from the channel of returned ones, a received packet owns its buffer
  on the way to the application, and dropping the packet returns it. Buffers are numbered in
  the order of their allocation.
\<close>

section \<open>Buffers on their way\<close>

record in_buffers =
  ib_allocated :: nat
  ib_posted :: "nat list"
  ib_packet :: "nat list"
  ib_queue :: "(nat \<times> recv_packet) list"
  ib_returned :: "nat list"
  ib_adopted :: "nat list"
  ib_freed :: "nat list"

text \<open>The top of the loop: a returned buffer is reused, otherwise one is allocated, and it is posted.\<close>

definition post_buffer :: "in_buffers \<Rightarrow> in_buffers" where
  "post_buffer b =
     (case ib_returned b of
        x # xs \<Rightarrow> b\<lparr>ib_returned := xs, ib_posted := ib_posted b @ [x]\<rparr>
      | [] \<Rightarrow> b\<lparr>ib_allocated := ib_allocated b + 1, ib_posted := ib_posted b @ [ib_allocated b]\<rparr>)"

definition buffers_init :: in_buffers where
  "buffers_init =
     post_buffer \<lparr>ib_allocated = DMA_BUFFERS, ib_posted = [0..<DMA_BUFFERS], ib_packet = [], ib_queue = [],
       ib_returned = [], ib_adopted = [], ib_freed = []\<rparr>"

text \<open>
  The drop of packets: their buffers go to the channel of returned ones. When the loop of
  \<open>in_task\<close> has ended nothing takes them from there, and they are freed with that channel, or
  at once when the task has already dropped it; both count as freed.
\<close>

definition drop_packets :: "bool \<Rightarrow> nat list \<Rightarrow> in_buffers \<Rightarrow> in_buffers" where
  "drop_packets ended xs b =
     (if ended then b\<lparr>ib_freed := ib_freed b @ xs\<rparr> else b\<lparr>ib_returned := ib_returned b @ xs\<rparr>)"

text \<open>The end of \<open>in_task\<close> drops the endpoint with its posted buffers and the returned ones.\<close>

definition end_buffers :: "in_buffers \<Rightarrow> in_buffers" where
  "end_buffers b =
     b\<lparr>ib_posted := [], ib_packet := [], ib_returned := [],
       ib_freed := ib_freed b @ ib_posted b @ ib_packet b @ ib_returned b\<rparr>"

definition hi_stopped :: "host_in_state \<Rightarrow> bool" where
  "hi_stopped s \<longleftrightarrow> (\<exists>r. hi_pc s = HiDone r)"

text \<open>
  A turn of \<open>in_task\<close>. The queue has room for \<open>QUEUE_LEN\<close> packets; sending fails when the
  receiver is gone.
\<close>

definition in_buffers_step :: "host_in_poll \<Rightarrow> host_in_state \<times> in_buffers \<Rightarrow> host_in_state \<times> in_buffers" where
  "in_buffers_step p sb =
     (case sb of (s, b) \<Rightarrow>
        let p = p\<lparr>hip_send := (if hip_tx_closed p then Ready False
                              else if length (ib_queue b) < QUEUE_LEN then Ready True else Pending)\<rparr>;
            t = host_in_step p s
        in (t, (case (hi_pc s, hi_pc t) of
                  (HiReceive, HiForward packet) \<Rightarrow>
                    b\<lparr>ib_posted := tl (ib_posted b), ib_packet := [hd (ib_posted b)]\<rparr>
                | (HiForward packet, HiReceive) \<Rightarrow>
                    post_buffer (b\<lparr>ib_packet := [], ib_queue := ib_queue b @ map (\<lambda>x. (x, packet)) (ib_packet b)\<rparr>)
                | (HiDone r, _) \<Rightarrow> b
                | (_, HiDone r) \<Rightarrow> end_buffers b
                | _ \<Rightarrow> b)))"

text \<open>
  A batch of the receiver: the packets that it drains from the queue are copied and dropped,
  except that an empty receive buffer adopts the first one unless that is a DMA buffer.
\<close>

definition recv_batch :: "nat \<Rightarrow> bool \<Rightarrow> bool \<Rightarrow> in_buffers \<Rightarrow> in_buffers" where
  "recv_batch max_transfer_size buffer_empty ended b =
     (case drain max_transfer_size (map snd (ib_queue b)) of (batch, short, rest) \<Rightarrow>
        let xs = map fst (take (length batch) (ib_queue b));
            b = b\<lparr>ib_queue := drop (length batch) (ib_queue b)\<rparr>
        in (case batch of
              [] \<Rightarrow> b
            | packet # packets \<Rightarrow>
                if buffer_empty \<and> \<not> rp_is_zero_copy packet
                then drop_packets ended (tl xs) (b\<lparr>ib_adopted := ib_adopted b @ [hd xs]\<rparr>)
                else drop_packets ended xs b))"

text \<open>Dropping the receiver drops the packets in its queue.\<close>

datatype buffer_event = InTurn host_in_poll | RecvBatch bool | ReceiverDropped

definition buffers_step :: "nat \<Rightarrow> buffer_event \<Rightarrow> host_in_state \<times> in_buffers \<Rightarrow> host_in_state \<times> in_buffers" where
  "buffers_step max_transfer_size ev sb =
     (case ev of
        InTurn p \<Rightarrow> in_buffers_step p sb
      | RecvBatch buffer_empty \<Rightarrow>
          (fst sb, recv_batch max_transfer_size buffer_empty (hi_stopped (fst sb)) (snd sb))
      | ReceiverDropped \<Rightarrow>
          (fst sb, drop_packets (hi_stopped (fst sb)) (map fst (ib_queue (snd sb))) ((snd sb)\<lparr>ib_queue := []\<rparr>)))"

section \<open>Every buffer is at one place\<close>

text \<open>The buffers that are in use, and all.\<close>

definition live_buffers :: "in_buffers \<Rightarrow> nat list" where
  "live_buffers b = ib_posted b @ ib_packet b @ map fst (ib_queue b) @ ib_returned b"

definition all_buffers :: "in_buffers \<Rightarrow> nat list" where
  "all_buffers b = live_buffers b @ ib_adopted b @ ib_freed b"

definition numbered :: "nat \<Rightarrow> nat multiset" where
  "numbered n = mset [0..<n]"

lemma numbered_Suc [simp]: "numbered (Suc n) = add_mset n (numbered n)"
  by (simp add: numbered_def del: mset_upt)

lemma size_numbered [simp]: "size (numbered n) = n"
  by (simp add: numbered_def del: mset_upt)

text \<open>
  The invariant: every buffer allocated is at exactly one place; outside of a send the loop
  keeps \<open>DMA_BUFFERS + 1\<close> buffers posted.
\<close>

definition buffers_inv :: "host_in_state \<times> in_buffers \<Rightarrow> bool" where
  "buffers_inv sb \<longleftrightarrow>
     (case sb of (s, b) \<Rightarrow>
        mset (all_buffers b) = numbered (ib_allocated b)
        \<and> length (ib_queue b) \<le> QUEUE_LEN
        \<and> length (live_buffers b) \<le> DMA_BUFFERS + QUEUE_LEN + 1
        \<and> ib_allocated b \<le> DMA_BUFFERS + QUEUE_LEN + 1 + length (ib_adopted b)
        \<and> (\<not> hi_stopped s \<longrightarrow> ib_freed b = [])
        \<and> (hi_pc s = HiReceive \<longrightarrow> length (ib_posted b) = DMA_BUFFERS + 1 \<and> ib_packet b = [])
        \<and> (\<forall>p. hi_pc s = HiForward p \<longrightarrow> length (ib_posted b) = DMA_BUFFERS \<and> length (ib_packet b) = 1))"

lemmas buffer_defs = all_buffers_def live_buffers_def

lemma drain_takes: "drain n ps = (batch, short, rest) \<Longrightarrow> batch = take (length batch) ps"
  by (induction ps arbitrary: batch) (auto split: if_splits prod.splits)

lemma post_buffer_all:
  "mset (all_buffers b) = numbered (ib_allocated b) \<Longrightarrow>
     mset (all_buffers (post_buffer b)) = numbered (ib_allocated (post_buffer b))"
  by (cases "ib_returned b") (auto simp: post_buffer_def buffer_defs)

lemma post_buffer_frame [simp]:
  "ib_queue (post_buffer b) = ib_queue b" "ib_packet (post_buffer b) = ib_packet b"
  "ib_adopted (post_buffer b) = ib_adopted b" "ib_freed (post_buffer b) = ib_freed b"
  "length (ib_posted (post_buffer b)) = length (ib_posted b) + 1"
  by (simp_all add: post_buffer_def split: list.split)

lemma post_buffer_live:
  "length (live_buffers (post_buffer b))
     = (if ib_returned b = [] then length (live_buffers b) + 1 else length (live_buffers b))"
  by (simp add: post_buffer_def live_buffers_def split: list.split)

lemma end_buffers_all: "mset (all_buffers (end_buffers b)) = mset (all_buffers b)"
  by (simp add: end_buffers_def buffer_defs)

lemma hi_stopped_pc:
  "hi_pc s = HiDone r \<Longrightarrow> hi_stopped s" "hi_pc s = HiReceive \<Longrightarrow> \<not> hi_stopped s"
  "hi_pc s = HiForward p \<Longrightarrow> \<not> hi_stopped s"
  by (simp_all add: hi_stopped_def)

lemma buffers_init_inv: "buffers_inv (host_in_init, buffers_init)"
  by (simp add: buffers_inv_def buffers_init_def post_buffer_def buffer_defs host_in_init_def numbered_def [symmetric]
      del: mset_upt)


text \<open>A turn of \<open>in_task\<close>: how its program counter moves.\<close>

lemma host_in_step_pc:
  "(hi_pc s, hi_pc (host_in_step p s)) \<in>
     {(a, a) |a. True} \<union> {(HiReceive, HiForward packet) |packet. True}
     \<union> {(HiForward packet, HiReceive) |packet. hip_send p = Ready True} \<union> {(a, HiDone r) |a r. True}"
  by (cases "hi_pc s") (auto simp: host_in_step_defs Let_def split: poll.splits option.splits bool.splits)

lemma end_buffers_inv:
  assumes "buffers_inv (s, b)" and "hi_pc t = HiDone r"
  shows "buffers_inv (t, end_buffers b)"
  using assms end_buffers_all [of b] by (simp add: buffers_inv_def end_buffers_def live_buffers_def hi_stopped_pc(1))

lemma in_buffers_step_inv:
  assumes "buffers_inv (s, b)"
  shows "buffers_inv (in_buffers_step p (s, b))"
proof -
  let ?p = "p\<lparr>hip_send := (if hip_tx_closed p then Ready False
      else if length (ib_queue b) < QUEUE_LEN then Ready True else Pending)\<rparr>"
  let ?t = "host_in_step ?p s"
  have step: "in_buffers_step p (s, b) = (?t, (case (hi_pc s, hi_pc ?t) of
        (HiReceive, HiForward packet) \<Rightarrow> b\<lparr>ib_posted := tl (ib_posted b), ib_packet := [hd (ib_posted b)]\<rparr>
      | (HiForward packet, HiReceive) \<Rightarrow>
          post_buffer (b\<lparr>ib_packet := [], ib_queue := ib_queue b @ map (\<lambda>x. (x, packet)) (ib_packet b)\<rparr>)
      | (HiDone r, _) \<Rightarrow> b
      | (_, HiDone r) \<Rightarrow> end_buffers b
      | _ \<Rightarrow> b))"
    by (simp add: in_buffers_step_def Let_def)
  from host_in_step_pc [of s ?p] consider (same) "hi_pc ?t = hi_pc s"
    | (complete) packet where "hi_pc s = HiReceive" "hi_pc ?t = HiForward packet"
    | (forward) packet where "hi_pc s = HiForward packet" "hi_pc ?t = HiReceive" "hip_send ?p = Ready True"
    | (ended) r where "hi_pc ?t = HiDone r"
    by auto
  then show ?thesis
  proof cases
    case same
    have "buffers_inv (?t, b)" using assms by (simp add: buffers_inv_def hi_stopped_def same)
    moreover have "buffers_inv (?t, end_buffers b)" if "hi_pc s = HiDone r" for r
      using end_buffers_inv [OF assms, of ?t r] that same by simp
    ultimately show ?thesis unfolding step same by (cases "hi_pc s") simp_all
  next
    case (complete packet)
    obtain x xs where x: "ib_posted b = x # xs"
      using assms complete(1) by (cases "ib_posted b") (auto simp: buffers_inv_def)
    show ?thesis
      using assms unfolding step complete buffers_inv_def by (auto simp: complete x buffer_defs hi_stopped_def)
  next
    case (forward packet)
    obtain x where x: "ib_packet b = [x]"
      using assms forward(1) by (auto simp: buffers_inv_def length_Suc_conv)
    have room: "length (ib_queue b) < QUEUE_LEN" using forward(3) by (simp split: if_splits)
    let ?b = "b\<lparr>ib_packet := [], ib_queue := ib_queue b @ [(x, packet)]\<rparr>"
    have inv: "mset (all_buffers b) = numbered (ib_allocated b)" "length (live_buffers b) \<le> DMA_BUFFERS + QUEUE_LEN + 1"
        "length (ib_posted b) = DMA_BUFFERS" "ib_freed b = []"
      using assms forward(1) by (auto simp: buffers_inv_def hi_stopped_def)
    have "mset (all_buffers ?b) = numbered (ib_allocated ?b)" using inv(1) by (simp add: buffer_defs x)
    from post_buffer_all [OF this] have all: "mset (all_buffers (post_buffer ?b)) = numbered (ib_allocated (post_buffer ?b))" .
    have "length (live_buffers ?b) = length (live_buffers b)" by (simp add: live_buffers_def x)
    moreover have "length (live_buffers ?b) \<le> DMA_BUFFERS + QUEUE_LEN" if "ib_returned b = []"
      using that room inv(3) by (simp add: live_buffers_def)
    ultimately have live: "length (live_buffers (post_buffer ?b)) \<le> DMA_BUFFERS + QUEUE_LEN + 1"
      using inv(2) by (simp add: post_buffer_live)
    have "ib_allocated (post_buffer ?b) = length (live_buffers (post_buffer ?b)) + length (ib_adopted b)"
      using arg_cong [OF all, of size] inv(4) by (simp add: all_buffers_def)
    with live have "buffers_inv (?t, post_buffer ?b)"
      using all inv(3,4) room by (simp add: buffers_inv_def forward(2))
    then show ?thesis unfolding step by (simp add: forward x)
  next
    case (ended r)
    have "buffers_inv (?t, b)" if "hi_pc s = HiDone q" for q
      using assms that ended by (simp add: buffers_inv_def hi_stopped_pc(1))
    then show ?thesis
      unfolding step ended using end_buffers_inv [OF assms ended] by (cases "hi_pc s") simp_all
  qed
qed

lemma drop_packets_all [simp]:
  "mset (all_buffers (drop_packets ended xs b)) = mset xs + mset (all_buffers b)"
  by (simp add: drop_packets_def buffer_defs)

lemma drop_packets_frame [simp]:
  "ib_queue (drop_packets ended xs b) = ib_queue b" "ib_posted (drop_packets ended xs b) = ib_posted b"
  "ib_packet (drop_packets ended xs b) = ib_packet b" "ib_allocated (drop_packets ended xs b) = ib_allocated b"
  "ib_adopted (drop_packets ended xs b) = ib_adopted b" "\<not> ended \<Longrightarrow> ib_freed (drop_packets ended xs b) = ib_freed b"
  "length (live_buffers (drop_packets ended xs b)) \<le> length xs + length (live_buffers b)"
  by (simp_all add: drop_packets_def live_buffers_def)

text \<open>Taking packets from the queue of buffers: those taken are returned, freed or adopted.\<close>

lemma queue_taken_inv:
  assumes "buffers_inv (s, b)" and "ib_queue b = taken @ rest" and "map fst taken = ys @ xs"
  shows "buffers_inv (s, drop_packets (hi_stopped s) xs (b\<lparr>ib_queue := rest, ib_adopted := ib_adopted b @ ys\<rparr>))"
proof -
  let ?b = "b\<lparr>ib_queue := rest, ib_adopted := ib_adopted b @ ys\<rparr>"
  have "mset (all_buffers (drop_packets (hi_stopped s) xs ?b)) = mset (all_buffers b)"
    using assms(2,3) by (simp add: buffer_defs drop_packets_def)
  moreover have "length xs + length (live_buffers ?b) \<le> length (live_buffers b)"
    using assms(2) arg_cong [OF assms(3), of length] by (simp add: live_buffers_def)
  then have "length (live_buffers (drop_packets (hi_stopped s) xs ?b)) \<le> length (live_buffers b)"
    using drop_packets_frame(7) [of "hi_stopped s" xs ?b] by linarith
  ultimately show ?thesis using assms(1,2) by (simp add: buffers_inv_def)
qed

lemma recv_batch_inv:
  assumes "buffers_inv (s, b)"
  shows "buffers_inv (s, recv_batch n e (hi_stopped s) b)"
proof -
  obtain batch short rest where d: "drain n (map snd (ib_queue b)) = (batch, short, rest)" by (metis prod_cases3)
  let ?k = "length batch"
  have queue: "ib_queue b = take ?k (ib_queue b) @ drop ?k (ib_queue b)" by simp
  have same: "b\<lparr>ib_queue := q\<rparr> = b\<lparr>ib_queue := q, ib_adopted := ib_adopted b @ []\<rparr>" for q by simp
  have swap: "b\<lparr>ib_queue := q\<rparr>\<lparr>ib_adopted := a\<rparr> = b\<lparr>ib_queue := q, ib_adopted := a\<rparr>" for q a by simp
  show ?thesis
  proof (cases batch)
    case Nil
    with d assms show ?thesis by (simp add: recv_batch_def)
  next
    case (Cons packet packets)
    have "batch = take ?k (map snd (ib_queue b))" using drain_takes [OF d] .
    with Cons have ne: "map fst (take ?k (ib_queue b)) \<noteq> []" by (cases "ib_queue b") auto
    then have split: "map fst (take ?k (ib_queue b))
        = [hd (map fst (take ?k (ib_queue b)))] @ tl (map fst (take ?k (ib_queue b)))" by simp
    have "buffers_inv (s, drop_packets (hi_stopped s) (map fst (take ?k (ib_queue b))) (b\<lparr>ib_queue := drop ?k (ib_queue b)\<rparr>))"
      using queue_taken_inv [OF assms queue, of "[]"] by simp
    moreover note queue_taken_inv [OF assms queue split]
    ultimately show ?thesis by (simp add: recv_batch_def d Cons Let_def)
  qed
qed

lemma buffers_step_inv: "buffers_inv sb \<Longrightarrow> buffers_inv (buffers_step n ev sb)"
proof (cases sb; cases ev)
  fix s b p
  assume "buffers_inv sb" "sb = (s, b)" "ev = InTurn p"
  then show ?thesis by (simp add: buffers_step_def in_buffers_step_inv)
next
  fix s b e
  assume "buffers_inv sb" "sb = (s, b)" "ev = RecvBatch e"
  then show ?thesis by (simp add: buffers_step_def recv_batch_inv)
next
  fix s b
  assume "buffers_inv sb" "sb = (s, b)" "ev = ReceiverDropped"
  then show ?thesis
    using queue_taken_inv [of s b "ib_queue b" "[]" "[]" "map fst (ib_queue b)"] by (simp add: buffers_step_def)
qed

interpretation buffers: invariant_run "buffers_step n" buffers_inv "(host_in_init, buffers_init)" for n
  by unfold_locales (rule buffers_step_inv, assumption, rule buffers_init_inv)

section \<open>How many buffers a connection uses\<close>

text \<open>
  C35. Under every interleaving of \<open>in_task\<close> with the application of the host, every receive
  buffer that was allocated is at exactly one place: posted, in a packet on its way, returned,
  adopted by the receiver or freed. At most \<open>DMA_BUFFERS + QUEUE_LEN + 1\<close> are in use, the
  number ever allocated exceeds this only by those that the receiver has adopted, and none is
  freed before the task ends. The task takes the same turns as without its buffers.
\<close>

theorem receive_buffers_bounded:
  assumes "(s, b) = fold (buffers_step n) evs (host_in_init, buffers_init)"
  shows "distinct (all_buffers b) \<and> set (all_buffers b) = {0..<ib_allocated b}
    \<and> length (live_buffers b) \<le> DMA_BUFFERS + QUEUE_LEN + 1
    \<and> ib_allocated b \<le> DMA_BUFFERS + QUEUE_LEN + 1 + length (ib_adopted b)
    \<and> (hi_stopped s \<or> ib_freed b = [])
    \<and> (\<exists>ps. s = fold host_in_step ps host_in_init)"
proof -
  have inv: "buffers_inv (s, b)" unfolding assms by (rule buffers.reachable_inv)
  then have "mset (all_buffers b) = mset [0..<ib_allocated b]" by (simp add: buffers_inv_def numbered_def)
  then have "distinct (all_buffers b)" "set (all_buffers b) = set [0..<ib_allocated b]"
    by (metis distinct_upt mset_eq_imp_distinct_iff, metis mset_eq_setD)
  moreover have "\<exists>ps. fst (fold (buffers_step n) evs sb) = fold host_in_step ps (fst sb)" for sb
  proof (induction evs arbitrary: sb)
    case (Cons ev evs)
    obtain ps where ps: "fst (fold (buffers_step n) (ev # evs) sb) = fold host_in_step ps (fst (buffers_step n ev sb))"
      using Cons.IH by fastforce
    have "\<exists>qs. fst (buffers_step n ev sb) = fold host_in_step qs (fst sb)"
    proof (cases ev)
      case (InTurn p)
      then have "\<exists>q. fst (buffers_step n ev sb) = host_in_step q (fst sb)"
        by (cases sb) (auto simp: buffers_step_def in_buffers_step_def Let_def)
      then obtain q where "fst (buffers_step n ev sb) = fold host_in_step [q] (fst sb)" by auto
      then show ?thesis by blast
    qed (auto simp: buffers_step_def intro: exI [of _ "[]"])
    then obtain qs where "fst (buffers_step n ev sb) = fold host_in_step qs (fst sb)" by blast
    with ps have "fst (fold (buffers_step n) (ev # evs) sb) = fold host_in_step (qs @ ps) (fst sb)" by simp
    then show ?case by blast
  qed (auto intro: exI [of _ "[]"])
  then have "\<exists>ps. s = fold host_in_step ps host_in_init" using assms by (metis fst_conv)
  ultimately show ?thesis using inv unfolding buffers_inv_def prod.case by auto
qed

theorem receive_buffers_bounded_witness:
  "\<exists>s b. (s, b) = fold (buffers_step 2)
       [InTurn \<lparr>hip_complete = Ready \<lparr>cp_status = None, cp_actual_len = 1, cp_buffer = [7], cp_zero_copy = True\<rparr>,
          hip_tx_closed = False, hip_dead = False, hip_send = Pending\<rparr>,
        InTurn \<lparr>hip_complete = Pending, hip_tx_closed = False, hip_dead = False, hip_send = Pending\<rparr>, RecvBatch True]
       (host_in_init, buffers_init)
     \<and> ib_returned b = [0] \<and> ib_allocated b = 10 \<and> set (all_buffers b) = {0..<10}"
proof -
  let ?evs = "[InTurn \<lparr>hip_complete = Ready \<lparr>cp_status = None, cp_actual_len = 1, cp_buffer = [7], cp_zero_copy = True\<rparr>,
          hip_tx_closed = False, hip_dead = False, hip_send = Pending\<rparr>,
        InTurn \<lparr>hip_complete = Pending, hip_tx_closed = False, hip_dead = False, hip_send = Pending\<rparr>, RecvBatch True]"
  obtain s b where sb: "(s, b) = fold (buffers_step 2) ?evs (host_in_init, buffers_init)" by (metis surj_pair)
  have "ib_returned b = [0] \<and> ib_allocated b = 10"
    using arg_cong [OF sb, of snd]
    by (simp add: buffers_step_def in_buffers_step_def host_in_step_defs host_in_init_def buffers_init_def post_buffer_def
        recv_batch_def drop_packets_def hi_stopped_def rp_data_def DMA_BUFFERS_def QUEUE_LEN_def Let_def upt_rec)
  moreover have "set (all_buffers b) = {0..<ib_allocated b}"
    by (rule receive_buffers_bounded [OF sb, THEN conjunct2, THEN conjunct1])
  ultimately show ?thesis using sb by (intro exI [of _ s] exI [of _ b]) simp
qed

end
