(* ===== verification/Device_Function.thy ===== *)
theory Device_Function
  imports Device_Connection Host_Native
begin

text \<open>
  The USB function of \<open>src/device.rs\<close>: what \<open>UpcFunction::new\<close> and \<open>with_ffs\<close> create, and
  what a host sees of it, that is its interface descriptor and its answers to the control
  requests of a host that is not connected. The gadget library takes the description of the
  interface; the bus gives it a number and addresses.
\<close>

section \<open>Creating the function\<close>

datatype ep_direction = HostToDeviceEp | DeviceToHostEp

text \<open>The interface handed to the gadget library: class, name, bulk endpoints, GUID.\<close>

record 'g gadget_interface =
  gi_class :: usb_class
  gi_name :: string
  gi_bulk_endpoints :: "ep_direction list"
  gi_winusb :: bool
  gi_guid :: "'g option"

record 'g upc_function =
  uf_class :: usb_class
  uf_name :: string
  uf_cfg :: cfg
  uf_conn_queue :: nat

definition function_interface :: "'g interface_id \<Rightarrow> 'g gadget_interface" where
  "function_interface i =
     (let interface = \<lparr>gi_class = id_class i, gi_name = id_name i,
            gi_bulk_endpoints = [HostToDeviceEp, DeviceToHostEp], gi_winusb = True, gi_guid = None\<rparr>
      in case id_guid i of Some guid \<Rightarrow> interface\<lparr>gi_guid := Some guid\<rparr> | None \<Rightarrow> interface)"

text \<open>\<open>build\<close> is what the gadget library makes of the interface, or its error.\<close>

definition function_init ::
  "('g gadget_interface \<Rightarrow> io_error + 't) \<Rightarrow> 'g interface_id \<Rightarrow> io_error + 'g upc_function \<times> 't" where
  "function_init build i =
     (case build (function_interface i) of
        Inl e \<Rightarrow> Inl e
      | Inr t \<Rightarrow>
          Inr (\<lparr>uf_class = id_class i, uf_name = id_name i, uf_cfg = cfg_default, uf_conn_queue = 4\<rparr>, t))"

text \<open>\<open>new\<close> unwraps the result; its builder does not fail.\<close>

definition function_new :: "('g gadget_interface \<Rightarrow> 't) \<Rightarrow> 'g interface_id \<Rightarrow> ('g upc_function \<times> 't) option" where
  "function_new build i =
     (case function_init (\<lambda>d. Inr (build d)) i of Inr r \<Rightarrow> Some r | Inl e \<Rightarrow> None)"

definition function_with_ffs ::
  "('g gadget_interface \<Rightarrow> io_error + unit) \<Rightarrow> 'g interface_id \<Rightarrow> io_error + 'g upc_function" where
  "function_with_ffs existing i = map_sum id fst (function_init existing i)"

text \<open>The getters of the configuration.\<close>

definition function_info :: "'g upc_function \<Rightarrow> bytes" where
  "function_info f = cfg_info (uf_cfg f)"

definition function_ping_timeout :: "'g upc_function \<Rightarrow> duration option" where
  "function_ping_timeout f = cfg_ping_timeout (uf_cfg f)"

definition function_max_size :: "'g upc_function \<Rightarrow> u64" where
  "function_max_size f = cfg_max_size (uf_cfg f)"

definition function_recv_pool_size :: "'g upc_function \<Rightarrow> nat" where
  "function_recv_pool_size f = cfg_recv_pool_size (uf_cfg f)"

lemma function_new_total: "\<exists>f t. function_new build i = Some (f, t) \<and> cfg_ok (uf_cfg f)"
  by (simp add: function_new_def function_init_def cfg_ok_setters)

section \<open>The interface on the bus\<close>

text \<open>
  What enumeration makes of an interface: a descriptor with the same class and, in the same
  order, a bulk endpoint for each, all with the packet size of the bus.
\<close>

fun bus_direction :: "ep_direction \<Rightarrow> direction" where
  "bus_direction HostToDeviceEp = DirOut"
| "bus_direction DeviceToHostEp = DirIn"

definition enumerated :: "nat \<Rightarrow> 'g gadget_interface \<Rightarrow> iface_desc \<Rightarrow> bool" where
  "enumerated mps g d \<longleftrightarrow>
     if_class d = gi_class g
     \<and> list_all2 (\<lambda>ep e. ed_direction e = bus_direction ep \<and> ed_type e = Bulk \<and> ed_mps e = mps)
         (gi_bulk_endpoints g) (if_endpoints d)"

text \<open>
  The host finds the interface that the device declares: on a device whose interfaces
  before it have other classes and whose numbers differ, the search by class yields its
  number, and a connection attempt to that number uses its two endpoints and the packet size
  of the bus.
\<close>

theorem host_finds_function:
  assumes "enumerated mps (function_interface i) d" and "mps \<le> usize_max"
    and "list_all (\<lambda>e. if_class e \<noteq> id_class i \<and> if_number e \<noteq> if_number d) before"
  shows "native_find_interface (before @ d # others) (id_class i) = Inr (if_number d)
    \<and> (\<exists>e_out e_in. if_endpoints d = [e_out, e_in] \<and> ed_direction e_out = DirOut \<and> ed_direction e_in = DirIn
         \<and> native_endpoints usize_max (if_number d) (Inr (before @ d # others))
             = Inr (mps, ed_address e_in, ed_address e_out))"
proof -
  have eps: "gi_bulk_endpoints (function_interface i) = [HostToDeviceEp, DeviceToHostEp]"
    and "gi_class (function_interface i) = id_class i"
    by (simp_all add: function_interface_def Let_def split: option.split)
  then have cls: "if_class d = id_class i" using assms(1) by (simp add: enumerated_def)
  obtain e_out e_in where es: "if_endpoints d = [e_out, e_in]" "ed_direction e_out = DirOut" "ed_type e_out = Bulk"
      "ed_mps e_out = mps" "ed_direction e_in = DirIn" "ed_type e_in = Bulk" "ed_mps e_in = mps"
    using assms(1) eps by (auto simp: enumerated_def list_all2_Cons1)
  have "native_find_interface (before @ d # others) (id_class i) = Inr (if_number d)"
    using assms(3) by (induction before) (auto simp: cls intro: usb_class.expand)
  moreover have "find (\<lambda>e. if_number e = if_number d) (before @ d # others) = Some d"
    using assms(3) by (induction before) auto
  ultimately show ?thesis
    using es assms(2) by (simp add: native_endpoints_def)
qed

theorem host_finds_function_witness:
  "native_find_interface
     [\<lparr>if_number = 0, if_class = vendor_specific 9 9, if_endpoints = []\<rparr>,
      \<lparr>if_number = 1, if_class = vendor_specific 1 2,
       if_endpoints = [\<lparr>ed_direction = DirOut, ed_type = Bulk, ed_mps = 64, ed_address = 0x01\<rparr>,
                       \<lparr>ed_direction = DirIn, ed_type = Bulk, ed_mps = 64, ed_address = 0x82\<rparr>]\<rparr>]
     (vendor_specific 1 2) = Inr 1"
proof -
  let ?i = "interface_id_new (vendor_specific 1 2) :: unit interface_id"
  let ?d = "\<lparr>if_number = 1, if_class = vendor_specific 1 2,
       if_endpoints = [\<lparr>ed_direction = DirOut, ed_type = Bulk, ed_mps = 64, ed_address = 0x01\<rparr>,
                       \<lparr>ed_direction = DirIn, ed_type = Bulk, ed_mps = 64, ed_address = 0x82\<rparr>]\<rparr>"
  have "enumerated 64 (function_interface ?i) ?d"
    by (simp add: enumerated_def function_interface_def interface_id_new_def)
  from host_finds_function [OF this, of 1000
      "[\<lparr>if_number = 0, if_class = vendor_specific 9 9, if_endpoints = []\<rparr>]" "[]"]
  show ?thesis by (simp add: interface_id_new_def vendor_specific_def class_new_def)
qed

section \<open>Requests outside a connection\<close>

text \<open>
  What the device answers to a control-in request: the reply of its main task, of which the
  bus carries at most the length asked for; a request that is dropped is stalled.
\<close>

definition device_responds :: "dev_env \<Rightarrow> dev_state \<Rightarrow> control_in \<Rightarrow> transfer_error + bytes" where
  "device_responds env s c =
     (case dev_step (DeviceToHost (ci_request c)) env s of
        Running s' [Reply d] \<Rightarrow> Inr (take (unat (ci_length c)) d)
      | _ \<Rightarrow> Inl TrStall)"

text \<open>The longest reply that a host has room for in its request.\<close>

definition reply_room :: "u8 \<Rightarrow> nat" where
  "reply_room req =
     (if req = PROBE then length PROBE_RESPONSE
      else if req = INFO then INFO_SIZE
      else if req = CAPABILITIES then CAPS_SIZE
      else if req = STATUS then STATUS_MAX_SIZE
      else 0)"

text \<open>A configuration made from the default by the setters.\<close>

datatype cfg_change = SetInfo bytes | SetPingTimeout "duration option" | SetMaxSize u64 | SetRecvPoolSize nat

fun configure :: "cfg_change list \<Rightarrow> cfg \<Rightarrow> cfg option" where
  "configure [] c = Some c"
| "configure (SetInfo i # cs) c = Option.bind (set_info i c) (configure cs)"
| "configure (SetPingTimeout t # cs) c = configure cs (set_ping_timeout t c)"
| "configure (SetMaxSize n # cs) c = configure cs (set_max_size n c)"
| "configure (SetRecvPoolSize n # cs) c = configure cs (set_recv_pool_size n c)"

lemma configure_ok: "cfg_ok c \<Longrightarrow> configure cs c = Some c' \<Longrightarrow> cfg_ok c'"
proof (induction cs c rule: configure.induct)
  case (2 i cs c)
  then show ?case by (cases "set_info i c") (auto intro: cfg_ok_setters)
qed (simp_all add: cfg_ok_def)

lemma device_caps_size: "length (device_caps_encode c) \<le> CAPS_SIZE"
  by (simp add: device_caps_encode_def Let_def CAPS_SIZE_def)

lemma dev_reply:
  "dev_step (DeviceToHost PROBE) env s = Running s [Reply PROBE_RESPONSE]"
  "dev_step (DeviceToHost INFO) env s = Running s [Reply (cfg_info (ev_cfg env))]"
  by (simp_all add: dev_step_def handle_device_to_host_def code_consts finish_def)

text \<open>
  C20. Replies have the type that the host expects: whatever the setters made of the
  configuration, in every state the device answers a control-in request with nothing or with
  one reply that fits into the room of the host's request, so that no reply is ever cut.
\<close>

theorem replies_fit:
  assumes "configure cs cfg_default = Some (ev_cfg env)"
    and "dev_step (DeviceToHost req) env s = Running s' es"
  shows "es = [DropRequest] \<or> (\<exists>d. es = [Reply d] \<and> length d \<le> reply_room req)"
proof -
  have "length (cfg_info (ev_cfg env)) \<le> INFO_SIZE"
    using configure_ok [OF cfg_ok_setters(1) assms(1)] by (simp add: cfg_ok_def)
  then show ?thesis
    using assms(2) device_caps_size
    by (auto simp: dev_step_def handle_device_to_host_def handle_device_caps_def handle_status_def Let_def
        reply_room_def code_consts split: if_splits)
qed

theorem replies_fit_witness:
  "\<exists>d. dev_step (DeviceToHost INFO) (quiet_env\<lparr>ev_cfg := cfg_default\<lparr>cfg_info := [7, 8]\<rparr>\<rparr>) dev_init
     = Running dev_init [Reply d] \<and> length d \<le> reply_room INFO"
proof -
  let ?env = "quiet_env\<lparr>ev_cfg := cfg_default\<lparr>cfg_info := [7, 8]\<rparr>\<rparr>"
  have "configure [SetInfo [7, 8]] cfg_default = Some (ev_cfg ?env)"
    by (simp add: set_info_def code_consts)
  from replies_fit [OF this dev_reply(2) [where s = dev_init]] show ?thesis by (simp add: dev_reply)
qed

lemma native_answers:
  assumes "configure cs cfg_default = Some (ev_cfg env)"
  shows "native_probe n (Inr (device_responds env s)) = Inr True"
    and "native_info n (Inr (device_responds env s)) = Inr (cfg_info (ev_cfg env))"
proof -
  have "length (cfg_info (ev_cfg env)) \<le> INFO_SIZE"
    using configure_ok [OF cfg_ok_setters(1) assms] by (simp add: cfg_ok_def)
  then show "native_probe n (Inr (device_responds env s)) = Inr True"
    and "native_info n (Inr (device_responds env s)) = Inr (cfg_info (ev_cfg env))"
    by (simp_all add: native_probe_def native_info_def device_responds_def native_control_in_def dev_reply)
      (simp_all add: code_consts)
qed

text \<open>
  A device that is not connected, and also one that is, answers the probe of a native
  host, and its request for info with the info that was set, in full.
\<close>

theorem probe_and_info:
  assumes "configure cs cfg_default = Some (ev_cfg env)"
  shows "native_probe n (Inr (device_responds env s)) = Inr True
    \<and> native_info n (Inr (device_responds env s)) = Inr (cfg_info (ev_cfg env))"
  using native_answers [OF assms] by simp

theorem probe_and_info_witness:
  "native_info 3 (Inr (device_responds (quiet_env\<lparr>ev_cfg := cfg_default\<lparr>cfg_info := [7, 8]\<rparr>\<rparr>) dev_init)) = Inr [7, 8]"
  using probe_and_info [of "[SetInfo [7, 8]]" "quiet_env\<lparr>ev_cfg := cfg_default\<lparr>cfg_info := [7, 8]\<rparr>\<rparr>" 3 dev_init]
  by (simp add: set_info_def code_consts)

end
