(* ===== verification/Cli_Args.thy ===== *)
theory Cli_Args
  imports Upc_Lib
begin

text \<open>
  Text on the command line, \<open>src/bin/upc.rs\<close>: the hexadecimal numbers that its options
  take and that its output prints, and the framing option. A string is the list of the
  bytes of its UTF-8 encoding. The integer parsing and formatting of the Rust standard
  library is written out: \<open>from_str_radix\<close> with radix 16, \<open>trim_start_matches\<close>, and the
  formats \<open>{}\<close>, \<open>{:0w}\<close> and \<open>{:0wx}\<close>.
\<close>

section \<open>Parsing hexadecimal numbers\<close>

datatype int_error_kind = IntEmpty | IntInvalidDigit | IntPosOverflow

definition display_int_error :: "int_error_kind \<Rightarrow> string" where
  "display_int_error e =
     (case e of
        IntEmpty \<Rightarrow> ''cannot parse integer from empty string''
      | IntInvalidDigit \<Rightarrow> ''invalid digit found in string''
      | IntPosOverflow \<Rightarrow> ''number too large to fit in target type'')"

definition to_digit16 :: "char \<Rightarrow> nat option" where
  "to_digit16 c =
     (let n = of_char c
      in if 48 \<le> n \<and> n \<le> 57 then Some (n - 48)
         else if 97 \<le> n \<and> n \<le> 102 then Some (n - 87)
         else if 65 \<le> n \<and> n \<le> 70 then Some (n - 55)
         else None)"

text \<open>The digits, with the number read so far and the largest number of the type.\<close>

fun digits16 :: "nat \<Rightarrow> nat \<Rightarrow> string \<Rightarrow> int_error_kind + nat" where
  "digits16 m acc [] = Inr acc"
| "digits16 m acc (c # cs) =
     (case to_digit16 c of
        None \<Rightarrow> Inl IntInvalidDigit
      | Some d \<Rightarrow> if m < 16 * acc + d then Inl IntPosOverflow else digits16 m (16 * acc + d) cs)"

text \<open>\<open>from_str_radix(s, 16)\<close> of an unsigned type: a plus sign is accepted in front.\<close>

definition from_str_radix16 :: "string \<Rightarrow> int_error_kind + 'a::len word" where
  "from_str_radix16 s =
     map_sum id of_nat
       (case s of
          [] \<Rightarrow> Inl IntEmpty
        | c # cs \<Rightarrow>
            if (c = CHR ''+'' \<or> c = CHR ''-'') \<and> cs = [] then Inl IntInvalidDigit
            else digits16 (2 ^ LENGTH('a) - 1) 0 (if c = CHR ''+'' then cs else s))"

function trim_start_matches :: "string \<Rightarrow> string \<Rightarrow> string" where
  "trim_start_matches p s =
     (if p \<noteq> [] \<and> take (length p) s = p then trim_start_matches p (drop (length p) s) else s)"
  by pat_completeness auto
termination
proof (relation "measure (\<lambda>(p, s). length s)")
  fix p s :: string assume "p \<noteq> [] \<and> take (length p) s = p"
  then show "((p, drop (length p) s), p, s) \<in> measure (\<lambda>(p, s). length s)"
    by (cases s) auto
qed simp

declare trim_start_matches.simps [simp del]

definition parse_hex_u16 :: "string \<Rightarrow> string + u16" where
  "parse_hex_u16 s =
     map_sum (\<lambda>e. ''invalid hex u16: '' @ display_int_error e) id
       (from_str_radix16 (trim_start_matches ''0X'' (trim_start_matches ''0x'' s)))"

definition parse_hex_u8 :: "string \<Rightarrow> string + u8" where
  "parse_hex_u8 s =
     map_sum (\<lambda>e. ''invalid hex u8: '' @ display_int_error e) id
       (from_str_radix16 (trim_start_matches ''0X'' (trim_start_matches ''0x'' s)))"

section \<open>Printing numbers\<close>

definition digit_char :: "nat \<Rightarrow> char" where
  "digit_char d = char_of (if d < 10 then 48 + d else 87 + d)"

text \<open>The digits of a number in a base of at most 16.\<close>

fun radix_digits :: "nat \<Rightarrow> nat \<Rightarrow> string" where
  "radix_digits b n =
     (if b < 2 \<or> n < b then [digit_char n] else radix_digits b (n div b) @ [digit_char (n mod b)])"

declare radix_digits.simps [simp del]

definition pad_zero :: "nat \<Rightarrow> string \<Rightarrow> string" where
  "pad_zero w s = replicate (w - length s) CHR ''0'' @ s"

definition fmt_hex :: "nat \<Rightarrow> 'a::len word \<Rightarrow> string" where
  "fmt_hex w n = pad_zero w (radix_digits 16 (unat n))"

definition fmt_dec :: "nat \<Rightarrow> 'a::len word \<Rightarrow> string" where
  "fmt_dec w n = pad_zero w (radix_digits 10 (unat n))"

section \<open>The framing option\<close>

datatype framing = Auto | Line | Raw

text \<open>The framing that is used, given whether stdin is a terminal.\<close>

definition resolve_framing :: "bool \<Rightarrow> framing \<Rightarrow> framing" where
  "resolve_framing interactive framing =
     (case framing of Auto \<Rightarrow> (if interactive then Line else Raw) | other \<Rightarrow> other)"

definition DEFAULT_PROTOCOL :: string where [code_consts]: "DEFAULT_PROTOCOL = ''84''"
definition IDLE_TIMEOUT :: duration where [code_consts]: "IDLE_TIMEOUT = from_secs 1"

lemma resolve_framing_not_Auto [simp]: "resolve_framing i f \<noteq> Auto"
  by (simp add: resolve_framing_def split: framing.split)

section \<open>What is read\<close>

definition is_digit16 :: "char \<Rightarrow> bool" where
  "is_digit16 c \<longleftrightarrow> to_digit16 c \<noteq> None"

fun hex_value :: "nat \<Rightarrow> string \<Rightarrow> nat" where
  "hex_value acc [] = acc"
| "hex_value acc (c # cs) = hex_value (16 * acc + the (to_digit16 c)) cs"

lemma hex_value_mono: "acc \<le> hex_value acc cs"
  by (induction acc cs rule: hex_value.induct) auto

lemma hex_value_append: "hex_value acc (s @ t) = hex_value (hex_value acc s) t"
  by (induction acc s rule: hex_value.induct) simp_all

lemma digits16_Inr:
  "digits16 m acc cs = Inr n \<and> acc \<le> m \<longleftrightarrow> list_all is_digit16 cs \<and> n = hex_value acc cs \<and> n \<le> m"
proof (induction m acc cs rule: digits16.induct)
  case (2 m acc c cs)
  show ?case
  proof (cases "to_digit16 c")
    case (Some d)
    have "16 * acc + d \<le> hex_value (16 * acc + d) cs" by (rule hex_value_mono)
    then show ?thesis
      using Some "2.IH" [OF Some] by (auto simp: is_digit16_def)
  qed (simp add: is_digit16_def)
qed auto

lemma not_digit [simp]:
  "\<not> is_digit16 CHR ''+''" "\<not> is_digit16 CHR ''-''" "\<not> is_digit16 CHR ''x''" "\<not> is_digit16 CHR ''X''"
  by (simp_all add: is_digit16_def to_digit16_def Let_def)

lemma of_nat_eq_unat:
  "n \<le> 2 ^ LENGTH('a) - 1 \<and> of_nat n = v \<longleftrightarrow> n = unat (v :: 'a::len word)"
proof
  assume n: "n = unat v"
  have "unat v < 2 ^ LENGTH('a)" by (rule unsigned_less)
  then have "unat v \<le> 2 ^ LENGTH('a) - 1" by linarith
  then show "n \<le> 2 ^ LENGTH('a) - 1 \<and> of_nat n = v" using n by (simp del: One_nat_def)
next
  assume *: "n \<le> 2 ^ LENGTH('a) - 1 \<and> of_nat n = v"
  moreover have "(0::nat) < 2 ^ LENGTH('a)" by simp
  ultimately have "n < 2 ^ LENGTH('a)" by linarith
  then show "n = unat v" using * by (auto simp: unsigned_of_nat take_bit_nat_eq_self)
qed

lemma from_str_radix16_Inr:
  "from_str_radix16 s = Inr (v :: 'a::len word) \<longleftrightarrow>
     (\<exists>ds. (s = ds \<or> s = CHR ''+'' # ds) \<and> ds \<noteq> [] \<and> list_all is_digit16 ds
        \<and> hex_value 0 ds = unat v)"
  (is "?L \<longleftrightarrow> ?R")
proof -
  have num: "map_sum id of_nat (digits16 (2 ^ LENGTH('a) - 1) 0 ds) = (Inr v :: int_error_kind + 'a word)
      \<longleftrightarrow> list_all is_digit16 ds \<and> hex_value 0 ds = unat v" for ds
  proof -
    have "map_sum id of_nat (digits16 (2 ^ LENGTH('a) - 1) 0 ds) = (Inr v :: int_error_kind + 'a word)
        \<longleftrightarrow> (\<exists>n. digits16 (2 ^ LENGTH('a) - 1) 0 ds = Inr n \<and> of_nat n = v)"
      by (cases "digits16 (2 ^ LENGTH('a) - 1) 0 ds") auto
    also have "\<dots> \<longleftrightarrow> (\<exists>n. list_all is_digit16 ds \<and> n = hex_value 0 ds \<and> n \<le> 2 ^ LENGTH('a) - 1 \<and> of_nat n = v)"
      using digits16_Inr [of "2 ^ LENGTH('a) - 1" 0 ds] by simp
    also have "\<dots> \<longleftrightarrow> list_all is_digit16 ds \<and> hex_value 0 ds \<le> 2 ^ LENGTH('a) - 1 \<and> of_nat (hex_value 0 ds) = v"
      by blast
    also have "\<dots> \<longleftrightarrow> list_all is_digit16 ds \<and> hex_value 0 ds = unat v"
      by (rule conj_cong [OF refl of_nat_eq_unat])
    finally show ?thesis .
  qed
  show ?thesis
  proof (cases s)
    case (Cons c cs)
    show ?thesis
    proof (cases "c = CHR ''+''")
      case True
      have "?R \<longleftrightarrow> cs \<noteq> [] \<and> list_all is_digit16 cs \<and> hex_value 0 cs = unat v"
        unfolding Cons True by auto
      then show ?thesis using num [of cs] Cons True by (simp add: from_str_radix16_def)
    next
      case False
      have "?R \<longleftrightarrow> list_all is_digit16 s \<and> hex_value 0 s = unat v"
        unfolding Cons using False by auto
      then show ?thesis using num [of s] Cons False
        by (auto simp: from_str_radix16_def)
    qed
  qed (simp add: from_str_radix16_def)
qed

text \<open>Prefixes that are trimmed: a string is a number of them and a rest without one.\<close>

lemma trim_start_matches_prefix:
  "p \<noteq> [] \<Longrightarrow> trim_start_matches p (p @ s) = trim_start_matches p s"
  by (simp add: trim_start_matches.simps [of p "p @ s"])

lemma trim_start_matches_none:
  "take (length p) s \<noteq> p \<Longrightarrow> trim_start_matches p s = s"
  by (simp add: trim_start_matches.simps)

lemma trim_start_matches_replicate:
  "p \<noteq> [] \<Longrightarrow> trim_start_matches p (concat (replicate n p) @ s) = trim_start_matches p s"
  by (induction n) (simp_all add: trim_start_matches_prefix)

lemma trim_start_matches_split:
  "\<exists>n. s = concat (replicate n p) @ trim_start_matches p s"
proof (induction p s rule: trim_start_matches.induct)
  case (1 p s)
  show ?case
  proof (cases "p \<noteq> [] \<and> take (length p) s = p")
    case True
    then obtain n where "drop (length p) s = concat (replicate n p) @ trim_start_matches p (drop (length p) s)"
      using 1 by blast
    then have "s = concat (replicate (Suc n) p) @ trim_start_matches p s"
      using True append_take_drop_id [of "length p" s] by (simp add: trim_start_matches.simps [of p s])
    then show ?thesis by blast
  next
    case False
    then have "trim_start_matches p s = s" unfolding trim_start_matches.simps [of p s] by (rule if_not_P)
    then show ?thesis by (intro exI [of _ 0]) simp
  qed
qed

lemma no_hex_prefix:
  "list_all is_digit16 ds \<Longrightarrow> t = ds \<or> t = CHR ''+'' # ds \<Longrightarrow> x = CHR ''x'' \<or> x = CHR ''X''
     \<Longrightarrow> take 2 t \<noteq> [CHR ''0'', x]"
  by (cases ds; cases "tl ds") auto

lemma hex_word_Inr:
  "from_str_radix16 (trim_start_matches ''0X'' (trim_start_matches ''0x'' s)) = Inr (v :: 'a::len word) \<longleftrightarrow>
     (\<exists>i j ds. (\<exists>t. s = concat (replicate i ''0x'') @ concat (replicate j ''0X'') @ t \<and> (t = ds \<or> t = CHR ''+'' # ds))
        \<and> ds \<noteq> [] \<and> list_all is_digit16 ds \<and> hex_value 0 ds = unat v)"
  (is "?L \<longleftrightarrow> ?R")
proof
  assume ?L
  moreover obtain i where "s = concat (replicate i ''0x'') @ trim_start_matches ''0x'' s"
    using trim_start_matches_split by blast
  moreover obtain j where "trim_start_matches ''0x'' s =
      concat (replicate j ''0X'') @ trim_start_matches ''0X'' (trim_start_matches ''0x'' s)"
    using trim_start_matches_split by blast
  ultimately show ?R unfolding from_str_radix16_Inr by metis
next
  assume ?R
  then obtain i j ds t where s: "s = concat (replicate i ''0x'') @ concat (replicate j ''0X'') @ t"
    and t: "t = ds \<or> t = CHR ''+'' # ds"
    and ds: "ds \<noteq> []" "list_all is_digit16 ds" "hex_value 0 ds = unat v" by blast
  have "take 2 (concat (replicate j ''0X'') @ t) \<noteq> ''0x''"
    using no_hex_prefix [OF ds(2) t, of "CHR ''x''"] by (cases j) auto
  then have "trim_start_matches ''0x'' s = concat (replicate j ''0X'') @ t"
    using trim_start_matches_none [of "''0x''" "concat (replicate j ''0X'') @ t"]
    unfolding s by (simp add: trim_start_matches_replicate numeral_2_eq_2 del: take_append)
  moreover have "trim_start_matches ''0X'' (concat (replicate j ''0X'') @ t) = t"
    using no_hex_prefix [OF ds(2) t, of "CHR ''X''"] trim_start_matches_none [of "''0X''" t]
    by (simp add: trim_start_matches_replicate numeral_2_eq_2)
  ultimately show ?L unfolding from_str_radix16_Inr using t ds by auto
qed

text \<open>
  A hexadecimal option is accepted exactly when it consists of any number of prefixes
  \<open>0x\<close>, any number of prefixes \<open>0X\<close>, an optional plus sign and at least one digit, and the
  number that the digits denote fits the type; the result is that number.
\<close>

theorem parse_hex_accepts:
  "(parse_hex_u16 s = Inr v \<longleftrightarrow>
     (\<exists>i j ds. (\<exists>t. s = concat (replicate i ''0x'') @ concat (replicate j ''0X'') @ t \<and> (t = ds \<or> t = CHR ''+'' # ds))
        \<and> ds \<noteq> [] \<and> list_all is_digit16 ds \<and> hex_value 0 ds = unat v))
   \<and> (parse_hex_u8 s = Inr b \<longleftrightarrow>
     (\<exists>i j ds. (\<exists>t. s = concat (replicate i ''0x'') @ concat (replicate j ''0X'') @ t \<and> (t = ds \<or> t = CHR ''+'' # ds))
        \<and> ds \<noteq> [] \<and> list_all is_digit16 ds \<and> hex_value 0 ds = unat b))"
proof -
  have *: "map_sum f id r = Inr w \<longleftrightarrow> r = Inr w" for f :: "int_error_kind \<Rightarrow> string" and r and w :: "'w"
    by (cases r) auto
  show ?thesis
    unfolding parse_hex_u16_def parse_hex_u8_def * hex_word_Inr by (intro conjI refl)
qed

section \<open>What is printed can be read\<close>

lemma to_digit16_digit_char [simp]: "d < 16 \<Longrightarrow> to_digit16 (digit_char d) = Some d"
  by (auto simp: to_digit16_def digit_char_def Let_def)

lemma hex_value_radix_digits:
  "list_all is_digit16 (radix_digits 16 n) \<and> hex_value 0 (radix_digits 16 n) = n"
proof (induction n rule: less_induct)
  case (less n)
  show ?case
  proof (cases "n < 16")
    case True
    then show ?thesis by (simp add: radix_digits.simps [of 16 n] is_digit16_def)
  next
    case False
    then have "n div 16 < n" by simp
    then show ?thesis using less.IH [of "n div 16"] False
      by (simp add: radix_digits.simps [of 16 n] is_digit16_def hex_value_append)
  qed
qed

lemma hex_value_fmt_hex:
  "list_all is_digit16 (fmt_hex k w)" "hex_value 0 (fmt_hex k w) = unat w" "fmt_hex k w \<noteq> []"
proof -
  have 0: "to_digit16 CHR ''0'' = Some 0" by (simp add: to_digit16_def Let_def)
  have "hex_value 0 (replicate j CHR ''0'') = 0" for j by (induction j) (simp_all add: 0)
  then show "hex_value 0 (fmt_hex k w) = unat w" "list_all is_digit16 (fmt_hex k w)"
    using hex_value_radix_digits [of "unat w"]
    by (simp_all add: fmt_hex_def pad_zero_def hex_value_append list_all_length 0 is_digit16_def nth_append)
  show "fmt_hex k w \<noteq> []"
    by (subst fmt_hex_def) (simp add: pad_zero_def radix_digits.simps [of 16 "unat w"])
qed

lemma parse_fmt_hex:
  fixes w :: "'a::len word"
  shows "from_str_radix16 (trim_start_matches ''0X'' (trim_start_matches ''0x''
           (concat (replicate i ''0x'') @ fmt_hex k w))) = Inr w"
  unfolding hex_word_Inr
  by (intro exI [of _ i] exI [of _ 0] exI [of _ "fmt_hex k w"]) (simp add: hex_value_fmt_hex)

lemma length_radix_digits:
  "n < 16 ^ Suc k \<Longrightarrow> length (radix_digits 16 n) \<le> Suc k"
proof (induction k arbitrary: n)
  case 0
  then show ?case by (simp add: radix_digits.simps [of 16 n])
next
  case (Suc k)
  then have "n div 16 < 16 ^ Suc k" by (simp add: less_mult_imp_div_less mult.commute)
  then show ?case using Suc.IH [of "n div 16"] by (simp add: radix_digits.simps [of 16 n])
qed

lemma length_fmt_hex:
  fixes w :: "'a::len word"
  assumes "LENGTH('a) = 4 * Suc k"
  shows "length (fmt_hex (Suc k) w) = Suc k"
proof -
  have "(16::nat) ^ Suc k = 2 ^ LENGTH('a)"
    unfolding assms power_mult by simp
  then have "unat w < 16 ^ Suc k" by (metis unsigned_less)
  then show ?thesis using length_radix_digits [of "unat w" k] by (simp add: fmt_hex_def pad_zero_def)
qed

text \<open>
  A vendor, product, subclass or protocol number that the tool prints is read back as
  the same number when it is given as an option, also with \<open>0x\<close> in front, and it is printed
  with exactly four or two digits.
\<close>

theorem print_parse_hex:
  "parse_hex_u16 (fmt_hex 4 v) = Inr v \<and> parse_hex_u16 (''0x'' @ fmt_hex 4 v) = Inr v
   \<and> parse_hex_u8 (fmt_hex 2 b) = Inr b \<and> parse_hex_u8 (''0x'' @ fmt_hex 2 b) = Inr b
   \<and> length (fmt_hex 4 v) = 4 \<and> length (fmt_hex 2 b) = 2"
proof -
  have "length (fmt_hex 4 v) = 4" "length (fmt_hex 2 b) = 2"
    using length_fmt_hex [of 3 v] length_fmt_hex [of 1 b] by (simp_all add: numeral_eq_Suc)
  then show ?thesis
    using parse_fmt_hex [of 0 4 v] parse_fmt_hex [of 1 4 v] parse_fmt_hex [of 0 2 b] parse_fmt_hex [of 1 2 b]
    by (simp add: parse_hex_u16_def parse_hex_u8_def)
qed

end
