(* ===== verification/Cli_Discover.thy ===== *)
theory Cli_Discover
  imports Cli_Args Host_Native
begin

text \<open>
  Finding UPC interfaces from the command line, \<open>src/bin/upc.rs\<close>: the device filters and the
  commands \<open>scan\<close> and \<open>list\<close>. The USB library enumerates the devices; each comes with what
  it answers when it is opened, probed and asked for its info, so that \<open>native_probe\<close> and
  \<open>native_info\<close> apply. A command is a function of these answers to the lines it prints
  (without the newline) and its exit code; logging by \<open>tracing::debug\<close> is left out. How
  errors are displayed is an argument, on errors of \<open>std::io\<close>: one that wraps an error of the USB
  library is displayed as that error is.
\<close>

section \<open>Devices as the USB library describes them\<close>

record interface_info =
  ii_number :: u8
  ii_class :: u8
  ii_subclass :: u8
  ii_protocol :: u8
  ii_string :: "string option"

record device_info =
  di_vendor_id :: u16
  di_product_id :: u16
  di_bus_id :: string
  di_address :: u8
  di_manufacturer :: "string option"
  di_product :: "string option"
  di_serial :: "string option"
  di_interfaces :: "interface_info list"

text \<open>
  An enumerated device: the error of opening it, if it fails, and what comes of a claim of
  each of its interfaces when it is probed and when its info is read; and, for a device that
  was selected, the error of opening it then and the environment of the connection attempt.
\<close>

type_synonym claim = "nusb_error + (control_in \<Rightarrow> transfer_error + bytes)"

record usb_device =
  ud_info :: device_info
  ud_open :: "nusb_error option"
  ud_probe_claim :: "u8 \<Rightarrow> claim"
  ud_info_claim :: "u8 \<Rightarrow> claim"
  ud_reopen :: "nusb_error option"
  ud_connect :: native_env

definition probe_of :: "usb_device \<Rightarrow> u8 \<Rightarrow> io_error + bool" where
  "probe_of d n = native_probe n (ud_probe_claim d n)"

definition info_of :: "usb_device \<Rightarrow> u8 \<Rightarrow> io_error + bytes" where
  "info_of d n = native_info n (ud_info_claim d n)"

section \<open>UTF-8\<close>

text \<open>\<open>std::str::from_utf8\<close>: the well-formed byte sequences of the Unicode standard.\<close>

definition utf8_cont :: "u8 \<Rightarrow> bool" where
  "utf8_cont b \<longleftrightarrow> 0x80 \<le> b \<and> b \<le> 0xbf"

fun utf8_valid :: "bytes \<Rightarrow> bool" where
  "utf8_valid [] \<longleftrightarrow> True"
| "utf8_valid (a # bs) \<longleftrightarrow>
     (if a \<le> 0x7f then utf8_valid bs
      else if 0xc2 \<le> a \<and> a \<le> 0xdf then
        (case bs of b # r \<Rightarrow> utf8_cont b \<and> utf8_valid r | _ \<Rightarrow> False)
      else if 0xe0 \<le> a \<and> a \<le> 0xef then
        (case bs of b # c # r \<Rightarrow>
           utf8_cont b \<and> (a = 0xe0 \<longrightarrow> 0xa0 \<le> b) \<and> (a = 0xed \<longrightarrow> b \<le> 0x9f) \<and> utf8_cont c \<and> utf8_valid r
         | _ \<Rightarrow> False)
      else if 0xf0 \<le> a \<and> a \<le> 0xf4 then
        (case bs of b # c # e # r \<Rightarrow>
           utf8_cont b \<and> (a = 0xf0 \<longrightarrow> 0x90 \<le> b) \<and> (a = 0xf4 \<longrightarrow> b \<le> 0x8f)
             \<and> utf8_cont c \<and> utf8_cont e \<and> utf8_valid r
         | _ \<Rightarrow> False)
      else False)"

definition string_of_bytes :: "bytes \<Rightarrow> string" where
  "string_of_bytes = map (char_of \<circ> unat)"

definition from_utf8 :: "bytes \<Rightarrow> string option" where
  "from_utf8 d = (if utf8_valid d then Some (string_of_bytes d) else None)"

definition unwrap_or :: "'a \<Rightarrow> 'a option \<Rightarrow> 'a" where
  "unwrap_or d x = (case x of None \<Rightarrow> d | Some v \<Rightarrow> v)"

definition info_string :: "bytes \<Rightarrow> string" where
  "info_string d = unwrap_or [] (from_utf8 d)"

section \<open>Filters\<close>

record device_filter =
  df_vid :: "u16 option"
  df_pid :: "u16 option"
  df_serial :: "string option"
  df_bus :: "string option"
  df_address :: "u8 option"
  df_interface :: "u8 option"
  df_subclass :: "u8 option"
  df_protocol :: "u8 option"

record scan_cmd =
  sc_vid :: "u16 option"
  sc_pid :: "u16 option"
  sc_serial :: "string option"
  sc_bus :: "string option"
  sc_address :: "u8 option"

text \<open>An option that is given and differs from the value.\<close>

definition differs :: "'a option \<Rightarrow> 'a \<Rightarrow> bool" where
  "differs x v = (case x of None \<Rightarrow> False | Some y \<Rightarrow> v \<noteq> y)"

definition filter_matches_device :: "device_filter \<Rightarrow> device_info \<Rightarrow> bool" where
  "filter_matches_device f d =
     (if differs (df_vid f) (di_vendor_id d) then False
      else if differs (df_pid f) (di_product_id d) then False
      else if differs (map_option Some (df_serial f)) (di_serial d) then False
      else if differs (df_bus f) (di_bus_id d) then False
      else if differs (df_address f) (di_address d) then False
      else True)"

definition matches_interface :: "device_filter \<Rightarrow> interface_info \<Rightarrow> bool" where
  "matches_interface f i =
     (if differs (df_interface f) (ii_number i) then False
      else if differs (df_subclass f) (ii_subclass i) then False
      else if differs (df_protocol f) (ii_protocol i) then False
      else True)"

definition scan_matches_device :: "scan_cmd \<Rightarrow> device_info \<Rightarrow> bool" where
  "scan_matches_device c d =
     (if differs (sc_vid c) (di_vendor_id d) then False
      else if differs (sc_pid c) (di_product_id d) then False
      else if differs (map_option Some (sc_serial c)) (di_serial d) then False
      else if differs (sc_bus c) (di_bus_id d) then False
      else if differs (sc_address c) (di_address d) then False
      else True)"

text \<open>What a filter means: every option that is given equals the device's value.\<close>

definition selected :: "'a option \<Rightarrow> 'a \<Rightarrow> bool" where
  "selected x v \<longleftrightarrow> x = None \<or> x = Some v"

lemma differs_iff [simp]: "differs x v \<longleftrightarrow> \<not> selected x v"
  by (auto simp: differs_def selected_def split: option.split)

section \<open>Output\<close>

text \<open>Lines on the standard output and the standard error.\<close>

datatype printed = Out string | Err string

fun stdout_lines :: "printed list \<Rightarrow> string list" where
  "stdout_lines [] = []"
| "stdout_lines (Out s # os) = s # stdout_lines os"
| "stdout_lines (Err s # os) = stdout_lines os"

lemma stdout_lines_append [simp]: "stdout_lines (a @ b) = stdout_lines a @ stdout_lines b"
  by (induction a rule: stdout_lines.induct) simp_all

definition SUCCESS :: nat where [code_consts]: "SUCCESS = 0"
definition FAILURE :: nat where [code_consts]: "FAILURE = 1"

definition tab :: string where
  "tab = [char_of (9::nat)]"

definition ids :: "device_info \<Rightarrow> string" where
  "ids d = fmt_hex 4 (di_vendor_id d) @ '':'' @ fmt_hex 4 (di_product_id d)"

definition location :: "device_info \<Rightarrow> string" where
  "location d = di_bus_id d @ '':'' @ fmt_dec 3 (di_address d)"

definition device_line :: "device_info \<Rightarrow> string" where
  "device_line d =
     ''Device '' @ ids d @ '' on '' @ location d
       @ '' - '' @ unwrap_or ''?'' (di_manufacturer d) @ '' '' @ unwrap_or ''?'' (di_product d)
       @ unwrap_or [] (map_option (\<lambda>s. '' (serial: '' @ s @ '')'') (di_serial d))"

definition interface_line :: "interface_info \<Rightarrow> string" where
  "interface_line i =
     (let c = class_new (ii_class i) (ii_subclass i) (ii_protocol i)
      in ''  Interface '' @ fmt_dec 0 (ii_number i)
           @ '': class='' @ fmt_hex 2 (class_code c) @ '' subclass='' @ fmt_hex 2 (sub_class c)
           @ '' protocol='' @ fmt_hex 2 (protocol c)
           @ unwrap_or [] (map_option (\<lambda>s. '' '' @ [CHR 0x22] @ s @ [CHR 0x22]) (ii_string i)))"

definition subclass_of :: "device_info \<Rightarrow> u8 \<Rightarrow> u8" where
  "subclass_of d n = unwrap_or 0 (map_option ii_subclass (find (\<lambda>i. ii_number i = n) (di_interfaces d)))"

definition result_line :: "device_info \<Rightarrow> u8 \<Rightarrow> string \<Rightarrow> string" where
  "result_line d n info_str =
     ids d @ tab @ location d @ tab @ unwrap_or [] (di_serial d) @ tab @ fmt_dec 0 n
       @ tab @ fmt_hex 2 (subclass_of d n) @ tab @ info_str"

section \<open>The command \<open>scan\<close>\<close>

definition vendor_ifaces :: "device_info \<Rightarrow> u8 list" where
  "vendor_ifaces d = map ii_number (filter (\<lambda>i. ii_class i = VENDOR_SPECIFIC) (di_interfaces d))"

text \<open>The info of an interface that was found; it is empty if it cannot be read.\<close>

definition scan_info :: "usb_device \<Rightarrow> u8 \<Rightarrow> string" where
  "scan_info d n = (case info_of d n of Inr i \<Rightarrow> info_string i | Inl e \<Rightarrow> [])"

text \<open>Probing the interfaces of a device: the lines, and whether one was found.\<close>

fun scan_ifaces :: "(io_error \<Rightarrow> string) \<Rightarrow> bool \<Rightarrow> usb_device \<Rightarrow> u8 list \<Rightarrow> printed list \<times> bool" where
  "scan_ifaces disp verbose d [] = ([], False)"
| "scan_ifaces disp verbose d (n # ns) =
     (let (ls, found) = scan_ifaces disp verbose d ns
      in case probe_of d n of
           Inr True \<Rightarrow>
             (let info_str = scan_info d n
              in ((if verbose then Out (''    UPC interface '' @ fmt_dec 0 n @ '': '' @ info_str)
                   else Out (result_line (ud_info d) n info_str)) # ls, True))
         | Inr False \<Rightarrow>
             ((if verbose then [Out (''    Interface '' @ fmt_dec 0 n @ '': not UPC'')] else []) @ ls, found)
         | Inl e \<Rightarrow>
             ((if verbose then [Out (''    Interface '' @ fmt_dec 0 n @ '': probe failed ('' @ disp e @ '')'')] else [])
                @ ls, found))"

definition scan_device :: "(io_error \<Rightarrow> string) \<Rightarrow> bool \<Rightarrow> scan_cmd \<Rightarrow> usb_device \<Rightarrow> printed list \<times> bool" where
  "scan_device disp verbose cmd d =
     (let info = ud_info d; ifaces = vendor_ifaces info
      in if \<not> scan_matches_device cmd info then ([], False)
         else if \<not> verbose \<and> ifaces = [] then ([], False)
         else
           (let header = (if verbose then Out (device_line info) # map (Out \<circ> interface_line) (di_interfaces info) else [])
            in if ifaces = [] then (header, False)
               else
                 (case ud_open d of
                    Some e \<Rightarrow> (header @ [Err (''Cannot open '' @ ids info @ '': '' @ disp (nusb_to_io_err e))], False)
                  | None \<Rightarrow> (let (ls, found) = scan_ifaces disp verbose d ifaces in (header @ ls, found)))))"

fun scan_devices :: "(io_error \<Rightarrow> string) \<Rightarrow> bool \<Rightarrow> scan_cmd \<Rightarrow> usb_device list \<Rightarrow> printed list \<times> bool" where
  "scan_devices disp verbose cmd [] = ([], False)"
| "scan_devices disp verbose cmd (d # ds) =
     (let (ls, found) = scan_device disp verbose cmd d; (ls', found') = scan_devices disp verbose cmd ds
      in (ls @ ls', found \<or> found'))"

definition scan_exec ::
  "(io_error \<Rightarrow> string) \<Rightarrow> bool \<Rightarrow> scan_cmd \<Rightarrow> nusb_error + usb_device list \<Rightarrow> printed list \<times> nat" where
  "scan_exec disp verbose cmd devices =
     (case devices of
        Inl e \<Rightarrow> ([Err (''Cannot enumerate USB devices: '' @ disp (nusb_to_io_err e))], FAILURE)
      | Inr ds \<Rightarrow>
          (let (ls, found) = scan_devices disp verbose cmd ds
           in (ls @ (if \<not> found \<and> \<not> verbose then [Err ''No UPC interfaces found.''] else []), SUCCESS)))"

section \<open>The command \<open>list\<close>\<close>

text \<open>
  Reading the info of the interfaces of a device, which is opened for the first of them; the
  loop ends if it cannot be opened.
\<close>

fun list_ifaces :: "(io_error \<Rightarrow> string) \<Rightarrow> bool \<Rightarrow> usb_device \<Rightarrow> bool \<Rightarrow> u8 list \<Rightarrow> printed list \<times> bool" where
  "list_ifaces disp verbose d opened [] = ([], False)"
| "list_ifaces disp verbose d opened (n # ns) =
     (case (if opened then None else ud_open d) of
        Some e \<Rightarrow> ([Err (''Cannot open device '' @ ids (ud_info d) @ '': '' @ disp (nusb_to_io_err e))], False)
      | None \<Rightarrow>
          (let (ls, found) = list_ifaces disp verbose d True ns
           in case info_of d n of
                Inl e \<Rightarrow>
                  (Err (''Cannot read UPC info on '' @ ids (ud_info d) @ '' interface '' @ fmt_dec 0 n
                      @ '': '' @ disp e) # ls, found)
              | Inr i \<Rightarrow>
                  ((if verbose then Out (''    UPC info: '' @ info_string i)
                    else Out (result_line (ud_info d) n (info_string i))) # ls, True)))"

definition upc_ifaces :: "device_filter \<Rightarrow> device_info \<Rightarrow> u8 list" where
  "upc_ifaces f d =
     map ii_number
       (filter (\<lambda>i. matches_interface f i \<and> (ii_class i = VENDOR_SPECIFIC \<or> df_interface f \<noteq> None))
         (di_interfaces d))"

definition list_device :: "(io_error \<Rightarrow> string) \<Rightarrow> bool \<Rightarrow> device_filter \<Rightarrow> usb_device \<Rightarrow> printed list \<times> bool" where
  "list_device disp verbose f d =
     (let info = ud_info d; ifaces = upc_ifaces f info
      in if \<not> filter_matches_device f info then ([], False)
         else if \<not> verbose \<and> ifaces = [] then ([], False)
         else
           (let header =
                  (if verbose
                   then Out (device_line info)
                     # map (Out \<circ> interface_line) (filter (matches_interface f) (di_interfaces info))
                   else []);
                (ls, found) = list_ifaces disp verbose d False ifaces
            in (header @ ls, found)))"

fun list_devices :: "(io_error \<Rightarrow> string) \<Rightarrow> bool \<Rightarrow> device_filter \<Rightarrow> usb_device list \<Rightarrow> printed list \<times> bool" where
  "list_devices disp verbose f [] = ([], False)"
| "list_devices disp verbose f (d # ds) =
     (let (ls, found) = list_device disp verbose f d; (ls', found') = list_devices disp verbose f ds
      in (ls @ ls', found \<or> found'))"

definition list_exec ::
  "(io_error \<Rightarrow> string) \<Rightarrow> bool \<Rightarrow> device_filter \<Rightarrow> nusb_error + usb_device list \<Rightarrow> printed list \<times> nat" where
  "list_exec disp verbose f devices =
     (case devices of
        Inl e \<Rightarrow> ([Err (''Cannot enumerate USB devices: '' @ disp (nusb_to_io_err e))], FAILURE)
      | Inr ds \<Rightarrow>
          (let (ls, found) = list_devices disp verbose f ds
           in (ls @ (if \<not> found \<and> \<not> verbose then [Err ''No UPC interfaces found.''] else []), SUCCESS)))"

section \<open>What the commands report\<close>

text \<open>
  The reference: of all devices that match and can be opened, the interfaces of the class
  that answer (the probe, or the request for info).
\<close>

definition scan_hits :: "scan_cmd \<Rightarrow> usb_device list \<Rightarrow> (usb_device \<times> u8) list" where
  "scan_hits cmd ds =
     concat (map (\<lambda>d. map (Pair d) (filter (\<lambda>n. probe_of d n = Inr True) (vendor_ifaces (ud_info d))))
       (filter (\<lambda>d. scan_matches_device cmd (ud_info d) \<and> ud_open d = None) ds))"

definition list_hits :: "device_filter \<Rightarrow> usb_device list \<Rightarrow> (usb_device \<times> u8) list" where
  "list_hits f ds =
     concat (map (\<lambda>d. map (Pair d) (filter (\<lambda>n. \<not> isl (info_of d n)) (upc_ifaces f (ud_info d))))
       (filter (\<lambda>d. filter_matches_device f (ud_info d) \<and> ud_open d = None) ds))"

definition hit_line :: "usb_device \<times> u8 \<Rightarrow> string" where
  "hit_line h = result_line (ud_info (fst h)) (snd h) (scan_info (fst h) (snd h))"

definition none_found :: printed where
  "none_found = Err ''No UPC interfaces found.''"

text \<open>What was printed and found fits a list of hits.\<close>

definition reports :: "(usb_device \<times> u8) list \<Rightarrow> printed list \<times> bool \<Rightarrow> bool" where
  "reports hits r \<longleftrightarrow>
     stdout_lines (fst r) = map hit_line hits \<and> (snd r \<longleftrightarrow> hits \<noteq> []) \<and> none_found \<notin> set (fst r)"

lemma reports_Nil: "reports [] ([], False)"
  by (simp add: reports_def)

lemma reports_append:
  "reports h r \<Longrightarrow> reports h' r' \<Longrightarrow> reports (h @ h') (fst r @ fst r', snd r \<or> snd r')"
  by (auto simp: reports_def)

lemma reports_result:
  "reports hits r \<Longrightarrow>
     stdout_lines (fst r @ (if \<not> snd r then [none_found] else [])) = map hit_line hits
     \<and> (none_found \<in> set (fst r @ (if \<not> snd r then [none_found] else [])) \<longleftrightarrow> hits = [])"
  by (auto simp: reports_def none_found_def)

lemma scan_ifaces_reports:
  "reports (map (Pair d) (filter (\<lambda>n. probe_of d n = Inr True) ns)) (scan_ifaces disp False d ns)"
  by (induction ns)
    (auto simp: reports_def hit_line_def none_found_def Let_def split: prod.split sum.split bool.split)

lemma scan_devices_reports: "reports (scan_hits cmd ds) (scan_devices disp False cmd ds)"
proof (induction ds)
  case (Cons d ds)
  have "reports (if scan_matches_device cmd (ud_info d) \<and> ud_open d = None
      then map (Pair d) (filter (\<lambda>n. probe_of d n = Inr True) (vendor_ifaces (ud_info d))) else [])
      (scan_device disp False cmd d)"
    using scan_ifaces_reports [of d "vendor_ifaces (ud_info d)" disp]
    by (auto simp: scan_device_def Let_def reports_Nil reports_def none_found_def split: option.split prod.split)
  from reports_append [OF this Cons.IH] show ?case
    by (auto simp: scan_hits_def Let_def case_prod_beta split: if_splits)
qed (simp add: scan_hits_def reports_Nil)

lemma list_ifaces_reports:
  "reports (if opened \<or> ud_open d = None then map (Pair d) (filter (\<lambda>n. \<not> isl (info_of d n)) ns) else [])
     (list_ifaces disp False d opened ns)"
proof (induction ns arbitrary: opened)
  case (Cons n ns)
  have "reports (map (Pair d) (filter (\<lambda>n. \<not> isl (info_of d n)) ns)) (list_ifaces disp False d True ns)"
    using Cons [of True] by simp
  then show ?case
    by (cases "info_of d n")
      (auto simp: reports_def hit_line_def none_found_def scan_info_def Let_def split: prod.split option.split)
qed (simp add: reports_Nil)

lemma list_devices_reports: "reports (list_hits f ds) (list_devices disp False f ds)"
proof (induction ds)
  case (Cons d ds)
  have "reports (if filter_matches_device f (ud_info d) \<and> ud_open d = None
      then map (Pair d) (filter (\<lambda>n. \<not> isl (info_of d n)) (upc_ifaces f (ud_info d))) else [])
      (list_device disp False f d)"
    using list_ifaces_reports [of False d "upc_ifaces f (ud_info d)" disp]
    by (auto simp: list_device_def Let_def reports_Nil split: prod.split if_split_asm)
  from reports_append [OF this Cons.IH] show ?case
    by (auto simp: list_hits_def Let_def case_prod_beta split: if_splits)
qed (simp add: list_hits_def reports_Nil)

lemma scan_exec_reports:
  "stdout_lines (fst (scan_exec disp False cmd (Inr ds))) = map hit_line (scan_hits cmd ds)
   \<and> (none_found \<in> set (fst (scan_exec disp False cmd (Inr ds))) \<longleftrightarrow> scan_hits cmd ds = [])
   \<and> snd (scan_exec disp False cmd (Inr ds)) = SUCCESS"
proof -
  have "scan_exec disp False cmd (Inr ds) =
      (fst (scan_devices disp False cmd ds) @ (if \<not> snd (scan_devices disp False cmd ds) then [none_found] else []), SUCCESS)"
    by (simp add: scan_exec_def none_found_def case_prod_beta)
  then show ?thesis using reports_result [OF scan_devices_reports [of cmd ds disp]] by simp
qed

lemma list_exec_reports:
  "stdout_lines (fst (list_exec disp False f (Inr ds))) = map hit_line (list_hits f ds)
   \<and> (none_found \<in> set (fst (list_exec disp False f (Inr ds))) \<longleftrightarrow> list_hits f ds = [])
   \<and> snd (list_exec disp False f (Inr ds)) = SUCCESS"
proof -
  have "list_exec disp False f (Inr ds) =
      (fst (list_devices disp False f ds) @ (if \<not> snd (list_devices disp False f ds) then [none_found] else []), SUCCESS)"
    by (simp add: list_exec_def none_found_def case_prod_beta)
  then show ?thesis using reports_result [OF list_devices_reports [of f ds disp]] by simp
qed

text \<open>
  C23. What \<open>scan\<close> and \<open>list\<close> print without the verbose option is one line for each interface
  that answers, of the devices that match the filter and can be opened, in the order of
  enumeration: for \<open>scan\<close> the vendor-specific interfaces whose probe succeeds, for \<open>list\<close>
  those the class filter selects and whose info can be read. That none was found is reported
  exactly when there is none, and the exit code is that of success.
\<close>

theorem discovery_reports:
  "stdout_lines (fst (scan_exec disp False cmd (Inr ds))) = map hit_line (scan_hits cmd ds)
   \<and> (none_found \<in> set (fst (scan_exec disp False cmd (Inr ds))) \<longleftrightarrow> scan_hits cmd ds = [])
   \<and> snd (scan_exec disp False cmd (Inr ds)) = SUCCESS
   \<and> stdout_lines (fst (list_exec disp False f (Inr ds))) = map hit_line (list_hits f ds)
   \<and> (none_found \<in> set (fst (list_exec disp False f (Inr ds))) \<longleftrightarrow> list_hits f ds = [])
   \<and> snd (list_exec disp False f (Inr ds)) = SUCCESS"
  using scan_exec_reports list_exec_reports by blast

end
