(* ===== verification/Cli_Forward.thy ===== *)
theory Cli_Forward
  imports Cli_Args Packet_Interfaces
begin

text \<open>
  Forwarding between standard input and output and a channel, \<open>forward_stdio\<close> of
  \<open>src/bin/upc.rs\<close>: the future that reads stdin and sends packets, the future that receives
  packets and writes stdout, the notification between them, and their join. Each future is
  a step function on its local variables and the point where it waits. The argument of a
  step tells what the operations awaited there would yield: the standard library's streams
  and the channel are parameters. The section on standard input runs the sending future on an
  explicit content of stdin; a read that fails takes nothing of it.
\<close>

definition is_broken_pipe :: "io_error \<Rightarrow> bool" where
  "is_broken_pipe err \<longleftrightarrow> kind err = BrokenPipe"

section \<open>From stdin to the channel\<close>

text \<open>
  The send future waits in its \<open>select!\<close>, or for the sends of the chunks that are left of a
  line. It ends by leaving the loop, which is followed by the clean-up, or by returning out
  of it.
\<close>

datatype send_pc =
    SendSelect
  | SendChunks "bytes list"
  | SendReturned "io_error + unit"
  | SendEnded "io_error + unit"
  | SendPanics

record send_state =
  sd_pc :: send_pc
  sd_sent :: "bytes list"
  sd_stdin_closed :: bool
  sd_notified :: bool

text \<open>
  A poll: whether the channel is closed, what the next line is, which bytes are available
  for a read, and what comes of a send.
\<close>

record send_poll =
  sp_closed :: bool
  sp_line :: "(io_error + bytes option) poll"
  sp_read :: "(io_error + bytes) poll"
  sp_send :: "bytes \<Rightarrow> (io_error + unit) poll"

text \<open>
  The buffer of the raw mode is allocated at the start, which panics for more than
  \<open>isize::MAX\<close> bytes.
\<close>

definition send_init :: "nat \<Rightarrow> framing \<Rightarrow> nat \<Rightarrow> send_state" where
  "send_init isize_max framing max_send =
     \<lparr>sd_pc = (if framing = Raw \<and> isize_max < max_send then SendPanics else SendSelect),
      sd_sent = [], sd_stdin_closed = False, sd_notified = False\<rparr>"

definition send_break :: "bool \<Rightarrow> bool \<Rightarrow> io_error + unit \<Rightarrow> send_state \<Rightarrow> send_state" where
  "send_break keep interactive res s =
     s\<lparr>sd_pc := SendEnded res,
       sd_stdin_closed := sd_stdin_closed s \<or> \<not> keep,
       sd_notified := sd_notified s \<or> interactive\<rparr>"

definition send_select :: "framing \<Rightarrow> bool \<Rightarrow> bool \<Rightarrow> nat \<Rightarrow> send_poll \<Rightarrow> send_state \<Rightarrow> send_state" where
  "send_select framing keep interactive max_send p s =
     (case framing of
        Line \<Rightarrow>
          if sp_closed p then send_break keep interactive (Inr ()) s
          else
            (case sp_line p of
               Pending \<Rightarrow> s
             | Ready (Inr (Some line)) \<Rightarrow>
                 (let data = line @ [0x0a]
                  in if max_send = 0 then s\<lparr>sd_pc := SendPanics\<rparr>
                     else s\<lparr>sd_pc := SendChunks (parts max_send data)\<rparr>)
             | Ready (Inr None) \<Rightarrow> send_break keep interactive (Inr ()) s
             | Ready (Inl err) \<Rightarrow> send_break keep interactive (Inl err) s)
      | Raw \<Rightarrow>
          if sp_closed p then send_break keep interactive (Inr ()) s
          else
            (case sp_read p of
               Pending \<Rightarrow> s
             | Ready (Inr available) \<Rightarrow>
                 (let data = take max_send available
                  in if data = [] then send_break keep interactive (Inr ()) s
                     else s\<lparr>sd_pc := SendChunks [data]\<rparr>)
             | Ready (Inl err) \<Rightarrow> send_break keep interactive (Inl err) s)
      | Auto \<Rightarrow> s\<lparr>sd_pc := SendPanics\<rparr>)"

definition send_chunks :: "send_poll \<Rightarrow> bytes list \<Rightarrow> send_state \<Rightarrow> send_state" where
  "send_chunks p chunks s =
     (case chunks of
        [] \<Rightarrow> s\<lparr>sd_pc := SendSelect\<rparr>
      | chunk # rest \<Rightarrow>
          (case sp_send p chunk of
             Pending \<Rightarrow> s
           | Ready (Inr _) \<Rightarrow> s\<lparr>sd_pc := SendChunks rest, sd_sent := sd_sent s @ [chunk]\<rparr>
           | Ready (Inl err) \<Rightarrow>
               s\<lparr>sd_pc := SendReturned (if is_broken_pipe err then Inr () else Inl err)\<rparr>))"

definition send_step :: "framing \<Rightarrow> bool \<Rightarrow> bool \<Rightarrow> nat \<Rightarrow> send_poll \<Rightarrow> send_state \<Rightarrow> send_state" where
  "send_step framing keep interactive max_send p s =
     (case sd_pc s of
        SendSelect \<Rightarrow> send_select framing keep interactive max_send p s
      | SendChunks chunks \<Rightarrow> send_chunks p chunks s
      | _ \<Rightarrow> s)"

lemmas send_step_defs = send_step_def send_select_def send_chunks_def send_break_def

section \<open>From the channel to stdout\<close>

record recv_state =
  rv_done :: "(io_error + unit) option"
  rv_written :: "bytes list"
  rv_stdin_done :: bool
  rv_idle :: "nat option"
  rv_stdout_closed :: bool

text \<open>
  A poll: what the channel yields, what comes of writing and flushing a packet, and the time.
  The idle timer is \<open>None\<close> while it is set to \<open>Duration::MAX\<close>. \<open>select!\<close> takes any branch that
  is ready: which one it tries is an argument, and a branch that is not ready does nothing.
\<close>

record recv_poll =
  vp_recv :: "(io_error + bytes option) poll"
  vp_write :: "bytes \<Rightarrow> io_error + unit"
  vp_now :: nat

datatype recv_branch = BranchRecv | BranchNotified | BranchIdle

definition recv_init :: recv_state where
  "recv_init =
     \<lparr>rv_done = None, rv_written = [], rv_stdin_done = False, rv_idle = None, rv_stdout_closed = False\<rparr>"

definition recv_break :: "bool \<Rightarrow> io_error + unit \<Rightarrow> recv_state \<Rightarrow> recv_state" where
  "recv_break keep res s =
     s\<lparr>rv_done := Some res, rv_stdout_closed := rv_stdout_closed s \<or> \<not> keep\<rparr>"

definition recv_packet_arrived :: "bool \<Rightarrow> recv_poll \<Rightarrow> recv_state \<Rightarrow> recv_state" where
  "recv_packet_arrived keep p s =
     (case vp_recv p of
        Pending \<Rightarrow> s
      | Ready (Inr (Some data)) \<Rightarrow>
          (let s = (if rv_stdin_done s then s\<lparr>rv_idle := Some (vp_now p + IDLE_TIMEOUT)\<rparr> else s)
           in case vp_write p data of
                Inl err \<Rightarrow> recv_break keep (if is_broken_pipe err then Inr () else Inl err) s
              | Inr _ \<Rightarrow> s\<lparr>rv_written := rv_written s @ [data]\<rparr>)
      | Ready (Inr None) \<Rightarrow> recv_break keep (Inr ()) s
      | Ready (Inl err) \<Rightarrow> recv_break keep (if is_broken_pipe err then Inr () else Inl err) s)"

definition recv_step :: "bool \<Rightarrow> bool \<Rightarrow> recv_branch \<Rightarrow> recv_poll \<Rightarrow> recv_state \<Rightarrow> recv_state" where
  "recv_step keep notified branch p s =
     (if rv_done s \<noteq> None then s
      else
        (case branch of
           BranchRecv \<Rightarrow> recv_packet_arrived keep p s
         | BranchNotified \<Rightarrow>
             if notified \<and> \<not> rv_stdin_done s
             then s\<lparr>rv_stdin_done := True, rv_idle := Some (vp_now p + IDLE_TIMEOUT)\<rparr> else s
         | BranchIdle \<Rightarrow>
             (case rv_idle s of
                Some t \<Rightarrow> if t \<le> vp_now p then recv_break keep (Inr ()) s else s
              | None \<Rightarrow> s)))"

section \<open>Both together\<close>

record forward_state =
  fw_send :: send_state
  fw_recv :: recv_state

datatype forward_event = StdinTurn send_poll | StdoutTurn recv_branch recv_poll

datatype forward_end = Joined "io_error + unit" | ForwardPanics

text \<open>\<open>try_join!\<close>: the first error, or both results.\<close>

definition forward_result :: "forward_state \<Rightarrow> forward_end option" where
  "forward_result f =
     (let sent = (case sd_pc (fw_send f) of SendReturned r \<Rightarrow> Some r | SendEnded r \<Rightarrow> Some r | _ \<Rightarrow> None)
      in if sd_pc (fw_send f) = SendPanics then Some ForwardPanics
         else
           (case (sent, rv_done (fw_recv f)) of
              (Some (Inl e), _) \<Rightarrow> Some (Joined (Inl e))
            | (_, Some (Inl e)) \<Rightarrow> Some (Joined (Inl e))
            | (Some (Inr _), Some (Inr _)) \<Rightarrow> Some (Joined (Inr ()))
            | _ \<Rightarrow> None))"

text \<open>
  A turn of one of the futures; the permit of the notification is used up when the receiving
  future has taken it, which it then no longer awaits.
\<close>

definition forward_step ::
  "framing \<Rightarrow> bool \<Rightarrow> bool \<Rightarrow> nat \<Rightarrow> forward_event \<Rightarrow> forward_state \<Rightarrow> forward_state" where
  "forward_step framing keep interactive max_send ev f =
     (if forward_result f \<noteq> None then f
      else
        (case ev of
           StdinTurn p \<Rightarrow>
             f\<lparr>fw_send := send_step (resolve_framing interactive framing) keep interactive max_send p (fw_send f)\<rparr>
         | StdoutTurn br p \<Rightarrow>
             f\<lparr>fw_recv := recv_step keep (sd_notified (fw_send f)) br p (fw_recv f)\<rparr>))"

definition forward_init :: "nat \<Rightarrow> framing \<Rightarrow> bool \<Rightarrow> nat \<Rightarrow> forward_state" where
  "forward_init isize_max framing interactive max_send =
     \<lparr>fw_send = send_init isize_max (resolve_framing interactive framing) max_send, fw_recv = recv_init\<rparr>"

section \<open>Standard input\<close>

text \<open>
  The content of stdin as the two ways of reading it take it. \<open>next_line\<close> is the operation of
  that name: the bytes up to a newline, without it and without a carriage return before it,
  or those up to the end of the input; nothing at the end.
\<close>

definition strip_cr :: "bytes \<Rightarrow> bytes" where
  "strip_cr l = (if l \<noteq> [] \<and> last l = 0x0d then butlast l else l)"

definition next_line :: "bytes \<Rightarrow> (bytes \<times> bytes) option" where
  "next_line input =
     (if input = [] then None
      else
        (let l = takeWhile (\<lambda>b. b \<noteq> 0x0a) input
         in case dropWhile (\<lambda>b. b \<noteq> 0x0a) input of
              [] \<Rightarrow> Some (l, [])
            | newline # rest \<Rightarrow> Some (strip_cr l, rest)))"

lemma next_line_shorter: "next_line input = Some (l, rest) \<Longrightarrow> length rest < length input"
  using length_dropWhile_le [of "\<lambda>b. b \<noteq> 0x0a" input]
  by (auto simp: next_line_def Let_def split: if_splits list.splits)

function lines_of :: "bytes \<Rightarrow> bytes list" where
  "lines_of input = (case next_line input of None \<Rightarrow> [] | Some (l, rest) \<Rightarrow> l # lines_of rest)"
  by pat_completeness auto
termination
  by (relation "measure length") (auto dest: next_line_shorter)

declare lines_of.simps [simp del]

lemma lines_of_simps [simp]: "next_line [] = None" "lines_of [] = []"
  by (simp_all add: lines_of.simps next_line_def)

lemma next_line_None: "next_line input = None \<longleftrightarrow> input = []"
  by (simp add: next_line_def Let_def split: list.split)

text \<open>
  What forwarding makes of the whole of stdin: the input itself, or its lines, each with a
  newline. These are the same for lines that all end in a newline without carriage returns.
\<close>

definition add_newline :: "bytes \<Rightarrow> bytes" where
  "add_newline l = l @ [0x0a]"

definition stdin_text :: "framing \<Rightarrow> bytes \<Rightarrow> bytes" where
  "stdin_text framing input = (if framing = Line then concat (map add_newline (lines_of input)) else input)"

definition plain_lines :: "bytes \<Rightarrow> bool" where
  "plain_lines input \<longleftrightarrow> 0x0d \<notin> set input \<and> (input = [] \<or> last input = 0x0a)"

lemma next_line_plain:
  assumes "plain_lines input" and "next_line input = Some (l, rest)"
  shows "input = add_newline l @ rest \<and> plain_lines rest"
proof (cases "dropWhile (\<lambda>b. b \<noteq> 0x0a) input")
  case Nil
  then have "0x0a \<notin> set input" by (auto simp: dropWhile_eq_Nil_conv)
  moreover have "input \<noteq> []" using assms(2) by (auto simp: next_line_def)
  ultimately show ?thesis using assms(1) last_in_set [of input] by (auto simp: plain_lines_def)
next
  case (Cons b bs)
  then have b: "b = 0x0a" using hd_dropWhile [of "\<lambda>b. b \<noteq> 0x0a" input] by auto
  have split: "input = takeWhile (\<lambda>b. b \<noteq> 0x0a) input @ 0x0a # bs"
    using takeWhile_dropWhile_id [of "\<lambda>b. b \<noteq> 0x0a" input] Cons b by simp
  then have "input \<noteq> []" by auto
  moreover have "0x0d \<notin> set (takeWhile (\<lambda>b. b \<noteq> 0x0a) input)"
    using assms(1) by (auto simp: plain_lines_def dest: set_takeWhileD)
  moreover from this have "strip_cr (takeWhile (\<lambda>b. b \<noteq> 0x0a) input) = takeWhile (\<lambda>b. b \<noteq> 0x0a) input"
    using last_in_set by (fastforce simp: strip_cr_def)
  ultimately have l: "l = takeWhile (\<lambda>b. b \<noteq> 0x0a) input" "rest = bs"
    using assms(2) Cons by (simp_all add: next_line_def Let_def)
  have "plain_lines (takeWhile (\<lambda>b. b \<noteq> 0x0a) input @ 0x0a # bs)" using assms(1) split by simp
  then have "plain_lines bs" by (auto simp: plain_lines_def split: if_splits)
  then show ?thesis using split l by (simp add: add_newline_def)
qed

lemma stdin_text_plain:
  assumes "framing = Line \<longrightarrow> plain_lines input"
  shows "stdin_text framing input = input"
proof (cases "framing = Line")
  case True
  then have "plain_lines input" using assms by simp
  then have "concat (map add_newline (lines_of input)) = input"
  proof (induction input rule: lines_of.induct)
    case (1 input)
    then show ?case
      using next_line_plain [OF 1(2)]
      by (cases "next_line input") (auto simp: lines_of.simps [of input] next_line_None)
  qed
  with True show ?thesis by (simp add: stdin_text_def)
qed (simp add: stdin_text_def)

text \<open>
  A turn of the send future on an input: whether the channel is closed, whether a read has a
  result, which may be an error, how many bytes more than one are available, and what comes of a
  send. What \<open>select!\<close> reads is gone from the input, whatever becomes of it.
\<close>

record stdin_turn =
  tn_closed :: bool
  tn_ready :: "io_error option poll"
  tn_more :: nat
  tn_send :: "bytes \<Rightarrow> (io_error + unit) poll"

definition turn_poll :: "stdin_turn \<Rightarrow> bytes \<Rightarrow> send_poll" where
  "turn_poll t input =
     \<lparr>sp_closed = tn_closed t,
      sp_line = (case tn_ready t of
          Pending \<Rightarrow> Pending
        | Ready (Some e) \<Rightarrow> Ready (Inl e)
        | Ready None \<Rightarrow> Ready (Inr (map_option fst (next_line input)))),
      sp_read = (case tn_ready t of
          Pending \<Rightarrow> Pending
        | Ready (Some e) \<Rightarrow> Ready (Inl e)
        | Ready None \<Rightarrow> Ready (Inr (take (Suc (tn_more t)) input))),
      sp_send = tn_send t\<rparr>"

definition after_read :: "framing \<Rightarrow> nat \<Rightarrow> nat \<Rightarrow> bytes \<Rightarrow> bytes" where
  "after_read framing max_send extra input =
     (if framing = Line then (case next_line input of None \<Rightarrow> [] | Some (l, rest) \<Rightarrow> rest)
      else drop (min max_send (Suc extra)) input)"

definition stdin_step ::
  "framing \<Rightarrow> bool \<Rightarrow> bool \<Rightarrow> nat \<Rightarrow> stdin_turn \<Rightarrow> bytes \<times> send_state \<Rightarrow> bytes \<times> send_state" where
  "stdin_step framing keep interactive max_send t is =
     (case is of (input, s) \<Rightarrow>
        ((if sd_pc s = SendSelect \<and> \<not> tn_closed t \<and> tn_ready t = Ready None
          then after_read framing max_send (tn_more t) input else input),
         send_step framing keep interactive max_send (turn_poll t input) s))"

section \<open>What is sent\<close>

text \<open>The packets that a line or a read becomes.\<close>

definition framed :: "framing \<Rightarrow> nat \<Rightarrow> bytes \<Rightarrow> bytes list" where
  "framed framing max_send data = (if framing = Line then parts max_send data else [data])"

definition packet_fits :: "nat \<Rightarrow> bytes \<Rightarrow> bool" where
  "packet_fits max_send c \<longleftrightarrow> c \<noteq> [] \<and> length c \<le> max_send"

definition pending_chunks :: "send_state \<Rightarrow> bytes list" where
  "pending_chunks s = (case sd_pc s of SendChunks cs \<Rightarrow> cs | _ \<Rightarrow> [])"

definition returned :: "send_state \<Rightarrow> bool" where
  "returned s \<longleftrightarrow> (case sd_pc s of SendReturned r \<Rightarrow> True | _ \<Rightarrow> False)"

text \<open>\<open>ds\<close> has been taken from the input and \<open>rest\<close> is left of it.\<close>

definition stdin_split :: "framing \<Rightarrow> bytes \<Rightarrow> bytes list \<Rightarrow> bytes \<Rightarrow> bool" where
  "stdin_split framing input ds rest \<longleftrightarrow>
     (if framing = Line then map add_newline (lines_of input) = ds @ map add_newline (lines_of rest)
      else input = concat ds @ rest)"

lemma stdin_split_text: "stdin_split framing input ds rest \<Longrightarrow> stdin_text framing input = concat ds @ stdin_text framing rest"
  by (auto simp: stdin_split_def stdin_text_def split: if_splits)

text \<open>
  Every packet fits, and stdin is closed and the other future notified exactly when the loop has
  been left.
\<close>

definition send_inv :: "framing \<Rightarrow> bool \<Rightarrow> bool \<Rightarrow> nat \<Rightarrow> send_state \<Rightarrow> bool" where
  "send_inv framing keep interactive max_send s \<longleftrightarrow>
     list_all (packet_fits max_send) (sd_sent s) \<and> list_all (packet_fits max_send) (pending_chunks s)
     \<and> (case sd_pc s of
          SendEnded r \<Rightarrow> sd_stdin_closed s = (\<not> keep) \<and> sd_notified s = interactive
        | _ \<Rightarrow> \<not> sd_stdin_closed s \<and> \<not> sd_notified s)"

lemma parts_fit: "0 < n \<Longrightarrow> list_all (packet_fits n) (parts n m)"
proof (induction m rule: length_induct)
  case (1 m)
  then show ?case by (cases "m = []") (simp_all add: parts.simps [of n m] packet_fits_def)
qed

interpretation send: invariant_run "send_step framing keep interactive max_send"
    "send_inv framing keep interactive max_send" "send_init isize_max framing max_send"
  for framing keep interactive max_send isize_max
proof unfold_locales
  show "send_inv framing keep interactive max_send (send_init isize_max framing max_send)"
    by (simp add: send_inv_def send_init_def pending_chunks_def)
next
  fix s p assume "send_inv framing keep interactive max_send s"
  moreover have "packet_fits max_send (take max_send d)" if "take max_send d \<noteq> []" for d
    using that by (simp add: packet_fits_def)
  ultimately show "send_inv framing keep interactive max_send (send_step framing keep interactive max_send p s)"
    using parts_fit [of max_send]
    by (cases "sd_pc s"; cases framing)
      (auto simp: send_step_defs send_inv_def pending_chunks_def Let_def
        split: poll.split sum.split option.split list.split)
qed

text \<open>
  The packets sent, those being sent and those given up by an early return are the ones into
  which the lines or reads taken from stdin are framed.
\<close>

definition stdin_inv :: "framing \<Rightarrow> nat \<Rightarrow> bytes \<Rightarrow> bytes \<times> send_state \<Rightarrow> bool" where
  "stdin_inv framing max_send input is \<longleftrightarrow>
     (case is of (rest, s) \<Rightarrow>
        \<exists>ds unsent. stdin_split framing input ds rest
          \<and> sd_sent s @ pending_chunks s @ unsent = concat (map (framed framing max_send) ds)
          \<and> (unsent \<noteq> [] \<longrightarrow> returned s))"

lemma stdin_invD:
  assumes "stdin_inv framing max_send input (rest, s)" and "\<not> returned s"
  obtains ds where "stdin_split framing input ds rest"
    "sd_sent s @ pending_chunks s = concat (map (framed framing max_send) ds)"
  using assms by (auto simp: stdin_inv_def)

lemma stdin_inv_unsentI:
  "stdin_split framing input ds rest \<Longrightarrow>
     sd_sent s @ pending_chunks s @ unsent = concat (map (framed framing max_send) ds) \<Longrightarrow>
     (unsent \<noteq> [] \<Longrightarrow> returned s) \<Longrightarrow> stdin_inv framing max_send input (rest, s)"
  unfolding stdin_inv_def prod.case by blast

lemmas stdin_invI = stdin_inv_unsentI [where unsent = "[]", simplified]

text \<open>Taking one more line or read from the input.\<close>

lemma split_line:
  "stdin_split Line input ds rest \<Longrightarrow> next_line rest = Some (l, rest') \<Longrightarrow> stdin_split Line input (ds @ [add_newline l]) rest'"
  by (simp add: stdin_split_def lines_of.simps [of rest])

lemma split_read:
  "framing \<noteq> Line \<Longrightarrow> stdin_split framing input ds rest \<Longrightarrow>
     stdin_split framing input (ds @ [take max_send (take n rest)]) (drop (min max_send n) rest)"
  by (simp add: stdin_split_def min.commute)

lemma stdin_select_inv:
  assumes "stdin_inv framing max_send input (rest, s)" and "sd_pc s = SendSelect" and "0 < max_send"
    and "framing \<noteq> Auto"
  shows "stdin_inv framing max_send input (stdin_step framing keep interactive max_send t (rest, s))"
proof -
  have "\<not> returned s" using assms(2) by (simp add: returned_def)
  from stdin_invD [OF assms(1) this] obtain ds where split: "stdin_split framing input ds rest"
    and sent: "sd_sent s @ pending_chunks s = concat (map (framed framing max_send) ds)" by metis
  have none: "pending_chunks s = []" using assms(2) by (simp add: pending_chunks_def)
  show ?thesis
  proof (cases "\<not> tn_closed t \<and> tn_ready t = Ready None")
    case False
    then have "stdin_step framing keep interactive max_send t (rest, s)
        = (rest, send_select framing keep interactive max_send (turn_poll t rest) s)"
      using False assms(2) by (auto simp: stdin_step_def send_step_def)
    moreover have "sd_sent (send_select framing keep interactive max_send (turn_poll t rest) s)
        @ pending_chunks (send_select framing keep interactive max_send (turn_poll t rest) s) = sd_sent s @ pending_chunks s"
      using False assms(2,4)
      by (cases framing) (auto simp: send_select_def send_break_def turn_poll_def pending_chunks_def
          split: poll.split option.split)
    ultimately show ?thesis using split sent by (metis stdin_invI)
  next
    case ready: True
    show ?thesis
    proof (cases framing)
      case Line
      show ?thesis
      proof (cases "next_line rest")
        case None
        then show ?thesis
          using ready assms(2) split sent none Line
          by (auto simp: stdin_step_def send_step_defs turn_poll_def after_read_def next_line_None pending_chunks_def
              intro!: stdin_invI)
      next
        case (Some lr)
        obtain l rest' where l: "lr = (l, rest')" by fastforce
        have "stdin_step framing keep interactive max_send t (rest, s)
            = (rest', s\<lparr>sd_pc := SendChunks (parts max_send (add_newline l))\<rparr>)"
          using ready assms(2,3) Line Some l
          by (simp add: stdin_step_def send_step_defs turn_poll_def after_read_def add_newline_def Let_def)
        moreover have "stdin_split framing input (ds @ [add_newline l]) rest'"
          using split_line split Line Some l by simp
        ultimately show ?thesis
          using sent none Line by (simp add: stdin_invI pending_chunks_def framed_def)
      qed
    next
      case Raw
      let ?d = "take max_send (take (Suc (tn_more t)) rest)"
      show ?thesis
      proof (cases "?d = []")
        case True
        then have "rest = []" using assms(3) by (cases rest) simp_all
        then show ?thesis
          using ready assms(2) split sent none Raw
          by (auto simp: stdin_step_def send_step_defs turn_poll_def after_read_def pending_chunks_def
              intro!: stdin_invI)
      next
        case False
        then have "stdin_step framing keep interactive max_send t (rest, s)
            = (drop (min max_send (Suc (tn_more t))) rest, s\<lparr>sd_pc := SendChunks [?d]\<rparr>)"
          using ready assms(2,3) Raw
          by (auto simp: stdin_step_def send_step_defs turn_poll_def after_read_def Let_def)
        moreover have "stdin_split framing input (ds @ [?d]) (drop (min max_send (Suc (tn_more t))) rest)"
          using split_read split Raw by simp
        ultimately show ?thesis
          using sent none Raw by (simp add: stdin_invI pending_chunks_def framed_def)
      qed
    qed (use assms(4) in simp)
  qed
qed

lemma stdin_chunks_inv:
  assumes "stdin_inv framing max_send input (rest, s)" and "sd_pc s = SendChunks cs"
  shows "stdin_inv framing max_send input (stdin_step framing keep interactive max_send t (rest, s))"
proof -
  have "\<not> returned s" using assms(2) by (simp add: returned_def)
  from stdin_invD [OF assms(1) this] obtain ds where split: "stdin_split framing input ds rest"
    and sent: "sd_sent s @ cs = concat (map (framed framing max_send) ds)"
    using assms(2) by (auto simp: pending_chunks_def)
  let ?s = "send_chunks (turn_poll t rest) cs s"
  have "sd_sent ?s @ pending_chunks ?s @ (if returned ?s then cs else []) = sd_sent s @ cs"
    using assms(2)
    by (auto simp: send_chunks_def pending_chunks_def returned_def split: list.split poll.split sum.split)
  then have "sd_sent ?s @ pending_chunks ?s @ (if returned ?s then cs else []) = concat (map (framed framing max_send) ds)"
    using sent by simp
  moreover have "stdin_step framing keep interactive max_send t (rest, s) = (rest, ?s)"
    using assms(2) by (simp add: stdin_step_def send_step_def)
  ultimately show ?thesis
    using stdin_inv_unsentI [OF split, of ?s "if returned ?s then cs else []"] by (simp split: if_splits)
qed

lemma stdin_step_inv:
  assumes "stdin_inv framing (Suc k) input is" and "framing \<noteq> Auto"
  shows "stdin_inv framing (Suc k) input (stdin_step framing keep interactive (Suc k) t is)"
proof -
  obtain rest s where "is": "is = (rest, s)" by fastforce
  show ?thesis
    using assms unfolding "is"
    by (cases "sd_pc s")
      (simp_all add: stdin_select_inv stdin_chunks_inv, simp_all add: stdin_step_def send_step_def)
qed

interpretation stdin: invariant_run "stdin_step (resolve_framing interactive framing) keep interactive (Suc k)"
    "stdin_inv (resolve_framing interactive framing) (Suc k) input"
    "(input, send_init isize_max (resolve_framing interactive framing) (Suc k))"
  for framing keep interactive k isize_max input
proof unfold_locales
  show "stdin_inv (resolve_framing interactive framing) (Suc k) input
      (input, send_init isize_max (resolve_framing interactive framing) (Suc k))"
    by (rule stdin_invI [of _ _ "[]"]) (simp_all add: stdin_split_def send_init_def pending_chunks_def)
qed (simp add: stdin_step_inv resolve_framing_def split: framing.split)

text \<open>While the channel is not closed, the loop is left without error only at the end of stdin.\<close>

lemma stdin_end_step:
  assumes "\<not> tn_closed t" and "0 < max_send" and "sd_pc s = SendEnded (Inr ()) \<longrightarrow> rest = []"
    and "stdin_step framing keep interactive max_send t (rest, s) = (rest', s')"
  shows "sd_pc s' = SendEnded (Inr ()) \<longrightarrow> rest' = []"
  using assms
  by (cases framing; cases "sd_pc s")
    (auto simp: stdin_step_def send_step_defs turn_poll_def after_read_def next_line_None Let_def
      split: if_splits poll.splits option.splits list.splits sum.splits)

lemma stdin_end:
  "\<forall>t\<in>set ts. \<not> tn_closed t \<Longrightarrow> 0 < max_send \<Longrightarrow> (sd_pc s = SendEnded (Inr ()) \<longrightarrow> rest = []) \<Longrightarrow>
     fold (stdin_step framing keep interactive max_send) ts (rest, s) = (rest', s') \<Longrightarrow>
     sd_pc s' = SendEnded (Inr ()) \<longrightarrow> rest' = []"
proof (induction ts arbitrary: rest s)
  case (Cons t ts)
  obtain r u where step: "stdin_step framing keep interactive max_send t (rest, s) = (r, u)" by fastforce
  have "sd_pc u = SendEnded (Inr ()) \<longrightarrow> r = []"
    using stdin_end_step [OF _ Cons.prems(2,3) step] Cons.prems(1) by simp
  from Cons.IH [OF _ Cons.prems(2) this] Cons.prems(1,4) step show ?case by simp
qed simp

lemma stdin_step_state:
  "\<exists>ps. snd (fold (stdin_step framing keep interactive max_send) ts is)
     = fold (send_step framing keep interactive max_send) ps (snd is)"
proof (induction ts arbitrary: "is")
  case Nil
  show ?case by (intro exI [of _ "[]"]) simp
next
  case (Cons t ts)
  obtain ps where ps: "snd (fold (stdin_step framing keep interactive max_send) ts
      (stdin_step framing keep interactive max_send t is))
    = fold (send_step framing keep interactive max_send) ps (snd (stdin_step framing keep interactive max_send t is))"
    using Cons.IH by blast
  have "snd (stdin_step framing keep interactive max_send t is)
      = send_step framing keep interactive max_send (turn_poll t (fst is)) (snd is)"
    by (cases "is") (simp add: stdin_step_def)
  with ps show ?case by (intro exI [of _ "turn_poll t (fst is) # ps"]) simp
qed

lemma concat_framed:
  assumes "0 < max_send"
  shows "concat (concat (map (framed framing max_send) ds)) = concat ds"
  using assms by (induction ds) (simp_all add: framed_def concat_parts)

text \<open>
  What a run has sent, on an input, as the lemmas on both ends of a cable use it.
\<close>

lemma forward_sent:
  assumes "(rest, s) = fold (stdin_step (resolve_framing interactive framing) keep interactive max_send) ts
        (input, send_init isize_max (resolve_framing interactive framing) max_send)"
    and "0 < max_send"
  shows "\<exists>ds unsent. stdin_split (resolve_framing interactive framing) input ds rest
        \<and> sd_sent s @ pending_chunks s @ unsent = concat (map (framed (resolve_framing interactive framing) max_send) ds)
        \<and> (unsent \<noteq> [] \<longrightarrow> returned s)"
    and "send_inv (resolve_framing interactive framing) keep interactive max_send s"
    and "\<forall>t\<in>set ts. \<not> tn_closed t \<Longrightarrow> sd_pc s = SendEnded (Inr ()) \<Longrightarrow> rest = []"
proof -
  let ?f = "resolve_framing interactive framing"
  obtain k where k: "max_send = Suc k" using assms(2) gr0_implies_Suc by blast
  have "stdin_inv ?f max_send input (rest, s)" unfolding assms(1) k by (rule stdin.reachable_inv)
  then show "\<exists>ds unsent. stdin_split ?f input ds rest
      \<and> sd_sent s @ pending_chunks s @ unsent = concat (map (framed ?f max_send) ds) \<and> (unsent \<noteq> [] \<longrightarrow> returned s)"
    by (simp add: stdin_inv_def)
  obtain ps where "s = fold (send_step ?f keep interactive max_send) ps (send_init isize_max ?f max_send)"
    using stdin_step_state [of ?f keep interactive max_send ts "(input, send_init isize_max ?f max_send)"]
      arg_cong [OF assms(1), of snd] by auto
  then show "send_inv ?f keep interactive max_send s" using send.reachable_inv by metis
  show "rest = []" if "\<forall>t\<in>set ts. \<not> tn_closed t" and "sd_pc s = SendEnded (Inr ())"
    using stdin_end [OF that(1) assms(2) _ assms(1) [symmetric]] that(2) by (simp add: send_init_def)
qed

text \<open>
  C24. What is forwarded from stdin, under any timing, on a channel whose limit is not 0: the packets sent, those being sent and
  those given up when a send fails are, in order, the ones into which the lines or reads
  taken from the input are cut, each line with a newline; every packet has at least a byte and
  fits the limit of the channel. When the future ends by leaving its loop, all that was taken
  was sent, and stdin is closed unless the connection is one of several, and the receiving
  future is notified on a terminal. When it ended so without error although the channel
  was never closed, the whole input was sent.
\<close>

theorem forward_sends:
  assumes "(rest, s) = fold (stdin_step (resolve_framing interactive framing) keep interactive max_send) ts
        (input, send_init isize_max (resolve_framing interactive framing) max_send)"
    and "0 < max_send"
  shows "(\<exists>ds unsent. stdin_split (resolve_framing interactive framing) input ds rest
        \<and> sd_sent s @ pending_chunks s @ unsent = concat (map (framed (resolve_framing interactive framing) max_send) ds)
        \<and> (unsent \<noteq> [] \<longrightarrow> returned s))
    \<and> list_all (packet_fits max_send) (sd_sent s)
    \<and> (sd_pc s = SendEnded r \<longrightarrow>
         concat (sd_sent s) @ stdin_text (resolve_framing interactive framing) rest
           = stdin_text (resolve_framing interactive framing) input
         \<and> sd_stdin_closed s = (\<not> keep) \<and> sd_notified s = interactive)
    \<and> (sd_pc s = SendEnded (Inr ()) \<and> (\<forall>t\<in>set ts. \<not> tn_closed t) \<longrightarrow>
         concat (sd_sent s) = stdin_text (resolve_framing interactive framing) input)"
proof -
  let ?f = "resolve_framing interactive framing"
  note sent = forward_sent [OF assms]
  have ended: "concat (sd_sent s) @ stdin_text ?f rest = stdin_text ?f input" if "sd_pc s = SendEnded q" for q
  proof -
    have none: "pending_chunks s = []" "returned s = False" using that by (simp_all add: pending_chunks_def returned_def)
    obtain ds where ds: "stdin_split ?f input ds rest" "sd_sent s = concat (map (framed ?f max_send) ds)"
      using sent(1) unfolding none by auto
    show ?thesis using stdin_split_text [OF ds(1)] concat_framed [OF assms(2)] ds(2) by simp
  qed
  moreover have "concat (sd_sent s) = stdin_text ?f input"
    if "sd_pc s = SendEnded (Inr ())" "\<forall>t\<in>set ts. \<not> tn_closed t"
    using ended [OF that(1)] sent(3) [OF that(2,1)] by (simp add: stdin_text_def split: if_splits)
  ultimately show ?thesis using sent(1,2) by (auto simp: send_inv_def)
qed

text \<open>A turn in which all is ready, with two bytes available.\<close>

definition ready_turn :: stdin_turn where
  "ready_turn = \<lparr>tn_closed = False, tn_ready = Ready None, tn_more = 1, tn_send = (\<lambda>d. Ready (Inr ()))\<rparr>"

lemma next_line_simps [simp]:
  "next_line [104, 105, 10] = Some ([104, 105], [])"
  by (simp add: next_line_def strip_cr_def)

theorem forward_sends_witness:
  "\<exists>s :: send_state. sd_pc s = SendEnded (Inr ()) \<and> sd_sent s = [[104, 105], [10]]
     \<and> concat (sd_sent s) = stdin_text Line [104, 105, 10]"
proof -
  let ?ts = "replicate 5 ready_turn"
  obtain rest s where s: "(rest, s) = fold (stdin_step (resolve_framing True Line) False True 2) ?ts
      ([104, 105, 10], send_init 1000 (resolve_framing True Line) 2)" by (metis surj_pair)
  then have ended: "sd_pc s = SendEnded (Inr ())" and "sd_sent s = [[104, 105], [10]]"
    by (simp_all add: numeral_nat stdin_step_def turn_poll_def ready_turn_def after_read_def send_step_defs send_init_def
        parts.simps Let_def resolve_framing_def)
  moreover have "concat (sd_sent s) = stdin_text (resolve_framing True Line) [104, 105, 10]"
    using forward_sends [OF s] ended by (simp add: ready_turn_def)
  ultimately show ?thesis by (intro exI [of _ s]) (simp add: resolve_framing_def)
qed

section \<open>When the tool panics\<close>

lemma send_panics_only:
  "sd_pc s \<noteq> SendPanics \<Longrightarrow> framing \<noteq> Auto \<Longrightarrow> \<not> (framing = Line \<and> max_send = 0) \<Longrightarrow>
     sd_pc (fold (send_step framing keep interactive max_send) ps s) \<noteq> SendPanics"
proof (induction ps arbitrary: s)
  case (Cons p ps)
  have "sd_pc (send_step framing keep interactive max_send p s) \<noteq> SendPanics"
    using Cons.prems
    by (cases framing)
      (simp_all add: send_step_defs Let_def split: send_pc.split poll.split sum.split option.split list.split)
  then show ?case using Cons by simp
qed simp

text \<open>
  C27. Forwarding can panic in exactly two cases: with raw framing when the peer allows
  packets of more than \<open>isize::MAX\<close> bytes, for which no buffer can be allocated, and with line
  framing when it allows only empty packets, into which no line can be cut.
\<close>

theorem forward_panics_iff:
  "(\<exists>ps. sd_pc (fold (send_step (resolve_framing i f) keep i max_send) ps
                 (send_init isize_max (resolve_framing i f) max_send)) = SendPanics)
   \<longleftrightarrow> (resolve_framing i f = Raw \<and> isize_max < max_send) \<or> (resolve_framing i f = Line \<and> max_send = 0)"
  (is "?L \<longleftrightarrow> ?R")
proof
  assume ?L
  then show ?R
    using send_panics_only [of "send_init isize_max (resolve_framing i f) max_send" "resolve_framing i f" max_send]
    by (auto simp: send_init_def split: if_splits)
next
  let ?p = "\<lparr>sp_closed = False, sp_line = Ready (Inr (Some [])), sp_read = Pending, sp_send = (\<lambda>d. Pending)\<rparr>"
  assume ?R
  then show ?L
  proof
    assume "resolve_framing i f = Raw \<and> isize_max < max_send"
    then show ?L by (intro exI [of _ "[]"]) (simp add: send_init_def)
  next
    assume "resolve_framing i f = Line \<and> max_send = 0"
    then show ?L by (intro exI [of _ "[?p]"]) (simp add: send_init_def send_step_defs Let_def)
  qed
qed

text \<open>The same for both futures together: the panic of one is that of \<open>forward_stdio\<close>.\<close>

lemma forward_send_run:
  "\<exists>ps. fw_send (fold (forward_step framing keep interactive max_send) evs f)
     = fold (send_step (resolve_framing interactive framing) keep interactive max_send) ps (fw_send f)"
proof (induction evs arbitrary: f)
  case Nil
  show ?case by (intro exI [of _ "[]"]) simp
next
  case (Cons ev evs)
  have "\<exists>qs. fw_send (forward_step framing keep interactive max_send ev f)
      = fold (send_step (resolve_framing interactive framing) keep interactive max_send) qs (fw_send f)"
  proof (cases "\<exists>p. ev = StdinTurn p \<and> forward_result f = None")
    case True
    then obtain p where "ev = StdinTurn p" "forward_result f = None" by blast
    then show ?thesis by (intro exI [of _ "[p]"]) (simp add: forward_step_def)
  next
    case False
    then show ?thesis by (cases ev) (auto simp: forward_step_def intro: exI [of _ "[]"])
  qed
  then obtain qs where qs: "fw_send (forward_step framing keep interactive max_send ev f)
      = fold (send_step (resolve_framing interactive framing) keep interactive max_send) qs (fw_send f)" by blast
  obtain ps where "fw_send (fold (forward_step framing keep interactive max_send) (ev # evs) f)
      = fold (send_step (resolve_framing interactive framing) keep interactive max_send) ps
          (fw_send (forward_step framing keep interactive max_send ev f))"
    using Cons.IH by auto
  then show ?case unfolding qs by (intro exI [of _ "qs @ ps"]) simp
qed

lemma forward_result_panics: "forward_result f = Some ForwardPanics \<longleftrightarrow> sd_pc (fw_send f) = SendPanics"
  by (auto simp: forward_result_def Let_def split: send_pc.splits option.splits sum.splits)

lemma resolved: "resolve_framing i f \<noteq> Auto"
  by (cases f) (simp_all add: resolve_framing_def)

lemma forward_can_panic:
  "(\<exists>evs. forward_result (fold (forward_step f keep i max_send) evs (forward_init isize_max f i max_send))
      = Some ForwardPanics)
   \<longleftrightarrow> (resolve_framing i f = Raw \<and> isize_max < max_send) \<or> (resolve_framing i f = Line \<and> max_send = 0)"
  (is "(\<exists>evs. ?panics evs) \<longleftrightarrow> ?raw \<or> ?line")
proof
  assume "\<exists>evs. ?panics evs"
  then obtain ps where "sd_pc (fold (send_step (resolve_framing i f) keep i max_send) ps
      (send_init isize_max (resolve_framing i f) max_send)) = SendPanics"
    using forward_send_run [of f keep i max_send _ "forward_init isize_max f i max_send"]
    unfolding forward_result_panics by (metis forward_init_def forward_state.select_convs(1))
  then show "?raw \<or> ?line"
    using send_panics_only [of "send_init isize_max (resolve_framing i f) max_send" "resolve_framing i f" max_send keep i ps]
      resolved by (auto simp: send_init_def split: if_splits)
next
  let ?p = "\<lparr>sp_closed = False, sp_line = Ready (Inr (Some [])), sp_read = Pending, sp_send = (\<lambda>d. Pending)\<rparr>"
  assume "?raw \<or> ?line"
  then have "?panics [] \<or> ?panics [StdinTurn ?p]"
    by (auto simp: forward_result_panics forward_init_def send_init_def forward_step_def send_step_defs Let_def
        forward_result_def recv_init_def)
  then show "\<exists>evs. ?panics evs" by blast
qed

section \<open>Ending both directions\<close>

definition recv_inv :: "recv_state \<Rightarrow> bool" where
  "recv_inv s \<longleftrightarrow> (rv_idle s = None \<longleftrightarrow> \<not> rv_stdin_done s)
     \<and> (\<forall>e. rv_done s = Some (Inl e) \<longrightarrow> \<not> is_broken_pipe e)"

definition forward_inv :: "framing \<Rightarrow> bool \<Rightarrow> bool \<Rightarrow> nat \<Rightarrow> forward_state \<Rightarrow> bool" where
  "forward_inv framing keep interactive max_send f \<longleftrightarrow>
     send_inv (resolve_framing interactive framing) keep interactive max_send (fw_send f)
     \<and> recv_inv (fw_recv f)
     \<and> (rv_stdin_done (fw_recv f) \<longrightarrow> sd_notified (fw_send f))
     \<and> (\<forall>e. sd_pc (fw_send f) = SendReturned (Inl e) \<longrightarrow> \<not> is_broken_pipe e)"

lemma recv_step_inv: "recv_inv s \<Longrightarrow> recv_inv (recv_step keep notified br p s)"
  by (auto simp: recv_inv_def recv_step_def recv_packet_arrived_def recv_break_def Let_def
      split: recv_branch.split poll.split sum.split option.split)

lemma recv_step_stdin_done:
  "rv_stdin_done (recv_step keep notified br p s) \<longrightarrow> rv_stdin_done s \<or> notified"
  by (simp add: recv_step_def recv_packet_arrived_def recv_break_def Let_def
      split: recv_branch.split poll.split sum.split option.split)

lemma send_step_returned:
  "(\<forall>e. sd_pc s = SendReturned (Inl e) \<longrightarrow> \<not> is_broken_pipe e) \<Longrightarrow>
     (\<forall>e. sd_pc (send_step framing keep interactive max_send p s) = SendReturned (Inl e) \<longrightarrow> \<not> is_broken_pipe e)"
  by (auto simp: send_step_defs Let_def
      split: send_pc.split framing.split poll.split sum.split option.split list.split)

lemma send_step_notified:
  "sd_notified s \<Longrightarrow> sd_notified (send_step framing keep interactive max_send p s)"
  by (simp add: send_step_defs Let_def
      split: send_pc.split framing.split poll.split sum.split option.split list.split)

interpretation forward: invariant_run "forward_step framing keep interactive max_send"
    "forward_inv framing keep interactive max_send" "forward_init isize_max framing interactive max_send"
  for framing keep interactive max_send isize_max
proof unfold_locales
  show "forward_inv framing keep interactive max_send (forward_init isize_max framing interactive max_send)"
    using send.init_inv [of "resolve_framing interactive framing" keep interactive max_send isize_max]
    by (simp add: forward_inv_def forward_init_def recv_inv_def recv_init_def send_init_def)
next
  fix f ev assume inv: "forward_inv framing keep interactive max_send f"
  show "forward_inv framing keep interactive max_send (forward_step framing keep interactive max_send ev f)"
  proof (cases ev)
    case (StdinTurn p)
    let ?s = "send_step (resolve_framing interactive framing) keep interactive max_send p (fw_send f)"
    have "send_inv (resolve_framing interactive framing) keep interactive max_send ?s"
      using inv by (intro send.step_inv) (simp add: forward_inv_def)
    moreover have "\<forall>e. sd_pc ?s = SendReturned (Inl e) \<longrightarrow> \<not> is_broken_pipe e"
      using inv by (intro send_step_returned) (simp add: forward_inv_def)
    moreover have "rv_stdin_done (fw_recv f) \<longrightarrow> sd_notified ?s"
      using inv send_step_notified by (simp add: forward_inv_def)
    ultimately show ?thesis using inv StdinTurn by (simp add: forward_step_def forward_inv_def)
  next
    case (StdoutTurn br p)
    then show ?thesis
      using inv recv_step_inv [of "fw_recv f"] recv_step_stdin_done [of keep "sd_notified (fw_send f)" br p "fw_recv f"]
      by (auto simp: forward_step_def forward_inv_def)
  qed
qed

text \<open>A turn in which the channel yields nothing.\<close>

fun no_traffic :: "forward_event \<Rightarrow> bool" where
  "no_traffic (StdoutTurn BranchRecv p) \<longleftrightarrow> vp_recv p = Pending"
| "no_traffic _ \<longleftrightarrow> True"

lemma lingering_step:
  assumes "sd_pc (fw_send f) = SendReturned r" and "\<not> sd_notified (fw_send f)" and "rv_idle (fw_recv f) = None"
    and "no_traffic ev"
  shows "forward_step framing keep interactive max_send ev f = f"
  using assms
  by (cases ev rule: no_traffic.cases)
    (auto simp: forward_step_def send_step_def recv_step_def recv_packet_arrived_def)

text \<open>
  C26. When the peer closes its receiver while a packet is being sent, the sending future
  returns out of its loop: stdin is not closed, the receiving future is never notified and
  its idle timer never runs, so that forwarding goes on for as long as the channel yields
  nothing in the other direction.
\<close>

theorem forward_lingers:
  assumes "f = fold (forward_step framing keep interactive max_send) evs
                 (forward_init isize_max framing interactive max_send)"
    and "sd_pc (fw_send f) = SendReturned (Inr ())" and "rv_done (fw_recv f) = None" and "list_all no_traffic evs'"
  shows "\<not> sd_stdin_closed (fw_send f)
    \<and> fold (forward_step framing keep interactive max_send) evs' f = f \<and> forward_result f = None"
proof -
  have "forward_inv framing keep interactive max_send f" unfolding assms(1) by (rule forward.reachable_inv)
  then have quiet: "\<not> sd_stdin_closed (fw_send f)" "\<not> sd_notified (fw_send f)" "rv_idle (fw_recv f) = None"
    using assms(2) by (auto simp: forward_inv_def send_inv_def recv_inv_def)
  have "fold (forward_step framing keep interactive max_send) evs' f = f"
    using assms(4)
  proof (induction evs')
    case (Cons ev evs')
    then show ?case using lingering_step [OF assms(2) quiet(2,3), of ev framing keep interactive max_send] by simp
  qed simp
  then show ?thesis using quiet assms(2,3) by (simp add: forward_result_def)
qed

text \<open>A poll in which everything is ready except a line or a read.\<close>

definition stdin_poll :: "bytes option \<Rightarrow> io_error + unit \<Rightarrow> forward_event" where
  "stdin_poll line sent =
     StdinTurn \<lparr>sp_closed = False, sp_line = Ready (Inr line), sp_read = Pending, sp_send = (\<lambda>d. Ready sent)\<rparr>"

definition idle_turn :: "recv_branch \<Rightarrow> nat \<Rightarrow> forward_event" where
  "idle_turn br now = StdoutTurn br \<lparr>vp_recv = Pending, vp_write = (\<lambda>d. Inr ()), vp_now = now\<rparr>"

theorem forward_lingers_witness:
  "\<exists>f :: forward_state. sd_pc (fw_send f) = SendReturned (Inr ())
     \<and> fold (forward_step Line False True 8) [idle_turn BranchNotified 0, idle_turn BranchIdle 5000000000] f = f"
proof -
  let ?evs = "[stdin_poll (Some []) (Inr ()), stdin_poll None (Inl (channel_error BrokenPipe))]"
  obtain f where f: "f = fold (forward_step Line False True 8) ?evs (forward_init 1000 Line True 8)" by simp
  have "sd_pc (fw_send f) = SendReturned (Inr ())" "rv_done (fw_recv f) = None"
    by (simp_all add: f forward_step_def forward_init_def send_init_def recv_init_def forward_result_def
        stdin_poll_def send_step_defs parts.simps Let_def resolve_framing_def is_broken_pipe_def channel_error_def)
  with forward_lingers [OF f this, of "[idle_turn BranchNotified 0, idle_turn BranchIdle 5000000000]"]
  show ?thesis by (intro exI [of _ f]) (simp add: idle_turn_def)
qed

text \<open>
  On a terminal, forwarding ends one second after stdin: once the sending future has left
  its loop without error, the receiving future takes the notification, and when nothing has
  arrived \<open>IDLE_TIMEOUT\<close> after that it ends, and with it forwarding, without error.
\<close>

theorem forward_idle_end:
  assumes "f = fold (forward_step framing keep True max_send) evs (forward_init isize_max framing True max_send)"
    and "sd_pc (fw_send f) = SendEnded (Inr ())" and "rv_done (fw_recv f) = None" and "\<not> rv_stdin_done (fw_recv f)"
  shows "forward_result (fold (forward_step framing keep True max_send)
      [StdoutTurn BranchNotified p, StdoutTurn BranchIdle q] f)
    = (if vp_now p + IDLE_TIMEOUT \<le> vp_now q then Some (Joined (Inr ())) else None)"
proof -
  have "forward_inv framing keep True max_send f" unfolding assms(1) by (rule forward.reachable_inv)
  then have "sd_notified (fw_send f)" using assms(2) by (simp add: forward_inv_def send_inv_def)
  then show ?thesis
    using assms(2-4) by (simp add: forward_step_def forward_result_def recv_step_def recv_break_def)
qed

theorem forward_idle_end_witness:
  "\<exists>f :: forward_state. forward_result (fold (forward_step Line False True 8)
      [idle_turn BranchNotified 0, idle_turn BranchIdle 5000000000] f) = Some (Joined (Inr ()))"
proof -
  obtain f where f: "f = fold (forward_step Line False True 8) [stdin_poll None (Inr ())] (forward_init 1000 Line True 8)"
    by simp
  have "sd_pc (fw_send f) = SendEnded (Inr ())" "rv_done (fw_recv f) = None" "\<not> rv_stdin_done (fw_recv f)"
    by (simp_all add: f forward_step_def forward_init_def send_init_def recv_init_def forward_result_def
        stdin_poll_def send_step_defs resolve_framing_def)
  from forward_idle_end [OF f this] show ?thesis
    by (intro exI [of _ f]) (simp add: idle_turn_def code_consts from_secs_def)
qed

section \<open>What is written\<close>

fun received :: "forward_event list \<Rightarrow> bytes list" where
  "received [] = []"
| "received (StdoutTurn BranchRecv p # evs) =
     (case vp_recv p of Ready (Inr (Some data)) \<Rightarrow> data # received evs | _ \<Rightarrow> received evs)"
| "received (_ # evs) = received evs"

lemma received_append [simp]: "received (xs @ ys) = received xs @ received ys"
  by (induction xs rule: received.induct) (simp_all split: poll.split sum.split option.split)

definition stopped :: "forward_state \<Rightarrow> bool" where
  "stopped f \<longleftrightarrow> rv_done (fw_recv f) \<noteq> None \<or> forward_result f \<noteq> None"

lemma stopped_step:
  "stopped f \<Longrightarrow> stopped (forward_step framing keep interactive max_send ev f)
     \<and> rv_written (fw_recv (forward_step framing keep interactive max_send ev f)) = rv_written (fw_recv f)"
  by (cases ev) (auto simp: stopped_def forward_step_def recv_step_def)

lemma running_step:
  assumes "\<not> stopped f"
  shows "rv_written (fw_recv (forward_step framing keep interactive max_send ev f)) = rv_written (fw_recv f) @ received [ev]
    \<or> stopped (forward_step framing keep interactive max_send ev f)
      \<and> rv_written (fw_recv (forward_step framing keep interactive max_send ev f)) = rv_written (fw_recv f)"
proof (cases ev)
  case (StdoutTurn br p)
  then show ?thesis
    using assms
    by (cases br)
      (auto simp: stopped_def forward_step_def recv_step_def recv_packet_arrived_def recv_break_def Let_def
        split: poll.split sum.split option.split)
qed (simp add: forward_step_def)

text \<open>
  C25. What is written to stdout under any interleaving is what the channel yielded, packet by
  packet and in order, up to the point where writing or forwarding ended; nothing is missing
  while it goes on. A broken pipe of the channel or of stdout is never an error of the tool:
  an error of that kind can only come from reading stdin.
\<close>

theorem forward_writes:
  assumes "f = fold (forward_step framing keep interactive max_send) evs
                 (forward_init isize_max framing interactive max_send)"
  shows "(\<exists>rest. received evs = rv_written (fw_recv f) @ rest
             \<and> (rest \<noteq> [] \<longrightarrow> rv_done (fw_recv f) \<noteq> None \<or> forward_result f \<noteq> None))
    \<and> (forward_result f = Some (Joined (Inl e)) \<and> is_broken_pipe e \<longrightarrow> sd_pc (fw_send f) = SendEnded (Inl e))"
proof
  show "\<exists>rest. received evs = rv_written (fw_recv f) @ rest
      \<and> (rest \<noteq> [] \<longrightarrow> rv_done (fw_recv f) \<noteq> None \<or> forward_result f \<noteq> None)"
    unfolding stopped_def [symmetric] assms
  proof (induction evs rule: rev_induct)
    case Nil
    then show ?case by (simp add: forward_init_def recv_init_def)
  next
    case (snoc ev evs)
    let ?f = "fold (forward_step framing keep interactive max_send) evs
                (forward_init isize_max framing interactive max_send)"
    obtain rest where rest: "received evs = rv_written (fw_recv ?f) @ rest" "rest \<noteq> [] \<longrightarrow> stopped ?f"
      using snoc by blast
    show ?case
    proof (cases "stopped ?f")
      case True
      then show ?thesis
        using rest stopped_step [OF True, of framing keep interactive max_send ev]
        by (intro exI [of _ "rest @ received [ev]"]) simp
    next
      case False
      with rest have rest': "received evs = rv_written (fw_recv ?f)" by simp
      from running_step [OF False, of framing keep interactive max_send ev] show ?thesis
      proof
        assume "rv_written (fw_recv (forward_step framing keep interactive max_send ev ?f)) =
          rv_written (fw_recv ?f) @ received [ev]"
        then show ?thesis using rest' by (intro exI [of _ "[]"]) simp
      next
        assume "stopped (forward_step framing keep interactive max_send ev ?f)
          \<and> rv_written (fw_recv (forward_step framing keep interactive max_send ev ?f)) = rv_written (fw_recv ?f)"
        then show ?thesis using rest' by (intro exI [of _ "received [ev]"]) simp
      qed
    qed
  qed
next
  have "forward_inv framing keep interactive max_send f" unfolding assms by (rule forward.reachable_inv)
  then show "forward_result f = Some (Joined (Inl e)) \<and> is_broken_pipe e \<longrightarrow> sd_pc (fw_send f) = SendEnded (Inl e)"
    by (auto simp: forward_inv_def recv_inv_def forward_result_def Let_def
        split: send_pc.splits option.splits sum.splits if_splits)
qed

theorem forward_writes_witness:
  "\<exists>f :: forward_state. \<exists>rest. [[1, 2], [3]] = rv_written (fw_recv f) @ rest \<and> rv_written (fw_recv f) = [[1, 2]]"
proof -
  let ?poll = "\<lambda>d w. StdoutTurn BranchRecv \<lparr>vp_recv = Ready (Inr (Some d)), vp_write = (\<lambda>d. w), vp_now = 0\<rparr>"
  let ?evs = "[?poll [1, 2] (Inr ()), ?poll [3] (Inl (channel_error BrokenPipe))]"
  obtain f where f: "f = fold (forward_step Line False True 8) ?evs (forward_init 1000 Line True 8)" by simp
  have "rv_written (fw_recv f) = [[1, 2]]"
    by (simp add: f forward_step_def forward_init_def send_init_def recv_init_def forward_result_def
        recv_step_def recv_packet_arrived_def recv_break_def resolve_framing_def)
  moreover have "\<exists>rest. received ?evs = rv_written (fw_recv f) @ rest"
    using forward_writes [OF f, of "channel_error BrokenPipe"] by blast
  ultimately show ?thesis by (intro exI [of _ f]) simp
qed

end
