(* ===== verification/Cli_Connect.thy ===== *)
theory Cli_Connect
  imports Cli_Discover Cli_Forward Device_Channel
begin

text \<open>
  The commands \<open>connect\<close> and \<open>device\<close> of \<open>src/bin/upc.rs\<close>, and the choice of the command. The
  forwarding of standard input and output is the subject of \<open>Cli_Forward\<close>; here what it comes to
  is an argument: its result, a panic, or nothing when it goes on. The GUID parser and the
  gadget library are arguments too.
\<close>

section \<open>Selecting the interface to connect to\<close>

record connect_cmd =
  cc_vid :: "u16 option"
  cc_pid :: "u16 option"
  cc_serial :: "string option"
  cc_bus :: "string option"
  cc_address :: "u8 option"
  cc_interface :: "u8 option"
  cc_subclass :: "u8 option"
  cc_protocol :: "u8 option"
  cc_topic :: string
  cc_max_packet :: nat
  cc_framing :: framing

definition connect_matches_device :: "connect_cmd \<Rightarrow> device_info \<Rightarrow> bool" where
  "connect_matches_device c d =
     (if differs (cc_vid c) (di_vendor_id d) then False
      else if differs (cc_pid c) (di_product_id d) then False
      else if differs (map_option Some (cc_serial c)) (di_serial d) then False
      else if differs (cc_bus c) (di_bus_id d) then False
      else if differs (cc_address c) (di_address d) then False
      else True)"

definition has_class_filter :: "connect_cmd \<Rightarrow> bool" where
  "has_class_filter c \<longleftrightarrow> cc_interface c \<noteq> None \<or> cc_subclass c \<noteq> None \<or> cc_protocol c \<noteq> None"

text \<open>
  The interface found so far, or the message of the early return when there is a second one.
\<close>

type_synonym found = "(usb_device \<times> u8) option"

definition MULTIPLE_MATCHING :: string where
  "MULTIPLE_MATCHING =
     ''Multiple matching UPC interfaces found. Use --serial, --vid, --pid, or -i to narrow down.''"

definition MULTIPLE :: string where
  "MULTIPLE = ''Multiple UPC interfaces found. Use --serial, --vid, --pid, or -i to narrow down.''"

fun class_ifaces :: "connect_cmd \<Rightarrow> u8 \<Rightarrow> usb_device \<Rightarrow> interface_info list \<Rightarrow> found \<Rightarrow> string + found" where
  "class_ifaces c p d [] found = Inr found"
| "class_ifaces c p d (i # is) found =
     (if differs (cc_interface c) (ii_number i) then class_ifaces c p d is found
      else if differs (cc_subclass c) (ii_subclass i) then class_ifaces c p d is found
      else if ii_protocol i \<noteq> p then class_ifaces c p d is found
      else if ii_class i = VENDOR_SPECIFIC \<or> cc_interface c \<noteq> None then
        if found \<noteq> None then Inl MULTIPLE_MATCHING
        else class_ifaces c p d is (Some (d, ii_number i))
      else class_ifaces c p d is found)"

fun class_devices :: "connect_cmd \<Rightarrow> u8 \<Rightarrow> usb_device list \<Rightarrow> found \<Rightarrow> string + found" where
  "class_devices c p [] found = Inr found"
| "class_devices c p (d # ds) found =
     (if \<not> connect_matches_device c (ud_info d) then class_devices c p ds found
      else
        (case class_ifaces c p d (di_interfaces (ud_info d)) found of
           Inl msg \<Rightarrow> Inl msg
         | Inr found' \<Rightarrow> class_devices c p ds found'))"

fun probe_ifaces :: "usb_device \<Rightarrow> u8 list \<Rightarrow> found \<Rightarrow> string + found" where
  "probe_ifaces d [] found = Inr found"
| "probe_ifaces d (n # ns) found =
     (case probe_of d n of
        Inr True \<Rightarrow> if found \<noteq> None then Inl MULTIPLE else probe_ifaces d ns (Some (d, n))
      | Inr False \<Rightarrow> probe_ifaces d ns found
      | Inl e \<Rightarrow> probe_ifaces d ns found)"

fun probe_devices :: "connect_cmd \<Rightarrow> usb_device list \<Rightarrow> found \<Rightarrow> string + found" where
  "probe_devices c [] found = Inr found"
| "probe_devices c (d # ds) found =
     (if \<not> connect_matches_device c (ud_info d) then probe_devices c ds found
      else if vendor_ifaces (ud_info d) = [] then probe_devices c ds found
      else if ud_open d \<noteq> None then probe_devices c ds found
      else
        (case probe_ifaces d (vendor_ifaces (ud_info d)) found of
           Inl msg \<Rightarrow> Inl msg
         | Inr found' \<Rightarrow> probe_devices c ds found'))"

definition connect_find :: "connect_cmd \<Rightarrow> usb_device list \<Rightarrow> string + found" where
  "connect_find c ds =
     (if has_class_filter c then class_devices c (unwrap_or 0x84 (cc_protocol c)) ds None
      else probe_devices c ds None)"

section \<open>The command \<open>connect\<close>\<close>

text \<open>How a command ends: with an exit code, by a panic, or not with the events given.\<close>

datatype cli_result = Exit nat | CliPanics | CliWaits

definition verb :: "bool \<Rightarrow> string \<Rightarrow> printed list" where
  "verb verbose s = (if verbose then [Err s] else [])"

definition connect_options :: "connect_cmd \<Rightarrow> upc_options" where
  "connect_options c = with_max_size (cc_max_packet c) (with_topic (into_bytes (cc_topic c)) options_new)"

definition connect_forward ::
  "(io_error \<Rightarrow> string) \<Rightarrow> bool \<Rightarrow> forward_end option \<Rightarrow> printed list \<times> cli_result" where
  "connect_forward disp verbose r =
     (case r of
        None \<Rightarrow> ([], CliWaits)
      | Some ForwardPanics \<Rightarrow> ([], CliPanics)
      | Some (Joined (Inr u)) \<Rightarrow> (verb verbose ''Disconnected.'', Exit 0)
      | Some (Joined (Inl e)) \<Rightarrow> ([Err (''Error: '' @ disp e)], Exit 1))"

definition connect_to ::
  "(io_error \<Rightarrow> string) \<Rightarrow> bool \<Rightarrow> connect_cmd \<Rightarrow> (host_connection \<Rightarrow> framing \<Rightarrow> bool \<Rightarrow> forward_end option)
     \<Rightarrow> usb_device \<Rightarrow> u8 \<Rightarrow> printed list \<times> cli_result" where
  "connect_to disp verbose c forward d n =
     after (verb verbose (''Connecting to '' @ ids (ud_info d) @ '' on '' @ location (ud_info d)
              @ '' interface '' @ fmt_dec 0 n @ ''...''))
       (case ud_reopen d of
          Some e \<Rightarrow> ([Err (''Cannot open device: '' @ disp (nusb_to_io_err e))], Exit FAILURE)
        | None \<Rightarrow>
            (case snd (native_connect_with (ud_connect d) n (connect_options c)) of
               Panics \<Rightarrow> ([], CliPanics)
             | StillWaiting \<Rightarrow> ([], CliWaits)
             | Fails e \<Rightarrow> ([Err (''Cannot connect: '' @ disp e)], Exit FAILURE)
             | Opens conn \<Rightarrow>
                 after (verb verbose ''Connected.'')
                   (connect_forward disp verbose (forward conn (cc_framing c) False))))"

definition connect_exec ::
  "(io_error \<Rightarrow> string) \<Rightarrow> bool \<Rightarrow> connect_cmd \<Rightarrow> (host_connection \<Rightarrow> framing \<Rightarrow> bool \<Rightarrow> forward_end option)
     \<Rightarrow> nusb_error + usb_device list \<Rightarrow> printed list \<times> cli_result" where
  "connect_exec disp verbose c forward devices =
     (case devices of
        Inl e \<Rightarrow> ([Err (''Cannot enumerate USB devices: '' @ disp (nusb_to_io_err e))], Exit FAILURE)
      | Inr ds \<Rightarrow>
          (case connect_find c ds of
             Inl msg \<Rightarrow> ([Err msg], Exit FAILURE)
           | Inr None \<Rightarrow> ([Err ''No matching UPC device found.''], Exit FAILURE)
           | Inr (Some (d, n)) \<Rightarrow> connect_to disp verbose c forward d n))"

section \<open>The command \<open>device\<close>\<close>

record device_cmd =
  dv_vid :: u16
  dv_pid :: u16
  dv_manufacturer :: string
  dv_product :: string
  dv_serial :: string
  dv_subclass :: u8
  dv_protocol :: u8
  dv_name :: "string option"
  dv_guid :: "string option"
  dv_info :: string
  dv_max_packet :: "u64 option"
  dv_framing :: framing
  dv_keep :: bool

text \<open>
  The interface identification, given the GUID parser; the result of an invalid GUID is its
  error.
\<close>

definition device_interface_id :: "(string \<Rightarrow> string + 'g) \<Rightarrow> device_cmd \<Rightarrow> string + 'g interface_id" where
  "device_interface_id parse_guid c =
     (let i = interface_id_new (vendor_specific (dv_subclass c) (dv_protocol c));
          i = (case dv_name c of Some nm \<Rightarrow> with_name nm i | None \<Rightarrow> i)
      in case dv_guid c of
           Some s \<Rightarrow> (case parse_guid s of Inr g \<Rightarrow> Inr (with_guid g i) | Inl e \<Rightarrow> Inl e)
         | None \<Rightarrow> Inr i)"

text \<open>The configuration of the function; \<open>None\<close> is the panic of \<open>set_info\<close>.\<close>

definition device_cfg :: "device_cmd \<Rightarrow> cfg option" where
  "device_cfg c =
     map_option (\<lambda>cfg. case dv_max_packet c of Some n \<Rightarrow> set_max_size n cfg | None \<Rightarrow> cfg)
       (if dv_info c \<noteq> [] then set_info (into_bytes (dv_info c)) cfg_default else Some cfg_default)"

text \<open>
  The loop that accepts connections: each call of \<open>accept\<close> with its error, or with what
  forwarding the connection comes to.
\<close>

fun device_loop ::
  "(io_error \<Rightarrow> string) \<Rightarrow> bool \<Rightarrow> bool \<Rightarrow> (io_error + forward_end option) list \<Rightarrow> printed list \<times> cli_result" where
  "device_loop disp verbose keep [] = ([], CliWaits)"
| "device_loop disp verbose keep (Inl e # cs) = ([Err (''Accept failed: '' @ disp e)], Exit FAILURE)"
| "device_loop disp verbose keep (Inr r # cs) =
     after (verb verbose ''Connection accepted.'')
       (case r of
          None \<Rightarrow> ([], CliWaits)
        | Some ForwardPanics \<Rightarrow> ([], CliPanics)
        | Some (Joined (Inr u)) \<Rightarrow>
            after (verb verbose ''Connection ended.'')
              (if \<not> keep then ([], Exit 0)
               else after (verb verbose ''Waiting for next connection...'') (device_loop disp verbose keep cs))
        | Some (Joined (Inl e)) \<Rightarrow>
            after [Err (''Connection error: '' @ disp e)]
              (if \<not> keep then ([], Exit 1)
               else after (verb verbose ''Waiting for next connection...'') (device_loop disp verbose keep cs)))"

definition device_exec ::
  "(io_error \<Rightarrow> string) \<Rightarrow> bool \<Rightarrow> device_cmd \<Rightarrow> (string \<Rightarrow> string + 'g) \<Rightarrow> io_error option \<Rightarrow> io_error option
     \<Rightarrow> ('g interface_id \<Rightarrow> cfg \<Rightarrow> (io_error + forward_end option) list) \<Rightarrow> printed list \<times> cli_result" where
  "device_exec disp verbose c parse_guid udc bind conns =
     (case device_interface_id parse_guid c of
        Inl e \<Rightarrow> ([Err (''Invalid GUID: '' @ e)], Exit FAILURE)
      | Inr i \<Rightarrow>
          (case device_cfg c of
             None \<Rightarrow> ([], CliPanics)
           | Some cfg \<Rightarrow>
               (case udc of
                  Some e \<Rightarrow> ([Err (''Cannot get UDC: '' @ disp e)], Exit FAILURE)
                | None \<Rightarrow>
                    (case bind of
                       Some e \<Rightarrow> ([Err (''Cannot bind gadget: '' @ disp e)], Exit FAILURE)
                     | None \<Rightarrow>
                         after (verb verbose ''Waiting for connection...'')
                           (device_loop disp verbose (dv_keep c) (conns i cfg))))))"

section \<open>The choice of the command\<close>

datatype command = Scan scan_cmd | List device_filter | Connect connect_cmd | Device device_cmd

text \<open>
  What the commands meet: the devices, the forwarding of a host connection, the gadget
  library, and the connections of a device.
\<close>

record 'g cli_env =
  ce_display :: "io_error \<Rightarrow> string"
  ce_devices :: "nusb_error + usb_device list"
  ce_forward :: "host_connection \<Rightarrow> framing \<Rightarrow> bool \<Rightarrow> forward_end option"
  ce_parse_guid :: "string \<Rightarrow> string + 'g"
  ce_udc :: "io_error option"
  ce_bind :: "io_error option"
  ce_conns :: "'g interface_id \<Rightarrow> cfg \<Rightarrow> (io_error + forward_end option) list"

definition main :: "bool \<Rightarrow> command \<Rightarrow> 'g cli_env \<Rightarrow> printed list \<times> cli_result" where
  "main verbose cmd env =
     (case cmd of
        Scan c \<Rightarrow> map_prod id Exit (scan_exec (ce_display env) verbose c (ce_devices env))
      | List f \<Rightarrow> map_prod id Exit (list_exec (ce_display env) verbose f (ce_devices env))
      | Connect c \<Rightarrow> connect_exec (ce_display env) verbose c (ce_forward env) (ce_devices env)
      | Device c \<Rightarrow>
          device_exec (ce_display env) verbose c (ce_parse_guid env) (ce_udc env) (ce_bind env) (ce_conns env))"

section \<open>A unique candidate\<close>

text \<open>
  The reference for the selection: of all candidates the only one, none, or an error. The
  second argument is a candidate that was found before.
\<close>

fun pick :: "string \<Rightarrow> 'c option \<Rightarrow> 'c list \<Rightarrow> string + 'c option" where
  "pick msg found [] = Inr found"
| "pick msg None (x # xs) = pick msg (Some x) xs"
| "pick msg (Some y) (x # xs) = Inl msg"

lemma pick_Cons: "pick msg found (x # xs) = (if found \<noteq> None then Inl msg else pick msg (Some x) xs)"
  by (cases found) simp_all

lemma pick_append:
  "pick msg found (xs @ ys) =
     (case pick msg found xs of Inl e \<Rightarrow> Inl e | Inr found' \<Rightarrow> pick msg found' ys)"
  by (induction msg found xs rule: pick.induct) simp_all

lemma pick_Some [simp]: "pick msg (Some x) xs = Inr found \<longleftrightarrow> xs = [] \<and> found = Some x"
  by (cases xs) auto

lemma pick_Inr: "pick msg None xs = Inr (Some x) \<longleftrightarrow> xs = [x]"
  by (cases xs) auto

lemma pick_None: "pick msg None xs = Inr None \<longleftrightarrow> xs = []"
  by (cases xs) auto

lemma pick_Inl: "pick msg None xs = Inl e \<longleftrightarrow> 2 \<le> length xs \<and> e = msg"
  by (cases xs; cases "tl xs") auto

text \<open>The filters that \<open>scan\<close> and \<open>list\<close> would need for the same selection.\<close>

definition as_scan :: "connect_cmd \<Rightarrow> scan_cmd" where
  "as_scan c =
     \<lparr>sc_vid = cc_vid c, sc_pid = cc_pid c, sc_serial = cc_serial c, sc_bus = cc_bus c,
      sc_address = cc_address c\<rparr>"

definition as_filter :: "connect_cmd \<Rightarrow> device_filter" where
  "as_filter c =
     \<lparr>df_vid = cc_vid c, df_pid = cc_pid c, df_serial = cc_serial c, df_bus = cc_bus c,
      df_address = cc_address c, df_interface = cc_interface c, df_subclass = cc_subclass c,
      df_protocol = Some (unwrap_or 0x84 (cc_protocol c))\<rparr>"

definition class_candidates :: "device_filter \<Rightarrow> usb_device list \<Rightarrow> (usb_device \<times> u8) list" where
  "class_candidates f ds =
     concat (map (\<lambda>d. map (Pair d) (upc_ifaces f (ud_info d)))
       (filter (\<lambda>d. filter_matches_device f (ud_info d)) ds))"

definition candidates :: "connect_cmd \<Rightarrow> usb_device list \<Rightarrow> (usb_device \<times> u8) list" where
  "candidates c ds =
     (if has_class_filter c then class_candidates (as_filter c) ds else scan_hits (as_scan c) ds)"

lemma connect_matches_as:
  "filter_matches_device (as_filter c) d = connect_matches_device c d"
  "scan_matches_device (as_scan c) d = connect_matches_device c d"
  by (simp_all add: filter_matches_device_def scan_matches_device_def connect_matches_device_def
      as_filter_def as_scan_def)

lemma class_ifaces_pick:
  "class_ifaces c (unwrap_or 0x84 (cc_protocol c)) d is found =
     pick MULTIPLE_MATCHING found
       (map (Pair d) (map ii_number (filter (\<lambda>i. matches_interface (as_filter c) i
          \<and> (ii_class i = VENDOR_SPECIFIC \<or> df_interface (as_filter c) \<noteq> None)) is)))"
  by (induction "is" arbitrary: found)
    (auto simp: pick_Cons matches_interface_def as_filter_def selected_def)

lemma class_devices_pick:
  "class_devices c (unwrap_or 0x84 (cc_protocol c)) ds found =
     pick MULTIPLE_MATCHING found (class_candidates (as_filter c) ds)"
proof (induction ds arbitrary: found)
  case (Cons d ds)
  then show ?case
    unfolding class_devices.simps class_ifaces_pick
    by (simp add: class_candidates_def connect_matches_as upc_ifaces_def pick_append split: sum.split)
qed (simp add: class_candidates_def)

lemma probe_ifaces_pick:
  "probe_ifaces d ns found = pick MULTIPLE found (map (Pair d) (filter (\<lambda>n. probe_of d n = Inr True) ns))"
  by (induction ns arbitrary: found) (auto simp: pick_Cons split: sum.split bool.split)

lemma probe_devices_pick:
  "probe_devices c ds found = pick MULTIPLE found (scan_hits (as_scan c) ds)"
proof (induction ds arbitrary: found)
  case (Cons d ds)
  then show ?case
    unfolding probe_devices.simps probe_ifaces_pick
    by (auto simp: scan_hits_def connect_matches_as pick_append split: sum.split)
qed (simp add: scan_hits_def)

lemma connect_find_pick:
  "connect_find c ds = pick (if has_class_filter c then MULTIPLE_MATCHING else MULTIPLE) None (candidates c ds)"
  by (simp add: connect_find_def candidates_def class_devices_pick probe_devices_pick)

text \<open>
  C21. \<open>connect\<close> selects an interface exactly when there is one candidate, finds none exactly
  when there is no candidate, and gives up with a message exactly when there are several. The
  candidates are, without a class filter, the interfaces that \<open>scan\<close> reports for the same
  options, and with one, those that \<open>list\<close> looks at for the same options, with the protocol
  0x84 by default.
\<close>

theorem connect_selects_unique:
  "(connect_find c ds = Inr (Some h) \<longleftrightarrow> candidates c ds = [h])
   \<and> (connect_find c ds = Inr None \<longleftrightarrow> candidates c ds = [])
   \<and> ((\<exists>msg. connect_find c ds = Inl msg) \<longleftrightarrow> 2 \<le> length (candidates c ds))"
  by (simp add: connect_find_pick pick_Inr pick_None pick_Inl)

section \<open>How the commands end\<close>

lemma after_eq [simp]: "after [] r = r"
  by (simp add: after_def)

lemma try_call_Panics [simp]: "snd (try_call es f rest) = Panics \<longleftrightarrow> f = None \<and> snd rest = Panics"
  by (simp add: try_call_def split: option.split)

lemma native_Panics:
  "snd (native_connect_with env n options) = Panics \<longleftrightarrow> INFO_SIZE < length (opt_topic options)"
  by (simp add: native_connect_with_def native_open_connection_def Let_def
      split: sum.split prod.split poll.split bool.split)

lemma connect_options_topic [simp]: "opt_topic (connect_options c) = into_bytes (cc_topic c)"
  by (simp add: connect_options_def with_max_size_def with_topic_def)

lemma connect_to_Exit_0:
  "snd (connect_to disp verbose c forward d n) = Exit SUCCESS \<longleftrightarrow>
     ud_reopen d = None
     \<and> (\<exists>conn. snd (native_connect_with (ud_connect d) n (connect_options c)) = Opens conn
          \<and> forward conn (cc_framing c) False = Some (Joined (Inr ())))"
  by (auto simp: connect_to_def connect_forward_def code_consts
      split: option.split connect_outcome.split forward_end.split sum.split)

lemma connect_to_Panics:
  "snd (connect_to disp verbose c forward d n) = CliPanics \<longleftrightarrow>
     ud_reopen d = None
     \<and> (INFO_SIZE < length (cc_topic c)
        \<or> (\<exists>conn. snd (native_connect_with (ud_connect d) n (connect_options c)) = Opens conn
             \<and> forward conn (cc_framing c) False = Some ForwardPanics))"
proof -
  have "snd (connect_to disp verbose c forward d n) = CliPanics \<longleftrightarrow>
      ud_reopen d = None
      \<and> (snd (native_connect_with (ud_connect d) n (connect_options c)) = Panics
         \<or> (\<exists>conn. snd (native_connect_with (ud_connect d) n (connect_options c)) = Opens conn
             \<and> forward conn (cc_framing c) False = Some ForwardPanics))"
    by (auto simp: connect_to_def connect_forward_def
        split: option.split connect_outcome.split forward_end.split sum.split)
  then show ?thesis by (simp add: native_Panics)
qed

lemma connect_exec_unique:
  "snd (connect_exec disp verbose c forward (Inr ds)) \<in> {Exit SUCCESS, CliPanics} \<Longrightarrow> \<exists>h. candidates c ds = [h]"
  by (auto simp: connect_exec_def connect_find_pick code_consts pick_Inr split: sum.splits option.splits)

lemma connect_exec_one:
  "candidates c ds = [(d, n)] \<Longrightarrow>
     connect_exec disp verbose c forward (Inr ds) = connect_to disp verbose c forward d n"
  by (simp add: connect_exec_def connect_find_pick)

text \<open>
  The forwarding of \<open>connect\<close>: both futures of theory Cli_Forward on the limit of the host's sender,
  with the turns that they get on this connection.
\<close>

definition forwarding ::
  "nat \<Rightarrow> bool \<Rightarrow> (host_connection \<Rightarrow> forward_event list) \<Rightarrow> host_connection \<Rightarrow> framing \<Rightarrow> bool \<Rightarrow> forward_end option" where
  "forwarding isize_max interactive turns conn framing keep =
     (let max_send = hs_max_size (hn_sender conn)
      in forward_result (fold (forward_step framing keep interactive max_send) (turns conn)
           (forward_init isize_max framing interactive max_send)))"

lemma forwarding_panics:
  "(\<exists>turns. forwarding isize_max i turns conn f keep = Some ForwardPanics) \<longleftrightarrow>
     (resolve_framing i f = Raw \<and> isize_max < hs_max_size (hn_sender conn))
     \<or> (resolve_framing i f = Line \<and> hs_max_size (hn_sender conn) = 0)"
proof -
  have "(\<exists>turns. forwarding isize_max i turns conn f keep = Some ForwardPanics) \<longleftrightarrow>
      (\<exists>evs. forward_result (fold (forward_step f keep i (hs_max_size (hn_sender conn))) evs
         (forward_init isize_max f i (hs_max_size (hn_sender conn)))) = Some ForwardPanics)"
    (is "(\<exists>turns. ?panics turns) \<longleftrightarrow> (\<exists>evs. ?ends evs)")
  proof
    assume "\<exists>turns. ?panics turns"
    then show "\<exists>evs. ?ends evs" unfolding forwarding_def Let_def by blast
  next
    assume "\<exists>evs. ?ends evs"
    then obtain evs where "?ends evs" by blast
    then have "?panics (\<lambda>c. evs)" by (simp add: forwarding_def)
    then show "\<exists>turns. ?panics turns" by blast
  qed
  then show ?thesis by (simp add: forward_can_panic)
qed

text \<open>
  C22. \<open>connect\<close> ends with the exit code of success exactly when there is one candidate, it can
  be opened, the connection opens and its forwarding ends without error. It panics exactly when
  there is one candidate that can be opened and the topic is longer than \<open>INFO_SIZE\<close> or the
  connection opens and its forwarding panics; with the forwarding of the tool, this can happen
  exactly when the peer allows packets above \<open>isize::MAX\<close> with raw framing, or only empty
  packets with line framing.
\<close>

theorem connect_exit:
  "(snd (connect_exec disp verbose c forward (Inr ds)) = Exit SUCCESS \<longleftrightarrow>
      (\<exists>d n conn. candidates c ds = [(d, n)] \<and> ud_reopen d = None
        \<and> snd (native_connect_with (ud_connect d) n (connect_options c)) = Opens conn
        \<and> forward conn (cc_framing c) False = Some (Joined (Inr ()))))
   \<and> (snd (connect_exec disp verbose c forward (Inr ds)) = CliPanics \<longleftrightarrow>
      (\<exists>d n. candidates c ds = [(d, n)] \<and> ud_reopen d = None
        \<and> (INFO_SIZE < length (cc_topic c)
           \<or> (\<exists>conn. snd (native_connect_with (ud_connect d) n (connect_options c)) = Opens conn
                \<and> forward conn (cc_framing c) False = Some ForwardPanics))))
   \<and> ((\<exists>turns. snd (connect_exec disp verbose c (forwarding isize_max i turns) (Inr ds)) = CliPanics) \<longleftrightarrow>
      (\<exists>d n. candidates c ds = [(d, n)] \<and> ud_reopen d = None
        \<and> (INFO_SIZE < length (cc_topic c)
           \<or> (\<exists>conn. snd (native_connect_with (ud_connect d) n (connect_options c)) = Opens conn
                \<and> (resolve_framing i (cc_framing c) = Raw \<and> isize_max < hs_max_size (hn_sender conn)
                   \<or> resolve_framing i (cc_framing c) = Line \<and> hs_max_size (hn_sender conn) = 0)))))"
proof (cases "\<exists>h. candidates c ds = [h]")
  case True
  then obtain d n where one: "candidates c ds = [(d, n)]" by fastforce
  show ?thesis
    unfolding connect_exec_one [OF one] connect_to_Exit_0 connect_to_Panics forwarding_panics [symmetric, where keep = False]
    using one by auto
next
  case False
  then show ?thesis using connect_exec_unique [of disp verbose c _ ds] by fastforce
qed

text \<open>The connections of \<open>device\<close> that end by themselves, and what is printed of them.\<close>

abbreviation served :: "io_error + unit \<Rightarrow> io_error + forward_end option" where
  "served r \<equiv> Inr (Some (Joined r))"

definition served_lines :: "(io_error \<Rightarrow> string) \<Rightarrow> (io_error + unit) list \<Rightarrow> printed list" where
  "served_lines disp rs = concat (map (case_sum (\<lambda>e. [Err (''Connection error: '' @ disp e)]) (\<lambda>u. [])) rs)"

lemma device_loop_keep:
  "device_loop disp False True (map served rs @ cs) = after (served_lines disp rs) (device_loop disp False True cs)"
  by (induction rs) (auto simp: served_lines_def after_def verb_def split: sum.split)

lemma device_loop_Panics:
  "snd (device_loop disp verbose keep cs) = CliPanics \<longleftrightarrow>
     (\<exists>rs cs'. cs = map served rs @ Inr (Some ForwardPanics) # cs' \<and> (keep \<or> rs = []))"
proof (induction cs)
  case (Cons c cs)
  show ?case
  proof (cases "\<exists>r. c = served r")
    case True
    then obtain r where c: "c = served r" by blast
    have "(\<exists>rs cs'. c # cs = map served rs @ Inr (Some ForwardPanics) # cs' \<and> (keep \<or> rs = [])) \<longleftrightarrow>
        keep \<and> (\<exists>rs cs'. cs = map served rs @ Inr (Some ForwardPanics) # cs')"
      unfolding c by (auto simp: Cons_eq_append_conv Cons_eq_map_conv intro: exI [of _ "r # _"])
    then show ?thesis using Cons by (auto simp: c after_def split: sum.split)
  next
    case False
    then show ?thesis
      by (cases c) (auto simp: Cons_eq_append_conv Cons_eq_map_conv after_def split: option.split forward_end.split)
  qed
qed simp

text \<open>
  The loop of \<open>device\<close>: when it shall keep running, every connection is served, its error
  is only reported, and the loop ends with the first failing \<open>accept\<close>; otherwise it
  ends with the first connection, and the exit code tells whether it ended with an error. The
  command panics exactly when its GUID is valid and its info is longer than \<open>INFO_SIZE\<close>, or its
  gadget is registered and the forwarding of a connection that it serves panics.
\<close>

theorem device_serves:
  "device_loop disp False True (map served rs @ Inl e # cs) =
     (served_lines disp rs @ [Err (''Accept failed: '' @ disp e)], Exit FAILURE)
   \<and> snd (device_loop disp False True (map served rs)) = CliWaits
   \<and> snd (device_loop disp verbose False (served r # cs)) = Exit (case r of Inr u \<Rightarrow> SUCCESS | Inl e' \<Rightarrow> FAILURE)
   \<and> (snd (device_exec disp verbose c parse_guid udc bind conns) = CliPanics \<longleftrightarrow>
        (\<exists>i. device_interface_id parse_guid c = Inr i
           \<and> (INFO_SIZE < length (dv_info c)
              \<or> (\<exists>cfg rs cs. device_cfg c = Some cfg \<and> udc = None \<and> bind = None
                   \<and> conns i cfg = map served rs @ Inr (Some ForwardPanics) # cs \<and> (dv_keep c \<or> rs = [])))))"
proof -
  have cfg: "device_cfg c = None \<longleftrightarrow> INFO_SIZE < length (dv_info c)"
    by (auto simp: device_cfg_def set_info_def)
  have "snd (device_exec disp verbose c parse_guid udc bind conns) = CliPanics \<longleftrightarrow>
      (\<exists>i. device_interface_id parse_guid c = Inr i
         \<and> (device_cfg c = None
            \<or> (\<exists>cfg. device_cfg c = Some cfg \<and> udc = None \<and> bind = None
                 \<and> snd (device_loop disp verbose (dv_keep c) (conns i cfg)) = CliPanics)))"
    by (auto simp: device_exec_def after_def split: sum.split option.split)
  then show ?thesis
    unfolding device_loop_Panics cfg
    using device_loop_keep [of disp rs "Inl e # cs"] device_loop_keep [of disp rs "[]"]
    by (auto simp: after_def code_consts split: sum.split)
qed

end
