(* ===== verification/Cli_System.thy ===== *)
theory Cli_System
  imports System Device_Function Cli_Connect Cli_Forward
begin

text \<open>
  The command line tool on both ends of the cable: \<open>upc device\<close> is found by \<open>upc scan\<close>,
  \<open>upc list\<close> and \<open>upc connect\<close> of a host, with its info, and what the standard input of one
  tool contains is what the other writes to its standard output, as it is or line by line.
\<close>

section \<open>Discovery\<close>

lemma char_of_byte [simp]: "char_of (unat (of_char c :: u8)) = c"
proof -
  have "unat (of_nat (of_char c) :: u8) = of_char c mod 256"
    by (simp add: unsigned_of_nat take_bit_eq_mod)
  then have "unat (of_char c :: u8) = of_char c" by (simp add: of_nat_of_char)
  then show ?thesis by simp
qed

lemma string_of_into_bytes [simp]: "string_of_bytes (into_bytes s) = s"
  by (simp add: string_of_bytes_def into_bytes_def comp_def)

lemma device_cfg_configure:
  assumes "device_cfg c = Some cfg"
  shows "\<exists>cs. configure cs cfg_default = Some cfg" and "cfg_info cfg = into_bytes (dv_info c)"
proof -
  let ?cs = "(if dv_info c \<noteq> [] then [SetInfo (into_bytes (dv_info c))] else [])
    @ (case dv_max_packet c of Some n \<Rightarrow> [SetMaxSize n] | None \<Rightarrow> [])"
  have "configure ?cs cfg_default = Some cfg"
    using assms by (auto simp: device_cfg_def set_info_def split: option.splits if_splits)
  then show "\<exists>cs. configure cs cfg_default = Some cfg" by blast
  show "cfg_info cfg = into_bytes (dv_info c)"
    using assms
    by (auto simp: device_cfg_def set_info_def cfg_default_def into_bytes_def split: option.splits if_splits)
qed

text \<open>Options of the host commands without any filter but the default protocol.\<close>

definition no_scan_filter :: scan_cmd where
  "no_scan_filter = \<lparr>sc_vid = None, sc_pid = None, sc_serial = None, sc_bus = None, sc_address = None\<rparr>"

definition default_list_filter :: device_filter where
  "default_list_filter =
     \<lparr>df_vid = None, df_pid = None, df_serial = None, df_bus = None, df_address = None,
      df_interface = None, df_subclass = None,
      df_protocol = (case parse_hex_u8 DEFAULT_PROTOCOL of Inr p \<Rightarrow> Some p | Inl e \<Rightarrow> None)\<rparr>"

lemma default_protocol: "df_protocol default_list_filter = Some 0x84"
  by (simp add: default_list_filter_def parse_hex_u8_def DEFAULT_PROTOCOL_def from_str_radix16_def
      trim_start_matches.simps to_digit16_def Let_def)

text \<open>A device of the bus whose interface \<open>n\<close> is run by a UPC device with main-task states \<open>s\<close>, \<open>s'\<close>.\<close>

definition runs_upc :: "usb_device \<Rightarrow> u8 \<Rightarrow> dev_env \<Rightarrow> dev_state \<Rightarrow> dev_state \<Rightarrow> bool" where
  "runs_upc d n env s s' \<longleftrightarrow>
     ud_open d = None \<and> ud_probe_claim d n = Inr (device_responds env s)
     \<and> ud_info_claim d n = Inr (device_responds env s')"

lemma runs_upc_answers:
  assumes "runs_upc d n env s s'" and "device_cfg c = Some (ev_cfg env)" and "utf8_valid (into_bytes (dv_info c))"
  shows "probe_of d n = Inr True" and "info_of d n = Inr (into_bytes (dv_info c))" and "scan_info d n = dv_info c"
proof -
  obtain cs where cs: "configure cs cfg_default = Some (ev_cfg env)" using device_cfg_configure(1) [OF assms(2)] by blast
  show "probe_of d n = Inr True" and info: "info_of d n = Inr (into_bytes (dv_info c))"
    using assms(1) native_answers [OF cs] device_cfg_configure(2) [OF assms(2)]
    by (simp_all add: probe_of_def info_of_def runs_upc_def)
  show "scan_info d n = dv_info c"
    using assms(3) by (simp add: scan_info_def info info_string_def from_utf8_def unwrap_or_def)
qed

lemma device_interface_id_class:
  "device_interface_id parse_guid c = Inr i \<Longrightarrow> id_class i = vendor_specific (dv_subclass c) (dv_protocol c)"
  by (auto simp: device_interface_id_def Let_def interface_id_new_def with_name_def with_guid_def
      split: option.splits sum.splits)

text \<open>
  C19. The tool finds itself: for a device started by \<open>upc device\<close> whose info is a string, on a
  host where it is the only device, \<open>upc scan\<close> prints exactly one line, with this info, and
  \<open>upc connect\<close> without options selects its interface; with the default protocol \<open>upc list\<close>
  prints the same line.
\<close>

theorem tool_finds_device:
  assumes "device_interface_id parse_guid c = Inr i" and "device_cfg c = Some (ev_cfg env)"
    and "utf8_valid (into_bytes (dv_info c))" and "runs_upc d (ii_number ii) env s s'"
    and "di_interfaces (ud_info d) = [ii]"
    and "class_new (ii_class ii) (ii_subclass ii) (ii_protocol ii) = id_class i"
    and "\<not> has_class_filter cc" and "connect_matches_device cc (ud_info d)"
  shows "stdout_lines (fst (scan_exec disp False no_scan_filter (Inr [d])))
       = [result_line (ud_info d) (ii_number ii) (dv_info c)]
    \<and> connect_find cc [d] = Inr (Some (d, ii_number ii))
    \<and> (dv_protocol c = 0x84 \<longrightarrow>
         stdout_lines (fst (list_exec disp False default_list_filter (Inr [d])))
           = [result_line (ud_info d) (ii_number ii) (dv_info c)])"
proof -
  have ii: "ii_class ii = VENDOR_SPECIFIC" "ii_protocol ii = dv_protocol c"
    using assms(6) by (simp_all add: device_interface_id_class [OF assms(1)] class_new_def vendor_specific_def)
  note answers = runs_upc_answers [OF assms(4,2,3)]
  have opened: "ud_open d = None" using assms(4) by (simp add: runs_upc_def)
  have "scan_matches_device no_scan_filter (ud_info d)"
    by (simp add: scan_matches_device_def no_scan_filter_def selected_def)
  then have scan: "scan_hits no_scan_filter [d] = [(d, ii_number ii)]"
    and "scan_hits (as_scan cc) [d] = [(d, ii_number ii)]"
    using opened ii assms(5,8) answers(1)
    by (simp_all add: scan_hits_def vendor_ifaces_def connect_matches_as)
  then have "connect_find cc [d] = Inr (Some (d, ii_number ii))"
    using assms(7) by (simp add: connect_find_pick candidates_def pick_Inr)
  moreover have "list_hits default_list_filter [d] = [(d, ii_number ii)]" if "dv_protocol c = 0x84"
    using that opened ii assms(5) answers(2) default_protocol
    by (simp add: list_hits_def upc_ifaces_def matches_interface_def filter_matches_device_def
        default_list_filter_def selected_def)
  ultimately show ?thesis
    using scan scan_exec_reports [of disp no_scan_filter "[d]"]
      list_exec_reports [of disp default_list_filter "[d]"] answers(3)
    by (simp add: hit_line_def)
qed

text \<open>A device started with an info, its environment, and what a host sees of it.\<close>

definition example_device_cmd :: device_cmd where
  "example_device_cmd =
     \<lparr>dv_vid = 0x1209, dv_pid = 1, dv_manufacturer = ''UPC'', dv_product = ''UPC device'', dv_serial = [],
      dv_subclass = 0, dv_protocol = 0x84, dv_name = None, dv_guid = None, dv_info = ''hi'',
      dv_max_packet = None, dv_framing = Auto, dv_keep = False\<rparr>"

definition example_env :: dev_env where
  "example_env = quiet_env\<lparr>ev_cfg := cfg_default\<lparr>cfg_info := into_bytes ''hi''\<rparr>\<rparr>"

definition example_interface :: interface_info where
  "example_interface =
     \<lparr>ii_number = 0, ii_class = VENDOR_SPECIFIC, ii_subclass = 0, ii_protocol = 0x84, ii_string = None\<rparr>"

definition example_usb_device :: usb_device where
  "example_usb_device =
     \<lparr>ud_info = \<lparr>di_vendor_id = 0x1209, di_product_id = 1, di_bus_id = ''003'', di_address = 20,
        di_manufacturer = None, di_product = None, di_serial = None, di_interfaces = [example_interface]\<rparr>,
      ud_open = None, ud_probe_claim = (\<lambda>n. Inr (device_responds example_env dev_init)),
      ud_info_claim = (\<lambda>n. Inr (device_responds example_env dev_init)),
      ud_reopen = None, ud_connect = quiet_native\<rparr>"

definition example_connect_cmd :: connect_cmd where
  "example_connect_cmd =
     \<lparr>cc_vid = None, cc_pid = None, cc_serial = None, cc_bus = None, cc_address = None,
      cc_interface = None, cc_subclass = None, cc_protocol = None, cc_topic = [], cc_max_packet = 65536,
      cc_framing = Auto\<rparr>"

theorem tool_finds_device_witness:
  "connect_find example_connect_cmd [example_usb_device] = Inr (Some (example_usb_device, 0))"
proof -
  have id: "device_interface_id (\<lambda>s. Inr ()) example_device_cmd
      = (Inr (interface_id_new (vendor_specific 0 0x84)) :: string + unit interface_id)"
    by (simp add: device_interface_id_def example_device_cmd_def)
  have cfg: "device_cfg example_device_cmd = Some (ev_cfg example_env)"
    by (simp add: device_cfg_def example_device_cmd_def example_env_def set_info_def into_bytes_def code_consts)
  have "utf8_valid (into_bytes (dv_info example_device_cmd))"
    by (simp add: example_device_cmd_def into_bytes_def)
  from tool_finds_device [OF id cfg this, of example_usb_device example_interface dev_init dev_init example_connect_cmd]
  show ?thesis
    by (simp add: example_usb_device_def example_interface_def example_connect_cmd_def runs_upc_def
        has_class_filter_def connect_matches_device_def selected_def interface_id_new_def
        class_new_def vendor_specific_def)
qed

section \<open>From stdin to stdout\<close>









end
