(* ===== verification/Cli_Channel.thy ===== *)
theory Cli_Channel
  imports Cli_Forward Host_Channel Device_Channel
begin

text \<open>
  The traits \<open>UpcSend\<close> and \<open>UpcRecv\<close> of \<open>src/bin/upc.rs\<close>, through which the forwarding uses
  the channels of either side. The sending trait is a locale: what the forwarding relies on
  is that a packet within \<open>upc_max_size\<close> is never refused for its size. Its instances are the
  senders of the host and of the device.
\<close>

section \<open>The sending trait\<close>

locale upc_send =
  fixes send :: "(bytes \<Rightarrow> bool) \<Rightarrow> bytes \<Rightarrow> io_error + unit"
    and max_size :: nat
  assumes send_accepted: "length data \<le> max_size \<Longrightarrow> tx_send data \<Longrightarrow> send tx_send data = Inr ()"
    and send_refused: "length data \<le> max_size \<Longrightarrow> \<not> tx_send data \<Longrightarrow> \<exists>e. send tx_send data = Inl e"
begin

lemma send_fits: "packet_fits max_size data \<Longrightarrow> send (\<lambda>d. True) data = Inr ()"
  by (simp add: packet_fits_def send_accepted)

text \<open>While the queue accepts packets, the chunks that are left are sent one per turn.\<close>

lemma chunks_sent:
  "sd_pc s = SendChunks cs \<Longrightarrow> list_all (packet_fits max_size) cs \<Longrightarrow>
     sp_send p = (\<lambda>d. Ready (send (\<lambda>d. True) d)) \<Longrightarrow>
     fold (send_step framing keep interactive max_send) (replicate (Suc (length cs)) p) s
       = s\<lparr>sd_pc := SendSelect, sd_sent := sd_sent s @ cs\<rparr>"
proof (induction cs arbitrary: s)
  case Nil
  then show ?case by (simp add: send_step_def send_chunks_def)
next
  case (Cons c cs)
  have "send_step framing keep interactive max_send p s = s\<lparr>sd_pc := SendChunks cs, sd_sent := sd_sent s @ [c]\<rparr>"
    using Cons.prems send_fits by (simp add: send_step_def send_chunks_def)
  then show ?case
    using Cons.IH [of "s\<lparr>sd_pc := SendChunks cs, sd_sent := sd_sent s @ [c]\<rparr>"] Cons.prems by simp
qed

end

section \<open>Both sides as channels\<close>

definition host_upc_send ::
  "('e \<Rightarrow> io_error) \<Rightarrow> 'e option \<Rightarrow> host_sender \<Rightarrow> (bytes \<Rightarrow> bool) \<Rightarrow> bytes \<Rightarrow> io_error + unit" where
  "host_upc_send to_io_err err s tx_send data = host_send tx_send to_io_err err s data"

definition host_upc_max_size :: "host_sender \<Rightarrow> nat" where
  "host_upc_max_size s = hs_max_size s"

definition dev_upc_send ::
  "error_kind option \<Rightarrow> dev_sender \<Rightarrow> (bytes \<Rightarrow> bool) \<Rightarrow> bytes \<Rightarrow> io_error + unit" where
  "dev_upc_send err s tx_send data = dev_send tx_send err s data"

definition dev_upc_max_size :: "dev_sender \<Rightarrow> nat" where
  "dev_upc_max_size s = ds_max_size s"

definition host_upc_recv ::
  "bool \<Rightarrow> 'e option \<Rightarrow> ('e \<Rightarrow> io_error) \<Rightarrow> host_receiver \<Rightarrow> recv_packet list list
     \<Rightarrow> (io_error + bytes option) poll \<times> host_receiver \<times> recv_packet list list" where
  "host_upc_recv closed err to_io_err r q = host_recv closed (map_option to_io_err err) r q"

definition dev_upc_recv ::
  "bool \<Rightarrow> error_kind option \<Rightarrow> dev_receiver \<Rightarrow> bytes list
     \<Rightarrow> (io_error + bytes option) poll \<times> dev_receiver \<times> bytes list" where
  "dev_upc_recv closed err r q = dev_recv closed err r q"

interpretation host_channel: upc_send "host_upc_send to_io_err err s" "host_upc_max_size s"
  for to_io_err err s
  by unfold_locales (auto simp: host_upc_send_def host_upc_max_size_def host_send_def)

interpretation dev_channel: upc_send "dev_upc_send err s" "dev_upc_max_size s"
  for err s
  by unfold_locales (auto simp: dev_upc_send_def dev_upc_max_size_def dev_send_def)

text \<open>
  Forwarding makes progress on either side: in every state that the sending future reaches
  on a host's or a device's channel with chunks left to send, while the channel's queue
  accepts packets, one turn for each chunk and one more bring it back to its \<open>select!\<close> with all
  of them sent; none is refused for its size.
\<close>

theorem forward_progress:
  assumes "s = fold (send_step framing keep interactive (host_upc_max_size h)) ps
                 (send_init isize_max framing (host_upc_max_size h))"
    and "sd_pc s = SendChunks cs" and "sp_send p = (\<lambda>d. Ready (host_upc_send to_io_err err h (\<lambda>d. True) d))"
    and "s' = fold (send_step framing keep interactive (dev_upc_max_size d)) ps'
                 (send_init isize_max framing (dev_upc_max_size d))"
    and "sd_pc s' = SendChunks cs'" and "sp_send p' = (\<lambda>b. Ready (dev_upc_send err' d (\<lambda>d. True) b))"
  shows "fold (send_step framing keep interactive (host_upc_max_size h)) (replicate (Suc (length cs)) p) s
       = s\<lparr>sd_pc := SendSelect, sd_sent := sd_sent s @ cs\<rparr>
    \<and> fold (send_step framing keep interactive (dev_upc_max_size d)) (replicate (Suc (length cs')) p') s'
       = s'\<lparr>sd_pc := SendSelect, sd_sent := sd_sent s' @ cs'\<rparr>"
proof -
  have "list_all (packet_fits L) cs''" if "t = fold (send_step framing keep interactive L) qs (send_init isize_max framing L)"
    and "sd_pc t = SendChunks cs''" for t L qs cs''
  proof -
    have "send_inv framing keep interactive L t" unfolding that(1) by (rule send.reachable_inv)
    then show ?thesis using that(2) by (auto simp: send_inv_def pending_chunks_def)
  qed
  note fits = this
  show ?thesis
    using host_channel.chunks_sent [OF assms(2) fits [OF assms(1,2)] assms(3)]
      dev_channel.chunks_sent [OF assms(5) fits [OF assms(4,5)] assms(6)] by simp
qed

theorem forward_progress_witness:
  "\<exists>s :: send_state. sd_pc s = SendChunks [[104, 105], [10]]
     \<and> (\<exists>p :: send_poll. fold (send_step Line False True 2) (replicate 3 p) s
           = s\<lparr>sd_pc := SendSelect, sd_sent := sd_sent s @ [[104, 105], [10]]\<rparr>)"
proof -
  let ?h = "\<lparr>hs_max_size = 2\<rparr> :: host_sender" and ?d = "\<lparr>ds_max_size = 2\<rparr> :: dev_sender"
  let ?p = "\<lparr>sp_closed = False, sp_line = Ready (Inr (Some [104, 105])), sp_read = Pending,
     sp_send = (\<lambda>d. Ready (host_upc_send id None ?h (\<lambda>d. True) d))\<rparr> :: send_poll"
  let ?q = "?p\<lparr>sp_send := (\<lambda>d. Ready (dev_upc_send None ?d (\<lambda>d. True) d))\<rparr>"
  obtain s where s: "s = fold (send_step Line False True (host_upc_max_size ?h)) [?p] (send_init 1000 Line (host_upc_max_size ?h))"
    by simp
  obtain s' where s': "s' = fold (send_step Line False True (dev_upc_max_size ?d)) [?q] (send_init 1000 Line (dev_upc_max_size ?d))"
    by simp
  have pc: "sd_pc s = SendChunks [[104, 105], [10]]" "sd_pc s' = SendChunks [[104, 105], [10]]"
    by (simp_all add: s s' send_step_defs send_init_def host_upc_max_size_def dev_upc_max_size_def parts.simps Let_def)
  have p: "sp_send ?p = (\<lambda>d. Ready (host_upc_send id None ?h (\<lambda>d. True) d))"
    and q: "sp_send ?q = (\<lambda>d. Ready (dev_upc_send None ?d (\<lambda>d. True) d))" by simp_all
  have "fold (send_step Line False True 2) (replicate (Suc (length [[104::u8, 105], [10]])) ?p) s
      = s\<lparr>sd_pc := SendSelect, sd_sent := sd_sent s @ [[104, 105], [10]]\<rparr>"
    using forward_progress [OF s pc(1) p s' pc(2) q, THEN conjunct1] by (simp only: host_upc_max_size_def host_sender.simps)
  then show ?thesis
    using pc(1) by (intro exI [of _ s] conjI exI [of _ ?p]) (simp_all add: numeral_3_eq_3)
qed

end
