(* ===== verification/Example_Transfer.thy ===== *)
theory Example_Transfer
  imports System
begin

text \<open>
  The example programs of the repository, \<open>examples/common.rs\<close>, \<open>examples/device.rs\<close> and
  \<open>examples/host.rs\<close>: each side sends packets generated from its seed and checks the packets
  it receives against those that the other side's seed generates. A failing \<open>expect\<close> or
  \<open>assert\<close> is the value \<open>None\<close>. The random number generator is a library: its operations
  are arguments, with the laws that a number drawn from \<open>0..n\<close> is below \<open>n\<close> and that as many
  bytes are filled as there is room for.
\<close>

section \<open>Test data\<close>

definition HOST_SEED :: u64 where [code_consts]: "HOST_SEED = 12523"
definition DEVICE_SEED :: u64 where [code_consts]: "DEVICE_SEED = 23152"
definition TEST_PACKETS :: nat where [code_consts]: "TEST_PACKETS = 1000"
definition TEST_PACKET_MAX_SIZE :: nat where [code_consts]: "TEST_PACKET_MAX_SIZE = 1000000"

record 'r rng_ops =
  seed_from_u64 :: "u64 \<Rightarrow> 'r"
  random_range :: "'r \<Rightarrow> nat \<Rightarrow> nat \<times> 'r"
  fill_bytes :: "'r \<Rightarrow> nat \<Rightarrow> bytes \<times> 'r"

definition rng_law :: "'r rng_ops \<Rightarrow> bool" where
  "rng_law g \<longleftrightarrow> (\<forall>r n. 0 < n \<longrightarrow> fst (random_range g r n) < n) \<and> (\<forall>r n. length (fst (fill_bytes g r n)) = n)"

record 'r test_data =
  td_rng :: 'r
  td_max_length :: nat
  td_pre_lengths :: "nat list"

definition test_data_new :: "'r rng_ops \<Rightarrow> u64 \<Rightarrow> nat \<Rightarrow> 'r test_data" where
  "test_data_new g seed max_length =
     \<lparr>td_rng = seed_from_u64 g seed, td_max_length = max_length,
      td_pre_lengths = [0, 1, 2, 3, 511, 512, 513, 1023, 1024, 1025, 0, 2000, 2048, 0, 4096, 5000,
        8191, 8192, 8193, 0, 8193, TEST_PACKET_MAX_SIZE]\<rparr>"

text \<open>Drawing from an empty range panics.\<close>

definition test_data_generate :: "'r rng_ops \<Rightarrow> 'r test_data \<Rightarrow> (bytes \<times> 'r test_data) option" where
  "test_data_generate g t =
     (case (case td_pre_lengths t of
              len # lens \<Rightarrow> Some (len, t\<lparr>td_pre_lengths := lens\<rparr>)
            | [] \<Rightarrow>
                if td_max_length t = 0 then None
                else (case random_range g (td_rng t) (td_max_length t) of (len, r) \<Rightarrow> Some (len, t\<lparr>td_rng := r\<rparr>))) of
        None \<Rightarrow> None
      | Some (len, t) \<Rightarrow> (case fill_bytes g (td_rng t) len of (data, r) \<Rightarrow> Some (data, t\<lparr>td_rng := r\<rparr>)))"

definition test_data_validate :: "'r rng_ops \<Rightarrow> bytes \<Rightarrow> 'r test_data \<Rightarrow> 'r test_data option" where
  "test_data_validate g data t =
     (case test_data_generate g t of
        None \<Rightarrow> None
      | Some (expected, t) \<Rightarrow>
          if length data \<noteq> length expected then None
          else if data \<noteq> expected then None
          else Some t)"

section \<open>Sending and receiving\<close>

text \<open>The sending loop: the packets handed to the channel and the number of their bytes.\<close>

fun example_send ::
  "'r rng_ops \<Rightarrow> (bytes \<Rightarrow> io_error + unit) \<Rightarrow> nat \<Rightarrow> 'r test_data \<Rightarrow> (bytes list \<times> nat) option" where
  "example_send g send 0 t = Some ([], 0)"
| "example_send g send (Suc n) t =
     (case test_data_generate g t of
        None \<Rightarrow> None
      | Some (data, t) \<Rightarrow>
          (case send data of
             Inl e \<Rightarrow> None
           | Inr _ \<Rightarrow>
               (case example_send g send n t of
                  None \<Rightarrow> None | Some (ms, k) \<Rightarrow> Some (data # ms, length data + k))))"

text \<open>
  The receiving loop on the results of successive calls of \<open>recv\<close>, then the wait for the end
  of the stream: the number of bytes received.
\<close>

fun example_receive ::
  "'r rng_ops \<Rightarrow> nat \<Rightarrow> (io_error + bytes) list \<Rightarrow> bool \<Rightarrow> 'r test_data \<Rightarrow> nat option" where
  "example_receive g 0 rs closed t = (if rs = [] \<and> closed then Some 0 else None)"
| "example_receive g (Suc n) (Inr data # rs) closed t =
     (case test_data_validate g data t of
        None \<Rightarrow> None
      | Some t \<Rightarrow> map_option (\<lambda>k. length data + k) (example_receive g n rs closed t))"
| "example_receive g (Suc n) _ closed t = None"

section \<open>The examples pass\<close>

definition td_fits :: "nat \<Rightarrow> 'r test_data \<Rightarrow> bool" where
  "td_fits L t \<longleftrightarrow> 0 < td_max_length t \<and> td_max_length t \<le> L \<and> list_all (\<lambda>n. n \<le> L) (td_pre_lengths t)"

lemma test_data_new_fits: "td_fits TEST_PACKET_MAX_SIZE (test_data_new g seed TEST_PACKET_MAX_SIZE)"
  by (simp add: td_fits_def test_data_new_def code_consts)

lemma generate_fits:
  assumes "rng_law g" and "td_fits L t"
  obtains data t' where "test_data_generate g t = Some (data, t')" "length data \<le> L" "td_fits L t'"
proof (cases "td_pre_lengths t")
  case Nil
  obtain len r where r: "random_range g (td_rng t) (td_max_length t) = (len, r)" by fastforce
  obtain data r' where d: "fill_bytes g r len = (data, r')" by fastforce
  have "0 < td_max_length t" using assms(2) by (simp add: td_fits_def)
  then have "fst (random_range g (td_rng t) (td_max_length t)) < td_max_length t" "length (fst (fill_bytes g r len)) = len"
    using assms(1) by (simp_all add: rng_law_def)
  then have "length data \<le> L" using assms(2) r d by (simp add: td_fits_def)
  with that [of data "t\<lparr>td_rng := r'\<rparr>"] show ?thesis
    using Nil r d assms(2) by (simp add: test_data_generate_def td_fits_def)
next
  case (Cons len lens)
  obtain data r where d: "fill_bytes g (td_rng t) len = (data, r)" by fastforce
  have "length (fst (fill_bytes g (td_rng t) len)) = len" using assms(1) by (simp add: rng_law_def)
  then have "length data \<le> L" using assms(2) Cons d by (simp add: td_fits_def)
  with that [of data "t\<lparr>td_pre_lengths := lens, td_rng := r\<rparr>"] show ?thesis
    using Cons d assms(2) by (simp add: test_data_generate_def td_fits_def)
qed

lemma example_send_receive:
  assumes "rng_law g" and "\<And>d. length d \<le> L \<Longrightarrow> send d = Inr ()"
  shows "td_fits L t \<Longrightarrow> \<exists>ms k. example_send g send n t = Some (ms, k) \<and> (\<forall>m\<in>set ms. length m \<le> L)
     \<and> k = length (concat ms) \<and> example_receive g n (map Inr ms) True t = Some k"
proof (induction n arbitrary: t)
  case (Suc n)
  obtain data t' where gen: "test_data_generate g t = Some (data, t')" "length data \<le> L" "td_fits L t'"
    using generate_fits [OF assms(1) Suc.prems] .
  from Suc.IH [OF gen(3)] obtain ms k where "example_send g send n t' = Some (ms, k)" "\<forall>m\<in>set ms. length m \<le> L"
    "k = length (concat ms)" "example_receive g n (map Inr ms) True t' = Some k" by blast
  then show ?case using gen assms(2) by (simp add: test_data_validate_def)
qed simp

text \<open>
  The example programs pass in both directions: what the host sends from its seed, through
  a sender whose device accepts packets of \<open>TEST_PACKET_MAX_SIZE\<close> bytes, is validated by the
  device to the last packet and followed by the end of the stream, and likewise from the
  device to the host; each side counts as many bytes as the other. No call of \<open>send\<close>, \<open>recv\<close>
  or \<open>validate\<close> fails.
\<close>

theorem examples_pass:
  assumes "rng_law g" and "0 < mps" and "out_split_law mps split" and "in_fill_law mps (mps * TRANSFER_PACKETS) fill"
    and "dev_ready (mps * TRANSFER_PACKETS) L dr" and "host_ready (mps * TRANSFER_PACKETS) L' hr"
    and "TEST_PACKET_MAX_SIZE \<le> min L L'" and "TEST_PACKET_MAX_SIZE \<le> min (hs_max_size hs) (ds_max_size ds)"
  shows "\<exists>ms k ms' k'.
      example_send g (host_send (\<lambda>d. True) to_io_err None hs) TEST_PACKETS
        (test_data_new g HOST_SEED TEST_PACKET_MAX_SIZE) = Some (ms, k)
    \<and> (case dev_stream True None dr (fill (concat (map split (concat (map (host_out_transfers mps) ms))))) of
         (rs, closed) \<Rightarrow> example_receive g TEST_PACKETS rs closed (test_data_new g HOST_SEED TEST_PACKET_MAX_SIZE)) = Some k
    \<and> example_send g (dev_send (\<lambda>d. True) None ds) TEST_PACKETS
        (test_data_new g DEVICE_SEED TEST_PACKET_MAX_SIZE) = Some (ms', k')
    \<and> (\<forall>q. queue_data q = fill (concat (map split (concat (map (dev_out_transfers mps (mps * TRANSFER_PACKETS)) ms')))) \<longrightarrow>
         (case host_stream True None hr q of
            (rs, closed) \<Rightarrow> example_receive g TEST_PACKETS rs closed (test_data_new g DEVICE_SEED TEST_PACKET_MAX_SIZE)) = Some k')"
proof -
  have "host_send (\<lambda>d. True) to_io_err None hs d = Inr ()" "dev_send (\<lambda>d. True) None ds d = Inr ()"
    if "length d \<le> TEST_PACKET_MAX_SIZE" for d
    using that assms(8) by (simp_all add: host_send_def dev_send_def)
  note sends = this
  obtain ms k where h: "example_send g (host_send (\<lambda>d. True) to_io_err None hs) TEST_PACKETS
        (test_data_new g HOST_SEED TEST_PACKET_MAX_SIZE) = Some (ms, k)" "\<forall>m\<in>set ms. length m \<le> TEST_PACKET_MAX_SIZE"
      "example_receive g TEST_PACKETS (map Inr ms) True (test_data_new g HOST_SEED TEST_PACKET_MAX_SIZE) = Some k"
    using example_send_receive [where send = "host_send (\<lambda>d. True) to_io_err None hs" and n = TEST_PACKETS,
        OF assms(1) sends(1) test_data_new_fits] by blast
  obtain ms' k' where d: "example_send g (dev_send (\<lambda>d. True) None ds) TEST_PACKETS
        (test_data_new g DEVICE_SEED TEST_PACKET_MAX_SIZE) = Some (ms', k')" "\<forall>m\<in>set ms'. length m \<le> TEST_PACKET_MAX_SIZE"
      "example_receive g TEST_PACKETS (map Inr ms') True (test_data_new g DEVICE_SEED TEST_PACKET_MAX_SIZE) = Some k'"
    using example_send_receive [where send = "dev_send (\<lambda>d. True) None ds" and n = TEST_PACKETS,
        OF assms(1) sends(2) test_data_new_fits] by blast
  have "\<forall>m\<in>set ms. length m \<le> L" "\<forall>m\<in>set ms'. length m \<le> L'" using h(2) d(2) assms(7) by auto
  then have "dev_stream True None dr (fill (concat (map split (concat (map (host_out_transfers mps) ms))))) = (map Inr ms, True)"
    and "queue_data q = fill (concat (map split (concat (map (dev_out_transfers mps (mps * TRANSFER_PACKETS)) ms')))) \<Longrightarrow>
      host_stream True None hr q = (map Inr ms', True)" for q
    using dev_stream_run [OF assms(5), of ms True None] host_stream_run [OF assms(6), of ms' q True None]
      to_device.wire_transfers [OF assms(2-4), of ms] to_host.wire_transfers [OF assms(2-4), of ms'] by simp_all
  then show ?thesis using h d by auto
qed

text \<open>A generator that always draws 0 and fills with zeros.\<close>

definition zero_rng :: "unit rng_ops" where
  "zero_rng = \<lparr>seed_from_u64 = (\<lambda>s. ()), random_range = (\<lambda>r n. (0, r)), fill_bytes = (\<lambda>r n. (replicate n 0, r))\<rparr>"

theorem examples_pass_witness:
  "\<exists>ms k. example_send zero_rng (host_send (\<lambda>d. True) id None \<lparr>hs_max_size = MAX_SIZE\<rparr>) TEST_PACKETS
     (test_data_new zero_rng HOST_SEED TEST_PACKET_MAX_SIZE) = Some (ms, k)"
proof -
  have "rng_law zero_rng" by (simp add: rng_law_def zero_rng_def)
  from examples_pass [OF this, of 512 "usb_split 512" "usb_fill 512 (512 * TRANSFER_PACKETS) []" MAX_SIZE
      "\<lparr>dr_topic = [], dr_buffer = [], dr_max_size = MAX_SIZE, dr_max_transfer_size = 512 * TRANSFER_PACKETS\<rparr>" MAX_SIZE
      "\<lparr>hr_buffer = [], hr_max_size = MAX_SIZE, hr_max_transfer_size = 512 * TRANSFER_PACKETS\<rparr>"
      "\<lparr>hs_max_size = MAX_SIZE\<rparr>" "\<lparr>ds_max_size = MAX_SIZE\<rparr>" id]
  show ?thesis
    by (auto simp: usb_split_law usb_fill_law dev_ready_def host_ready_def code_consts)
qed

end
