(* ===== verification/Example_Programs.thy ===== *)
theory Example_Programs
  imports Example_Transfer Device_Function
begin

text \<open>
  The example programs as a whole: \<open>examples/host.rs\<close> with \<open>examples/device.rs\<close>, which exchange
  test data, and \<open>examples/simple_host.rs\<close> with \<open>examples/simple_device.rs\<close>, which exchange a
  ping and a pong. Each program finds or registers its device, connects and transfers. The
  gadget library, the GUID and the conversion of the error of the USB library are arguments;
  what is printed and measured is left out.
\<close>

section \<open>Constants and delays\<close>

definition VID :: u16 where [code_consts]: "VID = 4"
definition PID :: u16 where [code_consts]: "PID = 5"
definition TEST_CLASS :: usb_class where "TEST_CLASS = vendor_specific 22 3"
definition TOPIC :: bytes where "TOPIC = into_bytes ''TEST TOPIC''"
definition TEST_INFO :: bytes where "TEST_INFO = into_bytes ''TEST INFO''"
definition DELAY :: bool where [code_consts]: "DELAY = False"
definition DEVICE_CLASS :: usb_class where "DEVICE_CLASS = vendor_specific 0xff 0"

text \<open>
  The delay after each packet, if any, and the generator afterwards. \<open>random_ratio r n d\<close> draws
  true with probability \<open>n / d\<close>.
\<close>

definition test_delay ::
  "'r rng_ops \<Rightarrow> ('r \<Rightarrow> nat \<Rightarrow> nat \<Rightarrow> bool \<times> 'r) \<Rightarrow> 'r \<Rightarrow> duration option \<times> 'r" where
  "test_delay g random_ratio r =
     (if \<not> DELAY then (None, r)
      else
        (case random_ratio r 1 1000 of
           (True, r) \<Rightarrow> (case random_range g r 1000 of (ms, r) \<Rightarrow> (Some (from_millis ms), r))
         | (False, r) \<Rightarrow> (None, r)))"

section \<open>The outcome of a program\<close>

text \<open>A panic with its message, a call that does not return with what is given, or a value.\<close>

datatype 'a program_result = Aborts string | Blocks | Returns 'a

section \<open>The device's side\<close>

text \<open>What a program hands to the gadget library.\<close>

record 't gadget =
  gd_class :: usb_class
  gd_vendor :: u16
  gd_product :: u16
  gd_strings :: "string list"
  gd_config :: string
  gd_function :: 't
  gd_os_descriptor :: bool
  gd_release :: "u16 option"

definition device_example_id :: "'g \<Rightarrow> 'g interface_id" where
  "device_example_id guid = with_guid guid (with_name ''USB PACKET TEST'' (interface_id_new TEST_CLASS))"

text \<open>Creating the function and setting its info; the panics are those of the two calls.\<close>

definition make_function ::
  "('g gadget_interface \<Rightarrow> 't) \<Rightarrow> 'g interface_id \<Rightarrow> bytes \<Rightarrow> ('g upc_function \<times> 't) program_result" where
  "make_function build i info =
     (case function_new build i of
        None \<Rightarrow> Aborts ''called `Result::unwrap()` on an `Err` value''
      | Some (f, hnd) \<Rightarrow>
          (case set_info info (uf_cfg f) of
             None \<Rightarrow> Aborts ''info too big''
           | Some c \<Rightarrow> Returns (f\<lparr>uf_cfg := c\<rparr>, hnd)))"

text \<open>
  The set-up of \<open>device.rs\<close>: \<open>removed\<close> is the result of removing all gadgets, \<open>udc\<close> that of
  looking up the controller, \<open>bind\<close> registers a gadget and tells whether it is attached.
\<close>

definition device_example_setup ::
  "io_error + unit \<Rightarrow> ('g gadget_interface \<Rightarrow> 't) \<Rightarrow> io_error + 'u \<Rightarrow> ('t gadget \<Rightarrow> 'u \<Rightarrow> io_error + bool) \<Rightarrow> 'g
     \<Rightarrow> ('g upc_function \<times> 't gadget) program_result" where
  "device_example_setup removed build udc bind guid =
     (case removed of
        Inl e \<Rightarrow> Aborts ''cannot remove all USB gadgets''
      | Inr _ \<Rightarrow>
     (case make_function build (device_example_id guid) TEST_INFO of
        Aborts msg \<Rightarrow> Aborts msg
      | Blocks \<Rightarrow> Blocks
      | Returns (f, hnd) \<Rightarrow>
     (case udc of
        Inl e \<Rightarrow> Aborts ''cannot get UDC''
      | Inr u \<Rightarrow>
          let gadget = \<lparr>gd_class = DEVICE_CLASS, gd_vendor = VID, gd_product = PID,
                gd_strings = [''usb-packet'', ''test'', ''0''], gd_config = ''config'', gd_function = hnd,
                gd_os_descriptor = True, gd_release = None\<rparr>;
              gadget = gadget\<lparr>gd_release := Some 0x0110\<rparr>
          in (case bind gadget u of
                Inl e \<Rightarrow> Aborts ''cannot bind to UDC''
              | Inr attached \<Rightarrow>
                  if attached then Returns (f, gadget)
                  else Aborts ''assertion failed: reg.is_attached()''))))"

text \<open>
  A connection that the example accepts: the topic is checked, then packets are sent and
  received, each on its own task: the packets sent and the bytes of both directions. As in
  theory Example_Transfer a failing check is \<open>None\<close>.
\<close>

definition device_example_conn ::
  "'r rng_ops \<Rightarrow> bytes \<Rightarrow> (bytes \<Rightarrow> io_error + unit) \<Rightarrow> (io_error + bytes) list \<Rightarrow> bool \<Rightarrow> (bytes list \<times> nat) option" where
  "device_example_conn g topic send rs closed =
     (if topic \<noteq> TOPIC then None
      else
        (case example_send g send TEST_PACKETS (test_data_new g DEVICE_SEED TEST_PACKET_MAX_SIZE) of
           None \<Rightarrow> None
         | Some (ms, tx_total) \<Rightarrow>
             (case example_receive g TEST_PACKETS rs closed (test_data_new g HOST_SEED TEST_PACKET_MAX_SIZE) of
                None \<Rightarrow> None
              | Some rx_total \<Rightarrow> Some (ms, tx_total + rx_total))))"

text \<open>
  The loop of \<open>device.rs\<close> over what \<open>select\<close> yields: connections one after the other until an
  interrupt: the bytes of each, and whether the loop has ended.
\<close>

datatype example_accept =
    AcceptFails io_error
  | Interrupted
  | Accepted bytes "bytes \<Rightarrow> io_error + unit" "(io_error + bytes) list" bool

fun device_example_loop :: "'r rng_ops \<Rightarrow> example_accept list \<Rightarrow> (nat list \<times> bool) option" where
  "device_example_loop g [] = Some ([], False)"
| "device_example_loop g (AcceptFails e # evs) = None"
| "device_example_loop g (Interrupted # evs) = Some ([], True)"
| "device_example_loop g (Accepted topic send rs closed # evs) =
     (case device_example_conn g topic send rs closed of
        None \<Rightarrow> None
      | Some (ms, k) \<Rightarrow> map_option (\<lambda>(ks, ended). (k # ks, ended)) (device_example_loop g evs))"

section \<open>The host's side\<close>

text \<open>
  A device that the USB library lists, with what comes of opening it, of claiming an
  interface for a request and of connecting to it.
\<close>

record usb_candidate =
  uc_vendor_id :: u16
  uc_product_id :: u16
  uc_interfaces :: "iface_desc list"
  uc_open :: "nusb_error option"
  uc_claim :: "u8 \<Rightarrow> nusb_error + (control_in \<Rightarrow> transfer_error + bytes)"
  uc_connect :: native_env

definition find_device :: "u16 \<Rightarrow> u16 \<Rightarrow> usb_candidate list \<Rightarrow> usb_candidate option" where
  "find_device vid pid ds = find (\<lambda>d. uc_vendor_id d = vid \<and> uc_product_id d = pid) ds"

text \<open>The set-up of \<open>host.rs\<close> up to the open connection; an error of a call is a panic.\<close>

definition host_example_setup ::
  "nusb_error + usb_candidate list \<Rightarrow> (host_effect list \<times> u8 \<times> host_connection) program_result" where
  "host_example_setup devices =
     (case devices of
        Inl e \<Rightarrow> Aborts ''cannot enumerate USB devices''
      | Inr ds \<Rightarrow>
     (case find_device VID PID ds of
        None \<Rightarrow> Aborts ''device not found''
      | Some d \<Rightarrow>
     (case native_find_interface (uc_interfaces d) TEST_CLASS of
        Inl e \<Rightarrow> Aborts ''cannot find interface''
      | Inr iface \<Rightarrow>
     (case uc_open d of
        Some e \<Rightarrow> Aborts ''cannot open device''
      | None \<Rightarrow>
     (case native_info iface (uc_claim d iface) of
        Inl e \<Rightarrow> Aborts ''cannot get info''
      | Inr info \<Rightarrow>
          if info \<noteq> TEST_INFO then Aborts ''info mismatch''
          else
            (case native_connect (uc_connect d) iface TOPIC of
               (es, Panics) \<Rightarrow> Aborts ''topic too big''
             | (es, StillWaiting) \<Rightarrow> Blocks
             | (es, Fails e) \<Rightarrow> Aborts ''cannot connect''
             | (es, Opens c) \<Rightarrow> Returns (es, iface, c)))))))"

definition host_example_conn ::
  "'r rng_ops \<Rightarrow> (bytes \<Rightarrow> io_error + unit) \<Rightarrow> (io_error + bytes) list \<Rightarrow> bool \<Rightarrow> (bytes list \<times> nat) option" where
  "host_example_conn g send rs closed =
     (case example_send g send TEST_PACKETS (test_data_new g HOST_SEED TEST_PACKET_MAX_SIZE) of
        None \<Rightarrow> None
      | Some (ms, tx_total) \<Rightarrow>
          (case example_receive g TEST_PACKETS rs closed (test_data_new g DEVICE_SEED TEST_PACKET_MAX_SIZE) of
             None \<Rightarrow> None
           | Some rx_total \<Rightarrow> Some (ms, tx_total + rx_total)))"

section \<open>The simple examples\<close>

definition simple_class :: usb_class where "simple_class = vendor_specific 0x01 0"

text \<open>\<open>simple_device.rs\<close>: the set-up, then one connection; the packets it sends.\<close>

definition simple_device_setup ::
  "('g gadget_interface \<Rightarrow> 't) \<Rightarrow> io_error + 'u \<Rightarrow> ('t gadget \<Rightarrow> 'u \<Rightarrow> io_error + 'reg) \<Rightarrow> 'g
     \<Rightarrow> ('g upc_function \<times> 't gadget) program_result" where
  "simple_device_setup build udc bind guid =
     (case make_function build (with_guid guid (interface_id_new simple_class)) (into_bytes ''my device'') of
        Aborts msg \<Rightarrow> Aborts msg
      | Blocks \<Rightarrow> Blocks
      | Returns (f, hnd) \<Rightarrow>
     (case udc of
        Inl e \<Rightarrow> Aborts ''no UDC available''
      | Inr u \<Rightarrow>
          let gadget = \<lparr>gd_class = simple_class, gd_vendor = 0x1209, gd_product = 0x0001,
                gd_strings = [''mfr'', ''product'', ''serial''], gd_config = ''config'', gd_function = hnd,
                gd_os_descriptor = True, gd_release = None\<rparr>
          in (case bind gadget u of
                Inl e \<Rightarrow> Aborts ''cannot bind to UDC''
              | Inr reg \<Rightarrow> Returns (f, gadget))))"

definition simple_device_conn ::
  "(bytes \<Rightarrow> io_error + unit) \<Rightarrow> (io_error + bytes option) poll \<Rightarrow> (io_error + bytes list) program_result" where
  "simple_device_conn send received =
     (case received of
        Pending \<Rightarrow> Blocks
      | Ready (Inl e) \<Rightarrow> Returns (Inl e)
      | Ready (Inr None) \<Rightarrow> Returns (Inr [])
      | Ready (Inr (Some data)) \<Rightarrow>
          (case send (into_bytes ''pong'') of
             Inl e \<Rightarrow> Returns (Inl e)
           | Inr _ \<Rightarrow> Returns (Inr [into_bytes ''pong''])))"

text \<open>
  \<open>simple_host.rs\<close>: the set-up up to the open connection; errors are returned, those of the
  USB library converted by \<open>conv\<close>. Then a packet is sent and the reply is awaited and printed.
\<close>

definition simple_host_setup ::
  "(nusb_error \<Rightarrow> io_error) \<Rightarrow> nusb_error + usb_candidate list
     \<Rightarrow> (io_error + host_effect list \<times> u8 \<times> host_connection) program_result" where
  "simple_host_setup conv devices =
     (case devices of
        Inl e \<Rightarrow> Returns (Inl (conv e))
      | Inr ds \<Rightarrow>
     (case find_device 0x1209 0x0001 ds of
        None \<Rightarrow> Aborts ''device not found''
      | Some d \<Rightarrow>
     (case native_find_interface (uc_interfaces d) simple_class of
        Inl e \<Rightarrow> Returns (Inl e)
      | Inr iface \<Rightarrow>
     (case uc_open d of
        Some e \<Rightarrow> Returns (Inl (conv e))
      | None \<Rightarrow>
     (case native_connect (uc_connect d) iface (into_bytes ''hello'') of
        (es, Panics) \<Rightarrow> Aborts ''topic too big''
      | (es, StillWaiting) \<Rightarrow> Blocks
      | (es, Fails e) \<Rightarrow> Returns (Inl e)
      | (es, Opens c) \<Rightarrow> Returns (Inr (es, iface, c)))))))"

definition simple_host_conn ::
  "(bytes \<Rightarrow> io_error + unit) \<Rightarrow> (io_error + bytes option) poll \<Rightarrow> (io_error + bytes option) program_result" where
  "simple_host_conn send received =
     (case send (into_bytes ''ping'') of
        Inl e \<Rightarrow> Returns (Inl e)
      | Inr _ \<Rightarrow> (case received of Pending \<Rightarrow> Blocks | Ready reply \<Rightarrow> Returns reply))"

section \<open>Connecting a program on the host to a program on the device\<close>

text \<open>
  On the bus of the host device \<open>d\<close> runs the function \<open>f\<close> with the interface id \<open>i\<close>, as interface
  \<open>n\<close>: enumeration has listed its interface after others of other classes, its main task, in
  state \<open>s\<close> and environment \<open>env\<close>, answers requests with the configuration of the function, and no
  call that connecting makes fails.
\<close>

definition serves ::
  "nat \<Rightarrow> 'g interface_id \<Rightarrow> 'g upc_function \<Rightarrow> dev_env \<Rightarrow> dev_state \<Rightarrow> usb_candidate \<Rightarrow> u8 \<Rightarrow> bool" where
  "serves mps i f env s d n \<longleftrightarrow>
     (\<exists>before iface others. uc_interfaces d = before @ iface # others \<and> if_number iface = n
        \<and> enumerated mps (function_interface i) iface
        \<and> list_all (\<lambda>e. if_class e \<noteq> id_class i \<and> if_number e \<noteq> n) before)
     \<and> ev_cfg env = uf_cfg f \<and> dv_mps s = Some mps
     \<and> uc_open d = None \<and> uc_claim d n = Inr (device_responds env s)
     \<and> mps \<le> ne_usize_max (uc_connect d) \<and> ne_config (uc_connect d) = Inr (uc_interfaces d)
     \<and> claim_loop (ne_now (uc_connect d) + CLAIM_TIMEOUT) (ne_claims (uc_connect d)) = Ready (Inr ())
     \<and> ne_endpoint_in (uc_connect d) = None \<and> ne_endpoint_out (uc_connect d) = None
     \<and> ne_clear_in (uc_connect d) = None \<and> ne_clear_out (uc_connect d) = None \<and> ne_close (uc_connect d) = None
     \<and> snd (flush_loop mps (ne_flush (uc_connect d)))
     \<and> ne_caps (uc_connect d) = Inr (device_answer (uf_cfg f)) \<and> ne_open (uc_connect d) = None"

text \<open>A connection attempt in which nothing fails opens a connection.\<close>

lemma native_connect_opens:
  assumes "native_endpoints (ne_usize_max env) n (ne_config env) = Inr (mps, ep_in, ep_out)"
    and "claim_loop (ne_now env + CLAIM_TIMEOUT) (ne_claims env) = Ready (Inr ())"
    and "ne_endpoint_in env = None" "ne_endpoint_out env = None" "ne_clear_in env = None"
      "ne_clear_out env = None" "ne_close env = None" "snd (flush_loop mps (ne_flush env))"
    and "ne_caps env = Inr (device_answer c)" "ne_open env = None" "length (opt_topic o') \<le> INFO_SIZE"
  shows "\<exists>es conn. native_connect_with env n o' = (es, Opens conn) \<and> hn_mps conn = mps"
  using assms
  by (cases "flush_loop mps (ne_flush env)")
    (auto simp: native_connect_with_def native_open_connection_def device_answer_def caps_received after_def Let_def)

text \<open>
  The function is found by its class, and a connection to it opens on both sides: the host
  gets the info, the device the topic, and the limits of both sides are the configured ones,
  up to the sizes of the machines.
\<close>

lemma program_connects:
  assumes "serves mps i f env s d n" and "0 < mps" and "length topic \<le> INFO_SIZE"
    and "\<forall>e\<in>{e1, e2, e3, e4}. (\<forall>x. ev_fail e x = None) \<and> ev_cfg e = uf_cfg f"
  obtains es c s' fs ds dr where
    "native_find_interface (uc_interfaces d) (id_class i) = Inr n"
    "native_connect (uc_connect d) n topic = (es, Opens c)"
    "dev_run (deliver es [e1, e2, e3, e4]) s = Running s' fs" "last fs = Connect ds dr"
    "dr_topic dr = topic" "ds_max_size ds = min MAX_SIZE (ev_usize_max e4)"
    "dev_ready (mps * TRANSFER_PACKETS) (min (unat (cfg_max_size (uf_cfg f))) (ev_usize_max e4)) dr"
    "hs_max_size (hn_sender c) = min (unat (cfg_max_size (uf_cfg f))) (ne_usize_max (uc_connect d))"
    "host_ready (mps * TRANSFER_PACKETS) MAX_SIZE (hn_receiver c)"
proof -
  obtain before iface others where iface: "uc_interfaces d = before @ iface # others" "if_number iface = n"
      "enumerated mps (function_interface i) iface"
      "list_all (\<lambda>e. if_class e \<noteq> id_class i \<and> if_number e \<noteq> if_number iface) before"
    using assms(1) by (auto simp: serves_def)
  have mps: "mps \<le> ne_usize_max (uc_connect d)" using assms(1) by (simp add: serves_def)
  have found: "native_find_interface (uc_interfaces d) (id_class i) = Inr n"
    and "\<exists>a b. native_endpoints (ne_usize_max (uc_connect d)) n (Inr (uc_interfaces d)) = Inr (mps, a, b)"
    using host_finds_function [OF iface(3) mps iface(4), of others] iface(1,2) by auto
  then obtain a b where "native_endpoints (ne_usize_max (uc_connect d)) n (ne_config (uc_connect d)) = Inr (mps, a, b)"
    using assms(1) by (auto simp: serves_def)
  let ?o = "with_topic topic options_new"
  obtain es c where c: "native_connect_with (uc_connect d) n ?o = (es, Opens c)" "hn_mps c = mps"
    using native_connect_opens [OF \<open>native_endpoints _ _ _ = _\<close>, of "uf_cfg f" ?o] assms(1,3)
    by (auto simp: serves_def with_topic_def)
  have caps: "ne_caps (uc_connect d) = Inr (device_answer (uf_cfg f))" and "dv_mps s = Some mps"
    using assms(1) by (simp_all add: serves_def)
  note sides = deliver_native [OF c(1) caps]
  have size: "opt_max_size ?o = MAX_SIZE" "opt_topic ?o = topic" by (simp_all add: with_topic_def options_new_def)
  have limit: "unat (of_nat MAX_SIZE :: u64) = MAX_SIZE" by (simp add: MAX_SIZE_def)
  let ?caps = "\<lparr>hc_max_size = of_nat MAX_SIZE\<rparr> :: host_caps"
  let ?e3 = "e3\<lparr>ev_body := Inr (host_caps_encode ?caps)\<rparr>" and ?e4 = "e4\<lparr>ev_body := Inr topic\<rparr>"
  have quiet: "\<forall>env\<in>{e1\<lparr>ev_body := Inr []\<rparr>, e2\<lparr>ev_body := Inr []\<rparr>, ?e3, ?e4}. \<forall>e. ev_fail env e = None"
    using assms(4) by simp
  have bodies: "ev_body ?e3 = Inr (host_caps_encode ?caps)" "ev_body ?e4 = Inr topic" by simp_all
  obtain s' fs where run: "dev_run (deliver es [e1, e2, e3, e4]) s = Running s' fs"
      "last fs = Connect \<lparr>ds_max_size = min (unat (hc_max_size ?caps)) (ev_usize_max ?e4)\<rparr>
        \<lparr>dr_topic = topic, dr_buffer = [], dr_max_size = min (unat (cfg_max_size (ev_cfg ?e4))) (ev_usize_max ?e4),
         dr_max_transfer_size = mps * TRANSFER_PACKETS\<rparr>"
    using handshake_run [OF \<open>dv_mps s = Some mps\<close> quiet bodies]
    unfolding sides(1) [of e1 e2 e3 e4, unfolded size] by blast
  show thesis
    by (rule that [OF found _ run])
      (use c sides(2,3) size limit assms(2,4) in \<open>auto simp: native_connect_def dev_ready_def host_ready_def TRANSFER_PACKETS_def\<close>)
qed


lemma make_function_cfg:
  assumes "make_function build i info = Returns (f, hnd)"
  shows "uf_cfg f = cfg_default\<lparr>cfg_info := info\<rparr>" and "configure [SetInfo info] cfg_default = Some (uf_cfg f)"
  using assms
  by (auto simp: make_function_def function_new_def function_init_def set_info_def split: if_splits)

lemma device_example_setup_cfg:
  assumes "device_example_setup removed build udc bind guid = Returns (f, gadget)"
  shows "uf_cfg f = cfg_default\<lparr>cfg_info := TEST_INFO\<rparr>" and "configure [SetInfo TEST_INFO] cfg_default = Some (uf_cfg f)"
    and "gd_vendor gadget = VID" and "gd_product gadget = PID"
  using assms make_function_cfg [of build "device_example_id guid" TEST_INFO f]
  by (auto simp: device_example_setup_def Let_def split: sum.splits program_result.splits prod.splits if_splits)

lemma simple_device_setup_cfg:
  assumes "simple_device_setup build udc bind guid = Returns (f, gadget)"
  shows "uf_cfg f = cfg_default\<lparr>cfg_info := into_bytes ''my device''\<rparr>"
    and "gd_vendor gadget = 0x1209" and "gd_product gadget = 0x0001"
  using assms make_function_cfg(1) [of build "with_guid guid (interface_id_new simple_class)" "into_bytes ''my device''" f]
  by (auto simp: simple_device_setup_def Let_def split: sum.splits program_result.splits prod.splits)

lemma find_device_first:
  "uc_vendor_id d = vid \<Longrightarrow> uc_product_id d = pid \<Longrightarrow>
   list_all (\<lambda>e. uc_vendor_id e \<noteq> vid \<or> uc_product_id e \<noteq> pid) ds \<Longrightarrow> find_device vid pid (ds @ d # es) = Some d"
  by (induction ds) (auto simp: find_device_def)

lemma text_lengths [simp]: "length TOPIC = 10" "length TEST_INFO = 9"
  by (simp_all add: TOPIC_def TEST_INFO_def)

lemma device_example_id_class [simp]: "id_class (device_example_id guid) = TEST_CLASS"
  by (simp add: device_example_id_def interface_id_new_def with_name_def with_guid_def)

section \<open>The examples run against each other\<close>

text \<open>
  C18. The example programs from their start: once the device example has registered its
  gadget and the bus lists it, the host example finds it among other devices, reads the info
  it expects and connects; its requests make the main task hand the device example a
  connection whose topic it accepts. Then both programs run to the end of the stream without
  a failing check, for every behaviour of the controllers within their laws and every timing of
  the host's queue, and both report the same number of bytes.
\<close>

theorem example_programs_pass:
  assumes "rng_law g" and "0 < mps" and "out_split_law mps split" and "in_fill_law mps (mps * TRANSFER_PACKETS) fill"
    and "device_example_setup removed build udc bind guid = Returns (f, gadget)"
    and "serves mps (device_example_id guid) f env s d n"
    and "uc_vendor_id d = gd_vendor gadget" and "uc_product_id d = gd_product gadget"
    and "list_all (\<lambda>e. uc_vendor_id e \<noteq> VID \<or> uc_product_id e \<noteq> PID) ds"
    and "\<forall>e\<in>{e1, e2, e3, e4}. (\<forall>x. ev_fail e x = None) \<and> ev_cfg e = uf_cfg f"
    and "TEST_PACKET_MAX_SIZE \<le> min (ev_usize_max e4) (ne_usize_max (uc_connect d))"
  shows "\<exists>es c s' fs tx rx ms ms' k.
      host_example_setup (Inr (ds @ d # others)) = Returns (es, n, c)
    \<and> dev_run (deliver es [e1, e2, e3, e4]) s = Running s' fs \<and> last fs = Connect tx rx
    \<and> (case dev_stream True None rx (fill (concat (map split (concat (map (host_out_transfers mps) ms))))) of
         (rs, closed) \<Rightarrow> device_example_conn g (dr_topic rx) (dev_send (\<lambda>d. True) None tx) rs closed) = Some (ms', k)
    \<and> (\<forall>q. queue_data q = fill (concat (map split (concat (map (dev_out_transfers mps (mps * TRANSFER_PACKETS)) ms')))) \<longrightarrow>
         (case host_stream True None (hn_receiver c) q of
            (rs, closed) \<Rightarrow> host_example_conn g (host_send (\<lambda>d. True) native_to_io_err None (hn_sender c)) rs closed) = Some (ms, k))"
proof -
  note cfg = device_example_setup_cfg [OF assms(5)]
  have topic: "length TOPIC \<le> INFO_SIZE" by (simp add: code_consts)
  obtain es c s' fs tx rx where
    found: "native_find_interface (uc_interfaces d) TEST_CLASS = Inr n" "native_connect (uc_connect d) n TOPIC = (es, Opens c)"
    and opened: "dev_run (deliver es [e1, e2, e3, e4]) s = Running s' fs" "last fs = Connect tx rx" "dr_topic rx = TOPIC"
    and limits: "ds_max_size tx = min MAX_SIZE (ev_usize_max e4)"
      "dev_ready (mps * TRANSFER_PACKETS) (min (unat (cfg_max_size (uf_cfg f))) (ev_usize_max e4)) rx"
      "hs_max_size (hn_sender c) = min (unat (cfg_max_size (uf_cfg f))) (ne_usize_max (uc_connect d))"
      "host_ready (mps * TRANSFER_PACKETS) MAX_SIZE (hn_receiver c)"
    by (rule program_connects [OF assms(6,2) topic assms(10), unfolded device_example_id_class])
  have "native_info n (uc_claim d n) = Inr TEST_INFO" "uc_open d = None"
    using assms(6) native_answers(2) [of "[SetInfo TEST_INFO]" env n s] cfg(1,2) by (auto simp: serves_def)
  then have ready: "host_example_setup (Inr (ds @ d # others)) = Returns (es, n, c)"
    using found find_device_first [OF assms(7,8) [unfolded cfg(3,4)] assms(9)] by (simp add: host_example_setup_def)
  have "TEST_PACKET_MAX_SIZE \<le> MAX_SIZE" "TEST_PACKET_MAX_SIZE \<le> unat (cfg_max_size (uf_cfg f))"
    by (simp_all add: cfg(1) cfg_default_def code_consts)
  then have "TEST_PACKET_MAX_SIZE \<le> min (min (unat (cfg_max_size (uf_cfg f))) (ev_usize_max e4)) MAX_SIZE"
    "TEST_PACKET_MAX_SIZE \<le> min (hs_max_size (hn_sender c)) (ds_max_size tx)"
    using assms(11) limits(1,3) by simp_all
  from examples_pass [OF assms(1-4) limits(2,4) this, of native_to_io_err]
  obtain ms k ms' k' where
    "example_send g (host_send (\<lambda>d. True) native_to_io_err None (hn_sender c)) TEST_PACKETS
        (test_data_new g HOST_SEED TEST_PACKET_MAX_SIZE) = Some (ms, k)"
    "(case dev_stream True None rx (fill (concat (map split (concat (map (host_out_transfers mps) ms))))) of
         (rs, closed) \<Rightarrow> example_receive g TEST_PACKETS rs closed (test_data_new g HOST_SEED TEST_PACKET_MAX_SIZE)) = Some k"
    "example_send g (dev_send (\<lambda>d. True) None tx) TEST_PACKETS
        (test_data_new g DEVICE_SEED TEST_PACKET_MAX_SIZE) = Some (ms', k')"
    "\<And>q. queue_data q = fill (concat (map split (concat (map (dev_out_transfers mps (mps * TRANSFER_PACKETS)) ms')))) \<Longrightarrow>
         (case host_stream True None (hn_receiver c) q of
            (rs, closed) \<Rightarrow> example_receive g TEST_PACKETS rs closed (test_data_new g DEVICE_SEED TEST_PACKET_MAX_SIZE)) = Some k'"
    by blast
  then have "(case dev_stream True None rx (fill (concat (map split (concat (map (host_out_transfers mps) ms))))) of
         (rs, closed) \<Rightarrow> device_example_conn g (dr_topic rx) (dev_send (\<lambda>d. True) None tx) rs closed) = Some (ms', k' + k)"
    "\<forall>q. queue_data q = fill (concat (map split (concat (map (dev_out_transfers mps (mps * TRANSFER_PACKETS)) ms')))) \<longrightarrow>
         (case host_stream True None (hn_receiver c) q of
            (rs, closed) \<Rightarrow> host_example_conn g (host_send (\<lambda>d. True) native_to_io_err None (hn_sender c)) rs closed) = Some (ms, k' + k)"
    using opened(3) by (auto simp: device_example_conn_def host_example_conn_def add.commute split_beta)
  then show ?thesis using ready opened(1,2) by blast
qed

text \<open>A bus on which the device example runs alone.\<close>

definition example_iface :: "usb_class \<Rightarrow> iface_desc" where
  "example_iface c =
     \<lparr>if_number = 1, if_class = c,
      if_endpoints = [\<lparr>ed_direction = DirOut, ed_type = Bulk, ed_mps = 512, ed_address = 0x01\<rparr>,
                      \<lparr>ed_direction = DirIn, ed_type = Bulk, ed_mps = 512, ed_address = 0x81\<rparr>]\<rparr>"

definition example_candidate :: "usb_class \<Rightarrow> u16 \<Rightarrow> u16 \<Rightarrow> dev_env \<Rightarrow> usb_candidate" where
  "example_candidate c vid pid env =
     \<lparr>uc_vendor_id = vid, uc_product_id = pid, uc_interfaces = [example_iface c], uc_open = None,
      uc_claim = (\<lambda>n. Inr (device_responds env open_state)),
      uc_connect = quiet_native\<lparr>ne_config := Inr [example_iface c], ne_caps := Inr (device_answer (ev_cfg env))\<rparr>\<rparr>"

lemma example_candidate_serves:
  assumes "id_class i = c" and "ev_cfg env = uf_cfg f"
  shows "serves 512 i f env open_state (example_candidate c vid pid env) 1"
proof -
  have "enumerated 512 (function_interface i) (example_iface c)"
    using assms(1) by (simp add: enumerated_def function_interface_def example_iface_def Let_def split: option.split)
  moreover have "if_number (example_iface c) = 1" by (simp add: example_iface_def)
  moreover have "uc_interfaces (example_candidate c vid pid env) = [] @ example_iface c # []"
    by (simp add: example_candidate_def)
  ultimately have "\<exists>before iface others. uc_interfaces (example_candidate c vid pid env) = before @ iface # others
      \<and> if_number iface = 1 \<and> enumerated 512 (function_interface i) iface
      \<and> list_all (\<lambda>e. if_class e \<noteq> id_class i \<and> if_number e \<noteq> 1) before"
    by (intro exI [of _ "[]"] exI [of _ "example_iface c"]) simp
  then show ?thesis
    unfolding serves_def using assms(2) by (simp add: example_candidate_def quiet_native_def open_state_def)
qed

theorem example_programs_pass_witness:
  "\<exists>es c. host_example_setup (Inr [example_candidate TEST_CLASS VID PID
      (quiet_env\<lparr>ev_cfg := cfg_default\<lparr>cfg_info := TEST_INFO\<rparr>\<rparr>)]) = Returns (es, 1, c)"
proof -
  let ?env = "quiet_env\<lparr>ev_cfg := cfg_default\<lparr>cfg_info := TEST_INFO\<rparr>\<rparr>"
  let ?d = "example_candidate TEST_CLASS VID PID ?env"
  have rng: "rng_law zero_rng" by (simp add: rng_law_def zero_rng_def)
  obtain f gadget where setup_ok:
      "device_example_setup (Inr ()) (\<lambda>i. i) (Inr ()) (\<lambda>g u. Inr True) () = Returns (f, gadget)"
    by (simp add: device_example_setup_def make_function_def function_new_def function_init_def set_info_def
        code_consts)
  then have ids: "uc_vendor_id ?d = gd_vendor gadget" "uc_product_id ?d = gd_product gadget"
    by (auto dest: device_example_setup_cfg(3,4) simp: example_candidate_def)
  have cfg: "ev_cfg ?env = uf_cfg f" using device_example_setup_cfg(1) [OF setup_ok] by simp
  then have quiet: "\<forall>e\<in>{?env, ?env, ?env, ?env}. (\<forall>x. ev_fail e x = None) \<and> ev_cfg e = uf_cfg f"
    by (simp add: quiet_env_def)
  have "TEST_PACKET_MAX_SIZE \<le> min (ev_usize_max ?env) (ne_usize_max (uc_connect ?d))"
    by (simp add: quiet_env_def example_candidate_def quiet_native_def code_consts)
  from example_programs_pass [OF rng _ usb_split_law usb_fill_law setup_ok
      example_candidate_serves [OF device_example_id_class cfg] ids _ quiet this, of "[]" "[]"]
  show ?thesis by (auto simp: TRANSFER_PACKETS_def)
qed

text \<open>
  The simple examples from their start: the host finds the device and connects with its
  topic, the device receives the ping and answers, and the host receives the pong.
\<close>

theorem simple_examples_pong:
  assumes "0 < mps" and "out_split_law mps split" and "in_fill_law mps (mps * TRANSFER_PACKETS) fill"
    and "simple_device_setup build udc bind guid = Returns (f, gadget)"
    and "serves mps (with_guid guid (interface_id_new simple_class)) f env s d n"
    and "uc_vendor_id d = gd_vendor gadget" and "uc_product_id d = gd_product gadget"
    and "list_all (\<lambda>e. uc_vendor_id e \<noteq> 0x1209 \<or> uc_product_id e \<noteq> 0x0001) ds"
    and "\<forall>e\<in>{e1, e2, e3, e4}. (\<forall>x. ev_fail e x = None) \<and> ev_cfg e = uf_cfg f"
    and "4 \<le> min (ev_usize_max e4) (ne_usize_max (uc_connect d))"
  shows "\<exists>es c s' fs tx rx.
      simple_host_setup conv (Inr (ds @ d # others)) = Returns (Inr (es, n, c))
    \<and> dev_run (deliver es [e1, e2, e3, e4]) s = Running s' fs \<and> last fs = Connect tx rx
    \<and> dr_topic rx = into_bytes ''hello''
    \<and> simple_device_conn (dev_send (\<lambda>d. True) None tx)
        (fst (dev_recv False None rx (fill (concat (map split (host_out_transfers mps (into_bytes ''ping''))))))) = 
        Returns (Inr [into_bytes ''pong''])
    \<and> (\<forall>q. queue_data q = fill (concat (map split (dev_out_transfers mps (mps * TRANSFER_PACKETS) (into_bytes ''pong'')))) \<longrightarrow>
         simple_host_conn (host_send (\<lambda>d. True) native_to_io_err None (hn_sender c))
           (fst (host_recv False None (hn_receiver c) q)) = Returns (Inr (Some (into_bytes ''pong''))))"
proof -
  note cfg = simple_device_setup_cfg [OF assms(4)]
  have cls: "id_class (with_guid guid (interface_id_new simple_class)) = simple_class"
    by (simp add: with_guid_def interface_id_new_def)
  have topic: "length (into_bytes ''hello'') \<le> INFO_SIZE" by (simp add: code_consts)
  obtain es c s' fs tx rx where
    found: "native_find_interface (uc_interfaces d) simple_class = Inr n"
      "native_connect (uc_connect d) n (into_bytes ''hello'') = (es, Opens c)"
    and opened: "dev_run (deliver es [e1, e2, e3, e4]) s = Running s' fs" "last fs = Connect tx rx"
      "dr_topic rx = into_bytes ''hello''"
    and limits: "ds_max_size tx = min MAX_SIZE (ev_usize_max e4)"
      "dev_ready (mps * TRANSFER_PACKETS) (min (unat (cfg_max_size (uf_cfg f))) (ev_usize_max e4)) rx"
      "hs_max_size (hn_sender c) = min (unat (cfg_max_size (uf_cfg f))) (ne_usize_max (uc_connect d))"
      "host_ready (mps * TRANSFER_PACKETS) MAX_SIZE (hn_receiver c)"
    by (rule program_connects [OF assms(5,1) topic assms(9), unfolded cls])
  have "uc_open d = None" using assms(5) by (simp add: serves_def)
  then have ready: "simple_host_setup conv (Inr (ds @ d # others)) = Returns (Inr (es, n, c))"
    using found find_device_first [OF assms(6,7) [unfolded cfg(2,3)] assms(8)] by (simp add: simple_host_setup_def)
  have four: "length (into_bytes ''ping'') = 4" "length (into_bytes ''pong'') = 4" by simp_all
  have room: "4 \<le> unat (cfg_max_size (uf_cfg f))" by (simp add: cfg(1) cfg_default_def code_consts)
  have "length (into_bytes ''pong'') \<le> ds_max_size tx" "length (into_bytes ''ping'') \<le> hs_max_size (hn_sender c)"
    unfolding four limits(1,3) using assms(10) room by (simp_all add: MAX_SIZE_def)
  then have sends: "dev_send (\<lambda>d. True) None tx (into_bytes ''pong'') = Inr ()"
      "host_send (\<lambda>d. True) native_to_io_err None (hn_sender c) (into_bytes ''ping'') = Inr ()"
    by (simp_all add: dev_send_def host_send_def not_less del: length_into_bytes)
  have "length (into_bytes ''ping'') \<le> min (unat (cfg_max_size (uf_cfg f))) (ev_usize_max e4)"
    unfolding four using assms(10) room by simp
  then have "fst (dev_recv False None rx (fill (concat (map split (host_out_transfers mps (into_bytes ''ping'')))))) =
      Ready (Inr (Some (into_bytes ''ping'')))"
    using dev.recv_packet [OF limits(2), of "into_bytes ''ping''" _ "[]" False None]
      to_device.wire_transfers [OF assms(1-3), of "[into_bytes ''ping'']"] by fastforce
  moreover have "fst (host_recv False None (hn_receiver c) q) = Ready (Inr (Some (into_bytes ''pong'')))"
    if "queue_data q = fill (concat (map split (dev_out_transfers mps (mps * TRANSFER_PACKETS) (into_bytes ''pong''))))" for q
    using host_recv_one [OF limits(4), of "into_bytes ''pong''" q "[]" False None]
      to_host.wire_transfers [OF assms(1-3), of "[into_bytes ''pong'']"] that by (auto simp: MAX_SIZE_def)
  ultimately show ?thesis
    using ready opened sends
    by (intro exI [of _ es] exI [of _ c] exI [of _ s'] exI [of _ fs] exI [of _ tx] exI [of _ rx])
      (simp add: simple_device_conn_def simple_host_conn_def)
qed

theorem simple_examples_pong_witness:
  "\<exists>es c. simple_host_setup nusb_to_io_err (Inr [example_candidate simple_class 0x1209 0x0001
      (quiet_env\<lparr>ev_cfg := cfg_default\<lparr>cfg_info := into_bytes ''my device''\<rparr>\<rparr>)]) = Returns (Inr (es, 1, c))"
proof -
  let ?env = "quiet_env\<lparr>ev_cfg := cfg_default\<lparr>cfg_info := into_bytes ''my device''\<rparr>\<rparr>"
  let ?d = "example_candidate simple_class 0x1209 0x0001 ?env"
  obtain f gadget where setup_ok:
      "simple_device_setup (\<lambda>i. i) (Inr ()) (\<lambda>g u. Inr ()) () = Returns (f, gadget)"
    by (simp add: simple_device_setup_def make_function_def function_new_def function_init_def set_info_def
        code_consts)
  then have ids: "uc_vendor_id ?d = gd_vendor gadget" "uc_product_id ?d = gd_product gadget"
    and cfg: "ev_cfg ?env = uf_cfg f"
    by (auto dest: simple_device_setup_cfg simp: example_candidate_def)
  have cls: "id_class (with_guid () (interface_id_new simple_class)) = simple_class"
    by (simp add: with_guid_def interface_id_new_def)
  have quiet: "\<forall>e\<in>{?env, ?env, ?env, ?env}. (\<forall>x. ev_fail e x = None) \<and> ev_cfg e = uf_cfg f"
    using cfg by (simp add: quiet_env_def)
  have "4 \<le> min (ev_usize_max ?env) (ne_usize_max (uc_connect ?d))"
    by (simp add: quiet_env_def example_candidate_def quiet_native_def)
  from simple_examples_pong [OF _ usb_split_law usb_fill_law setup_ok
      example_candidate_serves [OF cls cfg] ids _ quiet this, of "[]" nusb_to_io_err "[]"]
  show ?thesis by (auto simp: TRANSFER_PACKETS_def)
qed

end
