(* ===== verification/Spec2Isabelle.thy ===== *)
theory Spec2Isabelle
  imports System_Web System_Alive System_Flow_Delivery System_Back_Delivery Traced_Channel Host_Buffers Cli_System Cli_Channel Example_Programs
begin

text \<open>
  A verification development of UPC, USB packet channels: a Rust library that carries
  packets in both directions between a USB host and a USB device over two bulk endpoints
  and a few vendor control requests (\<open>src/PROTOCOL.md\<close> describes the protocol).

  \<^bold>\<open>The program.\<close> A host connects with the control requests CLOSE, CAPABILITIES (both ways)
  and OPEN. The device's main task (\<open>UpcFunction::task\<close> in \<open>src/src/device.rs\<close>) answers them,
  hands a connection to the application and runs two endpoint tasks; the host has two
  endpoint tasks and a status task. A packet travels as a sequence of full USB packets and
  a short one; each side reassembles packets from transfers of at most \<open>TRANSFER_PACKETS\<close>
  USB packets. Each direction closes alone: the host announces the end of its direction by
  CLOSE_SEND with a byte count, or of the other by CLOSE_RECV, the device by halting an
  endpoint and in its answer to STATUS. The host polls STATUS; the device gives up a host
  that stops polling. The command line tool \<open>upc\<close> (\<open>src/src/bin/upc.rs\<close>) lists devices
  and connects its stdin and stdout to a channel, on either side.

  \<^bold>\<open>Theories, in the order of their imports.\<close>

  \<^item> \<open>Upc_Prelude\<close>: machine words, errors and durations of the Rust standard library,
    little-endian bytes, \<open>transfers\<close> (how a packet arrives), runs of step functions with an
    invariant and with a measure (three locales that the tasks and systems instantiate).
  \<^item> \<open>Upc_Lib\<close>, \<open>Upc_Tlv\<close>, \<open>Upc_Capabilities\<close>: \<open>src/src/lib.rs\<close>, that is constants and
    request codes, the TLV codec and the capabilities of both sides. Encoding and decoding
    are inverse, with the exact loss of the ping timeout; unknown tags are skipped.
  \<^item> \<open>Packet_Interfaces\<close>: the contracts of a packet receiver, a packet sender and a link of
    both, as locales, and the laws assumed of the USB controllers.
  \<^item> \<open>Device_Channel\<close>, \<open>Device_Tasks\<close>, \<open>Device_Main\<close>, \<open>Device_Connection\<close>:
    \<open>src/src/device.rs\<close>, that is the application's sender and receiver, the endpoint tasks
    \<open>in_task\<close> and \<open>out_task\<close>, the main task handler by handler, and the life of a connection
    (abstract machine, handshake, ping timeout, halts, refused requests).
  \<^item> \<open>Device_Function\<close>: creation and configuration of \<open>UpcFunction\<close>, and what a host finds
    of it.
  \<^item> \<open>Host_Channel\<close>: \<open>src/src/host/mod.rs\<close>, the application's sender and the receiver that
    drains its queue in batches.
  \<^item> \<open>Host_Half_Close\<close>: \<open>HalfCloseHandle\<close> of both backends, as two instances of a contract.
  \<^item> \<open>Host_Native\<close>, \<open>Host_Native_Tasks\<close>, \<open>Host_Buffers\<close>: \<open>src/src/host/native.rs\<close>, connecting,
    the three tasks with their interleavings, and the way of the receive buffers of \<open>in_task\<close>
    through packets and receiver and back.
  \<^item> \<open>Host_Web\<close>, \<open>Host_Web_Connection\<close>: \<open>src/src/host/web.rs\<close> and \<open>src/src/host/guard.rs\<close>, with
    the ECHO barrier, each task, and the tasks together with their interleavings.
  \<^item> \<open>System\<close>, \<open>System_Close\<close>, \<open>System_Alive\<close>, \<open>System_Web\<close>: host and device together, that is delivery in
    both directions, the half-close that drains, the handshake on both sides, status and ping
    timeout (a host that polls is never timed out), the end of a connection seen from the other side, and the ECHO barrier of a web
    host against the packets that an earlier connection has left.
  \<^item> \<open>System_Flow\<close>, \<open>System_Flow_Delivery\<close>: the direction from host to device as one system of
    application, \<open>out_task\<close>, controllers, \<open>in_task\<close>, main task and application, which take turns
    in any order over bounded queues; its invariant, a measure that every turn decreases or
    keeps, and delivery. \<open>System_Flow_Back\<close>, \<open>System_Back_Delivery\<close>: the same from device to host.
  \<^item> \<open>Upc_Trace\<close>, \<open>Traced_Channel\<close>: \<open>src/src/trace.rs\<close>, the recording tracer and the empty one as
    instances of one interface, and the channel operations and endpoint tasks with their calls
    of it, which behave as without them.
  \<^item> \<open>Cli_Args\<close>, \<open>Cli_Discover\<close>, \<open>Cli_Connect\<close>: the options of the command line tool, its
    commands scan and list, connect and device, and \<open>main\<close>; a command is a function from the
    devices present to the lines it prints and its result.
  \<^item> \<open>Cli_Forward\<close>, \<open>Cli_Channel\<close>, \<open>Cli_System\<close>: \<open>forward_stdio\<close> as two step functions and
    their join, its traits over the channels of both sides (a locale with two
    interpretations), and the tool on both ends of a cable.
  \<^item> \<open>Example_Transfer\<close>, \<open>Example_Programs\<close>: the example programs of \<open>src/examples\<close>, their test data,
    and whole programs from the set-up to the end of the stream.

  \<^bold>\<open>How code is modelled.\<close> A function without \<open>await\<close> is a function. A task is a step function
  on a record of its local variables and a program counter that names the \<open>await\<close> where it
  waits; the step's argument gives what the awaited operations would yield at that moment,
  and the branches of a biased \<open>select!\<close> are tried in the order of the code. A handler of
  the device's main task is a function that returns the new state and the list of its
  effects; a failing call that is propagated ends the task, a panic is a value, and waiting
  for a lock that a live task holds is the value \<open>Stuck\<close>. Errors are values of a sum type.
  Lengths are natural numbers; byte counters are 64-bit words; the largest \<open>usize\<close> is a
  parameter where a 64-bit number is converted to it.

  \<^bold>\<open>What is assumed.\<close> The USB libraries, channels, locks and buffers are not part of the
  repository: their results are arguments. Delivery uses two laws of the USB controllers,
  \<open>out_split_law\<close> (a transfer is cut into full packets and a rest) and \<open>in_fill_law\<close> (a
  transfer completes on a short packet or when its buffer is full); \<open>usb_split\<close> and
  \<open>usb_fill\<close> satisfy them. The pool of buffers assumes \<open>bytes_mut_law\<close>, the
  examples \<open>rng_law\<close> of the random number generator and, of the bus, \<open>serves\<close>: a registered
  function is enumerated with its class and endpoints and the calls of connecting succeed.
  The content of stdin is explicit where the forwarding is described: \<open>stdin_step\<close> runs the
  sending future on an input, of which \<open>next_line\<close> takes a line as the standard library does
  and a read takes some bytes; a turn only chooses the timing, the length of a read and errors.

  \<^bold>\<open>Loops.\<close> Most recursions follow a list or lose bytes of one. The loop that cuts a packet
  on the device is a partial function, since it does not return for a transfer size of 0,
  and \<open>send_parts_terminates\<close> shows that it returns for every other. The loops that retry
  (claiming, guard, ECHO barrier) run over the list of outcomes; \<open>claim_loop_bounded\<close> bounds
  the first by its time limit and tells which attempt decides, the others count their retries.
  The systems of a whole direction have no bound on their steps, but the measures
  \<open>flow_work\<close> and \<open>back_work\<close> bound the rounds in which every part has had a turn.

  \<^bold>\<open>What the properties show.\<close> On the two directions every step of the main task is exactly that of an
  abstract machine, a function of what happens (\<open>conn_next\<close>); the main task
  keeps its tasks and flags consistent, never waits for a lock of its own tasks except on
  Enable, and its ping timeout is exact. Packets of any length are delivered whole and in
  order in both directions, independently of timing; with bounded queues and any fair order
  of turns they all arrive, with the end of the stream, within a bounded number of rounds. A
  regular half-close loses nothing unless the last packet fills its last transfer. The native
  host uses a bounded number of receive buffers. A trace agrees with the wire. The host sends its closing requests
  exactly when they are due, for every interleaving of its tasks and in both backends, and
  then the device has no connection either. The command line tool finds and selects exactly
  the devices its filters name, exits with success only after a forwarding without error, and
  sends the whole of its stdin, unchanged with raw framing and line by line, each with a
  newline, with line framing; a forwarding that panics ends \<open>connect\<close> and \<open>device\<close> with the
  panic, and \<open>connect_exit\<close> says when this can happen. The examples run against each
  other to their end. Several properties state
  behaviour that is not intended: see \<open>forward_lingers\<close>, \<open>forward_panics_iff\<close>,
  \<open>flow_loses_packet\<close>, \<open>dev_enable_deadlock\<close>,
  \<open>dev_receive_failure_reads_as_end\<close>, \<open>host_out_counts_unsent_bytes\<close>,
  \<open>dev_recv_oversized_tail\<close>, \<open>host_oversized_timing\<close>.

  \<^bold>\<open>Not modelled.\<close> Log messages and \<open>Debug\<close> output, which only print; the parsing of the command
  line, done by a library; what the gadget library makes of a gadget; the wrapper types for
  \<open>Sink\<close> and \<open>Stream\<close>, which only forward; closing the descriptors of stdin and stdout; the
  final wait of \<open>forward_stdio\<close> and the fixed sleeps of the examples; what the queue yields to
  the ECHO barrier within each timeout (an argument); the tests. The capacity of the queues is
  part of the systems of \<open>System_Flow\<close> and \<open>System_Flow_Back\<close> and of \<open>Host_Buffers\<close>; elsewhere
  only whether a send succeeds is an argument; in particular the handler of OPEN hands its
  connection to the application at once, where the code waits while the queue of accepted
  connections is full. Setting the error of a connection has an effect also when no receiver
  of it is left, which nothing can observe.
\<close>

end
